(* ===== verification/Earendil_Prelude.thy ===== *)
theory Earendil_Prelude
  imports Main "HOL-Library.Word" "HOL-Library.List_Lexorder"
begin

text \<open>
  Shared material of the development: the byte and integer types of the Rust code, results
  with errors and panics as values, fixed-size byte slices, the XOR of a buffer with a key
  stream, and the big-endian and little-endian integer conversions of the standard library.
  The collection \<open>res_simps\<close> inverts the result combinators.
\<close>

unbundle bit_operations_syntax

named_theorems res_simps \<open>inversion of the result combinators\<close>

type_synonym byte = "8 word"
type_synonym bytes = "byte list"
type_synonym u16 = "16 word"
type_synonym u32 = "32 word"
type_synonym u64 = "64 word"

section \<open>Results: errors and panics as values\<close>

text \<open>
  A Rust \<open>Result<T, E>\<close> whose evaluation may also panic (\<open>unwrap\<close>, \<open>assert_eq!\<close>, an
  index out of range) is a value of \<open>('e, 'a) res\<close>: \<open>Inr\<close> is \<open>Ok\<close>, \<open>Inl (Err e)\<close> is
  \<open>Err(e)\<close> and \<open>Inl Panic\<close> is a panic.
\<close>

datatype 'e fault = Panic | Err 'e

type_synonym ('e, 'a) res = "'e fault + 'a"

definition bind_res :: "('e, 'a) res \<Rightarrow> ('a \<Rightarrow> ('e, 'b) res) \<Rightarrow> ('e, 'b) res" where
  "bind_res m f = (case m of Inl e \<Rightarrow> Inl e | Inr x \<Rightarrow> f x)"

definition map_err :: "('e \<Rightarrow> 'f) \<Rightarrow> ('e, 'a) res \<Rightarrow> ('f, 'a) res" where
  "map_err h m = (case m of Inl Panic \<Rightarrow> Inl Panic | Inl (Err e) \<Rightarrow> Inl (Err (h e)) | Inr x \<Rightarrow> Inr x)"

definition unwrap :: "'a option \<Rightarrow> ('e, 'a) res" where
  "unwrap m = (case m of None \<Rightarrow> Inl Panic | Some x \<Rightarrow> Inr x)"

definition ok_or :: "'e \<Rightarrow> 'a option \<Rightarrow> ('e, 'a) res" where
  "ok_or e m = (case m of None \<Rightarrow> Inl (Err e) | Some x \<Rightarrow> Inr x)"

lemma bind_res_simps [simp]:
  "bind_res (Inl e) f = Inl e"
  "bind_res (Inr x) f = f x"
  by (simp_all add: bind_res_def)

lemma map_err_simps [simp]:
  "map_err h (Inl Panic) = Inl Panic"
  "map_err h (Inl (Err e)) = Inl (Err (h e))"
  "map_err h (Inr x) = Inr x"
  by (simp_all add: map_err_def)

lemma unwrap_simps [simp]:
  "unwrap None = Inl Panic"
  "unwrap (Some x) = Inr x"
  by (simp_all add: unwrap_def)

lemma ok_or_simps [simp]:
  "ok_or e None = Inl (Err e)"
  "ok_or e (Some x) = Inr x"
  by (simp_all add: ok_or_def)

lemma bind_res_eq_Inr [res_simps]:
  "bind_res m f = Inr y \<longleftrightarrow> (\<exists>x. m = Inr x \<and> f x = Inr y)"
  by (cases m) simp_all

lemma bind_res_eq_Inl [res_simps]:
  "bind_res m f = Inl e \<longleftrightarrow> m = Inl e \<or> (\<exists>x. m = Inr x \<and> f x = Inl e)"
  by (cases m) simp_all

lemma map_err_eq_Inr [res_simps]: "map_err h m = Inr y \<longleftrightarrow> m = Inr y"
  by (cases m) (auto simp: map_err_def split: fault.splits)

lemma map_err_eq_Panic [res_simps]: "map_err h m = Inl Panic \<longleftrightarrow> m = Inl Panic"
  by (cases m) (auto simp: map_err_def split: fault.splits)

lemma unwrap_eq_Inr [res_simps]: "unwrap m = Inr y \<longleftrightarrow> m = Some y"
  by (cases m) simp_all

lemma ok_or_eq_Inr [res_simps]: "ok_or e m = Inr y \<longleftrightarrow> m = Some y"
  by (cases m) simp_all

lemma ok_or_not_Panic [simp]: "ok_or e m \<noteq> Inl Panic"
  by (cases m) simp_all

text \<open>\<open>iter().map(f).collect::<Result<Vec<_>, _>>()\<close>: the first error wins.\<close>

fun collect_res :: "('a \<Rightarrow> ('e, 'b) res) \<Rightarrow> 'a list \<Rightarrow> ('e, 'b list) res" where
  "collect_res f [] = Inr []"
| "collect_res f (x # xs) =
     bind_res (f x) (\<lambda>y. bind_res (collect_res f xs) (\<lambda>ys. Inr (y # ys)))"

lemma collect_res_length: "collect_res f xs = Inr ys \<Longrightarrow> length ys = length xs"
  by (induction xs arbitrary: ys) (auto simp: res_simps)

lemma collect_res_nth:
  "collect_res f xs = Inr ys \<Longrightarrow> i < length xs \<Longrightarrow> f (xs ! i) = Inr (ys ! i)"
proof (induction xs arbitrary: ys i)
  case Nil
  then show ?case by simp
next
  case (Cons x xs)
  then show ?case by (cases i) (auto simp: res_simps)
qed

lemma collect_res_ok: "(\<And>x. x \<in> set xs \<Longrightarrow> f x = Inr (g x)) \<Longrightarrow> collect_res f xs = Inr (map g xs)"
  by (induction xs) auto

section \<open>Slices and key streams\<close>

text \<open>\<open>xor_stream ks buf\<close> XORs the byte at position \<open>i\<close> with \<open>ks i\<close>.\<close>

definition xor_stream :: "(nat \<Rightarrow> byte) \<Rightarrow> bytes \<Rightarrow> bytes" where
  "xor_stream ks buf = map (\<lambda>(i, b). b XOR ks i) (enumerate 0 buf)"

lemma length_xor_stream [simp]: "length (xor_stream ks buf) = length buf"
  by (simp add: xor_stream_def)

lemma nth_xor_stream: "i < length buf \<Longrightarrow> xor_stream ks buf ! i = buf ! i XOR ks i"
  by (simp add: xor_stream_def nth_enumerate_eq)

lemma xor_stream_involutive [simp]: "xor_stream ks (xor_stream ks buf) = buf"
  by (rule nth_equalityI) (simp_all add: nth_xor_stream xor.assoc)

lemma xor_stream_commute: "xor_stream a (xor_stream b buf) = xor_stream b (xor_stream a buf)"
  by (rule nth_equalityI) (simp_all add: nth_xor_stream ac_simps)

lemma take_xor_stream: "take n (xor_stream ks buf) = xor_stream ks (take n buf)"
  by (rule nth_equalityI) (simp_all add: nth_xor_stream)

text \<open>Applying several key streams one after the other, and again in any order, cancels.\<close>

lemma fold_xor_stream_commute:
  "fold xor_stream kss (xor_stream ks buf) = xor_stream ks (fold xor_stream kss buf)"
proof (induction kss arbitrary: buf)
  case (Cons k kss)
  have "fold xor_stream kss (xor_stream k (xor_stream ks buf))
      = fold xor_stream kss (xor_stream ks (xor_stream k buf))"
    by (simp only: xor_stream_commute)
  then show ?case by (simp add: Cons.IH)
qed simp

lemma length_fold_xor_stream [simp]: "length (fold xor_stream kss buf) = length buf"
  by (induction kss arbitrary: buf) simp_all

lemma fold_xor_stream_rev_cancel:
  "fold xor_stream (rev kss) (fold xor_stream kss buf) = buf"
  by (induction kss arbitrary: buf) (simp_all add: fold_xor_stream_commute)

section \<open>Integer conversions\<close>

lemma unat_byte_less: "unat (w :: byte) < 256"
  using unsigned_less [of w] by simp

definition le_bytes :: "nat \<Rightarrow> 'a::len word \<Rightarrow> bytes" where
  "le_bytes n w = map (\<lambda>i. ucast (drop_bit (8 * i) w)) [0..<n]"

definition of_le_bytes :: "bytes \<Rightarrow> 'a::len word" where
  "of_le_bytes bs = word_of_int (horner_sum uint (2 ^ 8) bs)"

definition be_bytes :: "nat \<Rightarrow> 'a::len word \<Rightarrow> bytes" where
  "be_bytes n w = rev (le_bytes n w)"

definition of_be_bytes :: "bytes \<Rightarrow> 'a::len word" where
  "of_be_bytes bs = of_le_bytes (rev bs)"

lemma length_le_bytes [simp]: "length (le_bytes n w) = n"
  by (simp add: le_bytes_def)

lemma length_be_bytes [simp]: "length (be_bytes n w) = n"
  by (simp add: be_bytes_def)

lemma bit_of_le_bytes:
  "bit (of_le_bytes bs :: 'a::len word) n \<longleftrightarrow>
     n < LENGTH('a) \<and> n div 8 < length bs \<and> bit (bs ! (n div 8)) (n mod 8)"
  using bit_horner_sum_uint_exp_iff [of bs n] by (simp add: of_le_bytes_def bit_word_of_int_iff)

lemma of_le_bytes_le_bytes:
  fixes w :: "'a::len word"
  assumes "LENGTH('a) \<le> 8 * n"
  shows "of_le_bytes (le_bytes n w) = w"
proof (rule bit_word_eqI)
  fix k
  assume k: "k < LENGTH('a)"
  with assms have "k div 8 < n" by auto
  moreover have "k mod 8 < 8" by simp
  ultimately show "bit (of_le_bytes (le_bytes n w) :: 'a word) k = bit w k"
    using k by (simp add: bit_of_le_bytes le_bytes_def bit_simps)
qed

lemma of_be_bytes_be_bytes:
  fixes w :: "'a::len word"
  assumes "LENGTH('a) \<le> 8 * n"
  shows "of_be_bytes (be_bytes n w) = w"
  by (simp add: of_be_bytes_def be_bytes_def of_le_bytes_le_bytes [OF assms])

lemma be_bytes_inject:
  fixes v w :: "'a::len word"
  assumes "LENGTH('a) \<le> 8 * n" and "be_bytes n v = be_bytes n w"
  shows "v = w"
  by (metis assms of_be_bytes_be_bytes)

lemma be_bytes_zero: "be_bytes n 0 = replicate n 0"
  by (simp add: be_bytes_def le_bytes_def map_replicate_const)

section \<open>Folds that delete keys, and bounded machines\<close>

lemma fold_restrict:
  assumes "\<And>x s. f (h x s) = f s |` (- {x})"
  shows "f (fold h xs s) = f s |` (- set xs)"
proof (induction xs arbitrary: s)
  case Nil show ?case by (simp add: restrict_map_def)
next
  case (Cons x xs)
  have "- set (x # xs) = - {x} \<inter> - set xs" by auto
  then show ?case by (simp add: Cons assms restrict_restrict)
qed

lemma fold_same:
  assumes "\<And>x s. f (h x s) = f s"
  shows "f (fold h xs s) = f s"
  using assms by (induction xs arbitrary: s) simp_all

text \<open>
  A machine whose steps keep an invariant as long as a resource (a counter of machine width, say) is
  below a bound, and use at most one unit of it.
\<close>

locale bounded_machine =
  fixes step :: "'o \<Rightarrow> 's \<Rightarrow> 's" and inv :: "'s \<Rightarrow> bool" and used :: "'s \<Rightarrow> nat" and bound :: nat
  assumes step_inv: "inv s \<Longrightarrow> used s < bound \<Longrightarrow> inv (step a s)"
    and step_used: "inv s \<Longrightarrow> used s < bound \<Longrightarrow> used (step a s) \<le> Suc (used s)"
begin

lemma run_inv:
  assumes "inv s" "used s + length as \<le> bound"
  shows "inv (fold step as s)" and "used (fold step as s) \<le> used s + length as"
proof -
  have "inv (fold step as s) \<and> used (fold step as s) \<le> used s + length as"
    using assms
  proof (induction as arbitrary: s)
    case (Cons a as)
    then have "inv (step a s)" "used (step a s) \<le> Suc (used s)" by (auto intro: step_inv step_used)
    then show ?case using Cons.IH[of "step a s"] Cons.prems by auto
  qed simp
  then show "inv (fold step as s)" and "used (fold step as s) \<le> used s + length as" by auto
qed

end

text \<open>A machine every step of which keeps an invariant.\<close>

locale stable_machine =
  fixes step :: "'o \<Rightarrow> 's \<Rightarrow> 's" and inv :: "'s \<Rightarrow> bool"
  assumes step_inv: "inv s \<Longrightarrow> inv (step a s)"
begin

lemma run_inv: "inv s \<Longrightarrow> inv (fold step as s)"
  by (induction as arbitrary: s) (simp_all add: step_inv)

end

end
