(* ===== verification/Crypt.thy ===== *)
theory Crypt
  imports Earendil_Prelude
begin

text \<open>
  The crate \<open>earendil_crypt\<close> (\<open>libraries/earendil_crypt/src/lib.rs\<close>): identities, their
  signatures, and fingerprints.  The cryptographic primitives of third-party crates are the
  fields of the record \<open>crypto\<close>, an argument of every definition that uses one; what the
  code relies on is stated by the law predicates below, which are hypotheses of the lemmas
  that need them.  \<open>demo_crypto\<close> is an instance that satisfies every law.
\<close>

section \<open>Primitives of third-party crates\<close>

record crypto =
  blake3_hash :: "bytes \<Rightarrow> bytes"
  blake3_keyed_hash :: "bytes \<Rightarrow> bytes \<Rightarrow> bytes"
  argon2_hash :: "bytes \<Rightarrow> bytes \<Rightarrow> bytes option"
  ed25519_vk :: "bytes \<Rightarrow> bytes"
  ed25519_vk_valid :: "bytes \<Rightarrow> bool"
  ed25519_sign :: "bytes \<Rightarrow> bytes \<Rightarrow> bytes"
  ed25519_verify :: "bytes \<Rightarrow> bytes \<Rightarrow> bytes \<Rightarrow> bool"
  x25519_public :: "bytes \<Rightarrow> bytes"
  x25519_dh :: "bytes \<Rightarrow> bytes \<Rightarrow> bytes"
  chacha20_keystream :: "bytes \<Rightarrow> bytes \<Rightarrow> nat \<Rightarrow> byte"
  aead_encrypt :: "bytes \<Rightarrow> bytes \<Rightarrow> bytes \<Rightarrow> bytes option"
  aead_decrypt :: "bytes \<Rightarrow> bytes \<Rightarrow> bytes \<Rightarrow> bytes option"
  base32_encode :: "bytes \<Rightarrow> string"
  base32_decode :: "string \<Rightarrow> bytes option"
  base64_decode :: "string \<Rightarrow> bytes option"

definition bytes_of_string :: "string \<Rightarrow> bytes" where
  "bytes_of_string s = map of_char s"

section \<open>Identities and fingerprints\<close>

datatype identity_public = IdentityPublic (ipk_bytes: bytes)
datatype identity_secret = IdentitySecret (isk_bytes: bytes)
datatype fingerprint = Fingerprint (fp_bytes: bytes)

text \<open>Fingerprints carry the derived lexicographic order of their byte arrays.\<close>

instantiation fingerprint :: linorder
begin

definition less_eq_fingerprint :: "fingerprint \<Rightarrow> fingerprint \<Rightarrow> bool" where
  "less_eq_fingerprint a b \<longleftrightarrow> fp_bytes a \<le> fp_bytes b"

definition less_fingerprint :: "fingerprint \<Rightarrow> fingerprint \<Rightarrow> bool" where
  "less_fingerprint a b \<longleftrightarrow> fp_bytes a < fp_bytes b"

instance
  by standard (auto simp: less_eq_fingerprint_def less_fingerprint_def fingerprint.expand)

end

lemma Fingerprint_less [simp]: "Fingerprint a < Fingerprint b \<longleftrightarrow> a < b"
  by (simp add: less_fingerprint_def)

datatype verify_error = SignatureCorrupt | SignatureMismatch

definition kdf_from_human :: "'z crypto_scheme \<Rightarrow> string \<Rightarrow> string \<Rightarrow> (unit, bytes) res" where
  "kdf_from_human C human salt =
     unwrap (argon2_hash C (bytes_of_string human) (bytes_of_string salt))"

definition identity_public_try_from :: "bytes \<Rightarrow> bytes + identity_public" where
  "identity_public_try_from value =
     (if length value = 32 then Inr (IdentityPublic value) else Inl value)"

definition verify :: "'z crypto_scheme \<Rightarrow> identity_public \<Rightarrow> bytes \<Rightarrow> bytes \<Rightarrow> verify_error + unit" where
  "verify C pk msg sig =
     (if \<not> ed25519_vk_valid C (ipk_bytes pk) then Inl SignatureCorrupt
      else if length sig \<noteq> 64 then Inl SignatureCorrupt
      else if ed25519_verify C (ipk_bytes pk) sig msg then Inr ()
      else Inl SignatureMismatch)"

definition fingerprint_of :: "'z crypto_scheme \<Rightarrow> identity_public \<Rightarrow> fingerprint" where
  "fingerprint_of C pk =
     Fingerprint (take 20 (blake3_keyed_hash C (bytes_of_string ''fingerprint_____________________'')
                             (ipk_bytes pk)))"

definition identity_from_bytes :: "bytes \<Rightarrow> identity_secret" where
  "identity_from_bytes b = IdentitySecret b"

definition identity_from_seed :: "'z crypto_scheme \<Rightarrow> string \<Rightarrow> (unit, identity_secret) res" where
  "identity_from_seed C id_seed =
     bind_res (kdf_from_human C id_seed ''identity_kdf_salt'') (\<lambda>b. Inr (identity_from_bytes b))"

datatype decode_key_error = BadBase64 | InvalidLength

definition identity_secret_from_str ::
    "'z crypto_scheme \<Rightarrow> string \<Rightarrow> decode_key_error + identity_secret" where
  "identity_secret_from_str C s =
     (case base64_decode C s of
        None \<Rightarrow> Inl BadBase64
      | Some decoded \<Rightarrow>
          if length decoded = 32 then Inr (IdentitySecret decoded) else Inl InvalidLength)"

definition identity_public_of :: "'z crypto_scheme \<Rightarrow> identity_secret \<Rightarrow> identity_public" where
  "identity_public_of C isk = IdentityPublic (ed25519_vk C (isk_bytes isk))"

definition sign :: "'z crypto_scheme \<Rightarrow> identity_secret \<Rightarrow> bytes \<Rightarrow> bytes" where
  "sign C isk msg = ed25519_sign C (isk_bytes isk) msg"

text \<open>\<open>str::to_lowercase\<close> on the ASCII output of the base32 encoder.\<close>

definition ascii_lower :: "char \<Rightarrow> char" where
  "ascii_lower c =
     (let v = of_char c :: nat in if 65 \<le> v \<and> v \<le> 90 then char_of (v + 32) else c)"

definition fingerprint_to_string :: "'z crypto_scheme \<Rightarrow> fingerprint \<Rightarrow> string" where
  "fingerprint_to_string C fp = map ascii_lower (base32_encode C (fp_bytes fp))"

datatype fp_parse_error = BadBase32 | InvalidFingerprintLength

definition fingerprint_from_str :: "'z crypto_scheme \<Rightarrow> string \<Rightarrow> fp_parse_error + fingerprint" where
  "fingerprint_from_str C s =
     (case base32_decode C s of
        None \<Rightarrow> Inl BadBase32
      | Some bts \<Rightarrow> if length bts = 20 then Inr (Fingerprint bts) else Inl InvalidFingerprintLength)"

text \<open>The fingerprint of an identity secret, a composition the daemon uses everywhere.\<close>

abbreviation my_fingerprint :: "'z crypto_scheme \<Rightarrow> identity_secret \<Rightarrow> fingerprint" where
  "my_fingerprint C isk \<equiv> fingerprint_of C (identity_public_of C isk)"

section \<open>Laws of the primitives\<close>

definition blake3_laws :: "'z crypto_scheme \<Rightarrow> bool" where
  "blake3_laws C \<longleftrightarrow>
     (\<forall>m. length (blake3_hash C m) = 32) \<and> (\<forall>k m. length (blake3_keyed_hash C k m) = 32)"

definition ed25519_laws :: "'z crypto_scheme \<Rightarrow> bool" where
  "ed25519_laws C \<longleftrightarrow>
     (\<forall>sk. ed25519_vk_valid C (ed25519_vk C sk)) \<and>
     (\<forall>sk m. length (ed25519_sign C sk m) = 64) \<and>
     (\<forall>sk m. ed25519_verify C (ed25519_vk C sk) (ed25519_sign C sk m) m)"

definition x25519_laws :: "'z crypto_scheme \<Rightarrow> bool" where
  "x25519_laws C \<longleftrightarrow>
     (\<forall>a. length (x25519_public C a) = 32) \<and>
     (\<forall>a b. x25519_dh C a (x25519_public C b) = x25519_dh C b (x25519_public C a))"

text \<open>
  ChaCha20-Poly1305: the ciphertext is the plaintext and a 16-byte tag; encryption fails only
  on plaintexts beyond the cipher's limit, far above 65536 bytes.
\<close>

definition aead_laws :: "'z crypto_scheme \<Rightarrow> bool" where
  "aead_laws C \<longleftrightarrow>
     (\<forall>k n m. length m \<le> 65536 \<longrightarrow>
        (\<exists>c. aead_encrypt C k n m = Some c \<and> length c = length m + 16 \<and> aead_decrypt C k n c = Some m)) \<and>
     (\<forall>k n c m. aead_decrypt C k n c = Some m \<longrightarrow> length c = length m + 16)"

definition crockford :: string where
  "crockford = ''0123456789ABCDEFGHJKMNPQRSTVWXYZ''"

definition base32_laws :: "'z crypto_scheme \<Rightarrow> bool" where
  "base32_laws C \<longleftrightarrow>
     (\<forall>b. base32_decode C (base32_encode C b) = Some b) \<and>
     (\<forall>s. base32_decode C (map ascii_lower s) = base32_decode C s) \<and>
     (\<forall>b. set (base32_encode C b) \<subseteq> set crockford)"

section \<open>Lemmas\<close>

lemma length_fingerprint_of [simp]:
  "blake3_laws C \<Longrightarrow> length (fp_bytes (fingerprint_of C pk)) = 20"
  by (simp add: fingerprint_of_def blake3_laws_def)

lemma verify_sign [simp]:
  "ed25519_laws C \<Longrightarrow> verify C (identity_public_of C isk) msg (sign C isk msg) = Inr ()"
  by (simp add: verify_def identity_public_of_def sign_def ed25519_laws_def)

lemma length_sign [simp]: "ed25519_laws C \<Longrightarrow> length (sign C isk msg) = 64"
  by (simp add: sign_def ed25519_laws_def)

lemma verify_Inr_iff:
  "verify C pk msg sig = Inr () \<longleftrightarrow>
     ed25519_vk_valid C (ipk_bytes pk) \<and> length sig = 64 \<and> ed25519_verify C (ipk_bytes pk) sig msg"
  by (simp add: verify_def)

lemma fingerprint_string_roundtrip:
  assumes "base32_laws C" and "length (fp_bytes fp) = 20"
  shows "fingerprint_from_str C (fingerprint_to_string C fp) = Inr fp"
  using assms by (simp add: fingerprint_from_str_def fingerprint_to_string_def base32_laws_def)

lemma no_colon_lower_crockford: "set (map ascii_lower (crockford)) \<inter> {CHR '':''} = {}"
  by code_simp

lemma fingerprint_string_no_colon:
  assumes "base32_laws C"
  shows "CHR '':'' \<notin> set (fingerprint_to_string C fp)"
proof
  assume "CHR '':'' \<in> set (fingerprint_to_string C fp)"
  then obtain c where "c \<in> set (base32_encode C (fp_bytes fp))" and "ascii_lower c = CHR '':''"
    by (auto simp: fingerprint_to_string_def)
  with assms have "CHR '':'' \<in> set (map ascii_lower crockford)"
    by (auto simp: base32_laws_def) (metis imageI subsetD)
  with no_colon_lower_crockford show False by blast
qed

section \<open>An instance of the primitives\<close>

text \<open>
  \<open>demo_crypto\<close> is not secure; it shows that the laws are consistent and lets the
  hypotheses of the theorems be discharged at concrete inputs.
\<close>

definition pad_to :: "nat \<Rightarrow> bytes \<Rightarrow> bytes" where
  "pad_to n b = take n (b @ replicate n 0)"

lemma length_pad_to [simp]: "length (pad_to n b) = n"
  by (simp add: pad_to_def)

definition demo_alphabet :: string where
  "demo_alphabet = ''0123456789ABCDEF''"

definition demo_nibble :: "nat \<Rightarrow> char" where
  "demo_nibble n = demo_alphabet ! n"

definition demo_unnibble :: "char \<Rightarrow> nat" where
  "demo_unnibble c = length (takeWhile ((\<noteq>) (ascii_lower c)) (map ascii_lower demo_alphabet))"

fun demo_pairs :: "string \<Rightarrow> bytes option" where
  "demo_pairs [] = Some []"
| "demo_pairs [c] = None"
| "demo_pairs (c # d # cs) =
     map_option (\<lambda>bs. of_nat (16 * demo_unnibble c + demo_unnibble d) # bs) (demo_pairs cs)"

definition demo_crypto :: crypto where
  "demo_crypto = \<lparr>
     blake3_hash = pad_to 32,
     blake3_keyed_hash = (\<lambda>k m. pad_to 32 m),
     argon2_hash = (\<lambda>p s. Some (pad_to 32 p)),
     ed25519_vk = pad_to 32,
     ed25519_vk_valid = (\<lambda>vk. True),
     ed25519_sign = (\<lambda>sk m. pad_to 64 (pad_to 32 sk @ m)),
     ed25519_verify = (\<lambda>vk sig m. sig = pad_to 64 (vk @ m)),
     x25519_public = pad_to 32,
     x25519_dh = (\<lambda>a b. xor_stream (\<lambda>i. pad_to 32 a ! i) (pad_to 32 b)),
     chacha20_keystream = (\<lambda>k n i. pad_to 32 k ! (i mod 32)),
     aead_encrypt = (\<lambda>k n m. Some (m @ replicate 16 0)),
     aead_decrypt = (\<lambda>k n c. if 16 \<le> length c then Some (take (length c - 16) c) else None),
     base32_encode = (\<lambda>b. concat (map (\<lambda>w. [demo_nibble (unat w div 16), demo_nibble (unat w mod 16)]) b)),
     base32_decode = demo_pairs,
     base64_decode = (\<lambda>s. Some (bytes_of_string s))\<rparr>"

lemma demo_blake3_laws: "blake3_laws demo_crypto"
  by (simp add: blake3_laws_def demo_crypto_def)

lemma demo_ed25519_laws: "ed25519_laws demo_crypto"
  by (simp add: ed25519_laws_def demo_crypto_def)

lemma pad_to_idem [simp]: "pad_to n (pad_to n b) = pad_to n b"
  by (simp add: pad_to_def)

lemma demo_x25519_laws: "x25519_laws demo_crypto"
proof -
  have "xor_stream (\<lambda>i. pad_to 32 a ! i) (pad_to 32 b) = xor_stream (\<lambda>i. pad_to 32 b ! i) (pad_to 32 a)"
    for a b
    by (rule nth_equalityI) (simp_all add: nth_xor_stream ac_simps)
  then show ?thesis by (simp add: x25519_laws_def demo_crypto_def)
qed

lemma demo_aead_laws: "aead_laws demo_crypto"
  by (auto simp: aead_laws_def demo_crypto_def split: if_splits)

lemma ascii_lower_idem [simp]: "ascii_lower (ascii_lower c) = ascii_lower c"
  by (auto simp: ascii_lower_def Let_def)

lemma demo_pairs_lower: "demo_pairs (map ascii_lower s) = demo_pairs s"
  by (induction s rule: demo_pairs.induct) (auto simp: demo_unnibble_def)

lemma length_takeWhile_nth:
  "distinct xs \<Longrightarrow> i < length xs \<Longrightarrow> length (takeWhile ((\<noteq>) (xs ! i)) xs) = i"
  by (subst takeWhile_eq_take_P_nth [of i]) (auto simp: nth_eq_iff_index_eq)

lemma demo_alphabet_lower: "map ascii_lower demo_alphabet = ''0123456789abcdef''"
  by code_simp

lemma demo_nibbles:
  assumes "n < 16"
  shows "demo_unnibble (demo_nibble n) = n" and "demo_nibble n \<in> set crockford"
proof -
  have n: "n < length demo_alphabet" using assms by (simp add: demo_alphabet_def)
  have "ascii_lower (demo_nibble n) = map ascii_lower demo_alphabet ! n"
    using n by (simp add: demo_nibble_def)
  moreover have "distinct (map ascii_lower demo_alphabet)" by (simp add: demo_alphabet_lower)
  ultimately show "demo_unnibble (demo_nibble n) = n"
    using n length_takeWhile_nth [of "map ascii_lower demo_alphabet" n]
    by (simp add: demo_unnibble_def del: map_map)
  have "demo_nibble n \<in> set demo_alphabet" using n by (simp add: demo_nibble_def)
  then show "demo_nibble n \<in> set crockford" by (auto simp: demo_alphabet_def crockford_def)
qed

lemma demo_pairs_encode:
  "demo_pairs (concat (map (\<lambda>w. [demo_nibble (unat w div 16), demo_nibble (unat w mod 16)]) b)) = Some b"
proof (induction b)
  case (Cons w b)
  have "unat w < 256" by (rule unat_byte_less)
  then have "demo_unnibble (demo_nibble (unat w div 16)) = unat w div 16"
    and "demo_unnibble (demo_nibble (unat w mod 16)) = unat w mod 16"
    using demo_nibbles by auto
  with Cons show ?case by simp
qed simp

lemma demo_base32_laws: "base32_laws demo_crypto"
proof -
  have "unat w div 16 < 16" for w :: byte using unat_byte_less [of w] by simp
  then have "demo_nibble (unat w div 16) \<in> set crockford" "demo_nibble (unat w mod 16) \<in> set crockford"
    for w :: byte
    using demo_nibbles by auto
  then show ?thesis
    by (auto simp: base32_laws_def demo_crypto_def demo_pairs_lower demo_pairs_encode)
qed

lemmas demo_laws = demo_blake3_laws demo_ed25519_laws demo_x25519_laws demo_aead_laws demo_base32_laws

end
