(* ===== verification/Onion_Crypt.thy ===== *)
theory Onion_Crypt
  imports Crypt
begin

text \<open>
  \<open>libraries/earendil_packet/src/crypt.rs\<close>: the x25519 onion keys, the AEAD key, the
  anonymous box and the in-place stream cipher.  A freshly generated secret is an argument of
  the model of the function that generates it.  The locale \<open>anonymous_box\<close> is the contract the
  packet layer relies on; it is interpreted on the definitions below.
\<close>

section \<open>Keys\<close>

datatype onion_public = OnionPublic (opk_bytes: bytes)
datatype onion_secret = OnionSecret (osk_bytes: bytes)
datatype aead_key = AeadKey (aead_key_bytes: bytes)
datatype aead_error = Aead_DecryptionFailed

definition onion_public_from_str ::
    "'z crypto_scheme \<Rightarrow> string \<Rightarrow> decode_key_error + onion_public" where
  "onion_public_from_str C s =
     (case base64_decode C s of
        None \<Rightarrow> Inl BadBase64
      | Some decoded \<Rightarrow>
          if length decoded = 32 then Inr (OnionPublic decoded) else Inl InvalidLength)"

definition onion_public_of :: "'z crypto_scheme \<Rightarrow> onion_secret \<Rightarrow> onion_public" where
  "onion_public_of C osk = OnionPublic (x25519_public C (osk_bytes osk))"

definition shared_secret :: "'z crypto_scheme \<Rightarrow> onion_secret \<Rightarrow> onion_public \<Rightarrow> bytes" where
  "shared_secret C osk theirs = x25519_dh C (osk_bytes osk) (opk_bytes theirs)"

section \<open>AEAD, box and stream cipher\<close>

definition seal :: "'z crypto_scheme \<Rightarrow> aead_key \<Rightarrow> bytes \<Rightarrow> bytes \<Rightarrow> ('e, bytes) res" where
  "seal C key nonce plain = unwrap (aead_encrypt C (aead_key_bytes key) nonce plain)"

definition open_aead :: "'z crypto_scheme \<Rightarrow> aead_key \<Rightarrow> bytes \<Rightarrow> bytes \<Rightarrow> (aead_error, bytes) res" where
  "open_aead C key nonce ctext =
     ok_or Aead_DecryptionFailed (aead_decrypt C (aead_key_bytes key) nonce ctext)"

definition zero_nonce :: bytes where
  "zero_nonce = replicate 12 0"

definition box_encrypt ::
    "'z crypto_scheme \<Rightarrow> onion_secret \<Rightarrow> bytes \<Rightarrow> onion_public \<Rightarrow> ('e, bytes \<times> onion_secret) res" where
  "box_encrypt C sender_sk message recipient_pk =
     (let sender_pk = onion_public_of C sender_sk;
          secret = shared_secret C sender_sk recipient_pk;
          key = AeadKey (blake3_hash C secret)
      in bind_res (seal C key zero_nonce message) (\<lambda>encrypted_message.
           Inr (opk_bytes sender_pk @ encrypted_message, sender_sk)))"

definition box_decrypt ::
    "'z crypto_scheme \<Rightarrow> bytes \<Rightarrow> onion_secret \<Rightarrow> (aead_error, bytes \<times> onion_public) res" where
  "box_decrypt C encrypted_message recipient_sk =
     (if length encrypted_message < 32 then Inl (Err Aead_DecryptionFailed)
      else
        let sender_public_key = OnionPublic (take 32 encrypted_message);
            secret = shared_secret C recipient_sk sender_public_key;
            key = AeadKey (blake3_hash C secret)
        in bind_res (open_aead C key zero_nonce (drop 32 encrypted_message)) (\<lambda>plain.
             Inr (plain, sender_public_key)))"

definition stream_dencrypt :: "'z crypto_scheme \<Rightarrow> bytes \<Rightarrow> bytes \<Rightarrow> bytes \<Rightarrow> bytes" where
  "stream_dencrypt C key nonce buf = xor_stream (chacha20_keystream C key nonce) buf"

section \<open>Lemmas\<close>

lemma length_onion_public_of [simp]: "x25519_laws C \<Longrightarrow> length (opk_bytes (onion_public_of C osk)) = 32"
  by (simp add: onion_public_of_def x25519_laws_def)

lemma shared_secret_agrees:
  "x25519_laws C \<Longrightarrow>
     shared_secret C a (onion_public_of C b) = shared_secret C b (onion_public_of C a)"
  by (simp add: shared_secret_def onion_public_of_def x25519_laws_def)

lemma aead_open_seal:
  assumes "aead_laws C" and "length plain \<le> 65536"
  shows "\<exists>c. aead_encrypt C (aead_key_bytes key) nonce plain = Some c \<and> length c = length plain + 16
            \<and> open_aead C key nonce c = Inr plain"
proof -
  from assms obtain c where "aead_encrypt C (aead_key_bytes key) nonce plain = Some c"
    and "length c = length plain + 16" and "aead_decrypt C (aead_key_bytes key) nonce c = Some plain"
    unfolding aead_laws_def by blast
  then show ?thesis by (intro exI [of _ c]) (simp add: open_aead_def)
qed

text \<open>The box round trip: what is sealed for a public key opens under its secret key.\<close>

lemma box_roundtrip:
  assumes "x25519_laws C" and "aead_laws C" and "length message \<le> 65536"
  shows "\<exists>ct. box_encrypt C sk message (onion_public_of C rsk) = Inr (ct, sk)
           \<and> length ct = length message + 48
           \<and> box_decrypt C ct rsk = Inr (message, onion_public_of C sk)"
proof -
  let ?key = "AeadKey (blake3_hash C (shared_secret C sk (onion_public_of C rsk)))"
  let ?pk = "onion_public_of C sk"
  obtain c where c: "aead_encrypt C (aead_key_bytes ?key) zero_nonce message = Some c"
    and len: "length c = length message + 16"
    and op: "open_aead C ?key zero_nonce c = Inr message"
    using aead_open_seal [OF assms(2,3)] by blast
  have pk: "length (opk_bytes ?pk) = 32" using assms(1) by simp
  have "box_decrypt C (opk_bytes ?pk @ c) rsk = Inr (message, ?pk)"
    using pk op shared_secret_agrees [OF assms(1), of rsk sk]
    by (simp add: box_decrypt_def Let_def)
  moreover have "box_encrypt C sk message (onion_public_of C rsk) = Inr (opk_bytes ?pk @ c, sk)"
    using c by (simp add: box_encrypt_def Let_def seal_def)
  ultimately show ?thesis using pk len by auto
qed

lemma box_decrypt_length:
  assumes "aead_laws C" and "box_decrypt C ct rsk = Inr (plain, pk)"
  shows "length ct = length plain + 48"
proof -
  from assms(2) have "32 \<le> length ct"
    and "\<exists>k. aead_decrypt C k zero_nonce (drop 32 ct) = Some plain"
    by (auto simp: box_decrypt_def Let_def open_aead_def res_simps split: if_splits)
  moreover from this(2) have "length (drop 32 ct) = length plain + 16"
    using assms(1) unfolding aead_laws_def by blast
  ultimately show ?thesis by simp
qed

lemma box_decrypt_no_panic: "box_decrypt C ct rsk \<noteq> Inl Panic"
  by (auto simp: box_decrypt_def Let_def open_aead_def res_simps)

text \<open>A box only depends on its own bytes, and on the first 32 of them for the sender key.\<close>

lemma box_decrypt_sender: "box_decrypt C ct rsk = Inr (plain, pk) \<Longrightarrow> opk_bytes pk = take 32 ct"
  by (auto simp: box_decrypt_def Let_def res_simps split: if_splits)

lemma length_stream_dencrypt [simp]: "length (stream_dencrypt C key nonce buf) = length buf"
  by (simp add: stream_dencrypt_def)

lemma stream_dencrypt_involutive [simp]:
  "stream_dencrypt C key nonce (stream_dencrypt C key nonce buf) = buf"
  by (simp add: stream_dencrypt_def)

lemma take_stream_dencrypt:
  "take n (stream_dencrypt C key nonce buf) = stream_dencrypt C key nonce (take n buf)"
  by (simp add: stream_dencrypt_def take_xor_stream)

section \<open>The box contract\<close>

text \<open>
  What the packet layer relies on: under the laws of the environment a sealed message has the
  fixed overhead, opens under the matching secret, names the sender's ephemeral key, and both
  ends derive the same secret from the exchange.
\<close>

locale anonymous_box =
  fixes good :: "'c \<Rightarrow> bool"
    and public :: "'c \<Rightarrow> 'sk \<Rightarrow> 'pk"
    and agree :: "'c \<Rightarrow> 'sk \<Rightarrow> 'pk \<Rightarrow> bytes"
    and enc :: "'c \<Rightarrow> 'sk \<Rightarrow> bytes \<Rightarrow> 'pk \<Rightarrow> ('e, bytes \<times> 'sk) res"
    and dec :: "'c \<Rightarrow> bytes \<Rightarrow> 'sk \<Rightarrow> ('d, bytes \<times> 'pk) res"
    and overhead :: nat and limit :: nat
  assumes roundtrip: "good c \<Longrightarrow> length m \<le> limit \<Longrightarrow>
      \<exists>ct. enc c sk m (public c rsk) = Inr (ct, sk) \<and> length ct = length m + overhead
         \<and> dec c ct rsk = Inr (m, public c sk)"
    and agreement: "good c \<Longrightarrow> agree c a (public c b) = agree c b (public c a)"
begin

text \<open>Sealing succeeds, and the recipient recovers message and session secret.\<close>

lemma recipient_view:
  assumes "good c" and "length m \<le> limit" and "enc c sk m (public c rsk) = Inr (ct, sk')"
  shows "sk' = sk" and "length ct = length m + overhead"
    and "\<exists>pk. dec c ct rsk = Inr (m, pk) \<and> agree c rsk pk = agree c sk (public c rsk)"
  using roundtrip [OF assms(1,2), of sk rsk] agreement [OF assms(1), of rsk sk] assms(3) by auto

lemma sealed_total: "good c \<Longrightarrow> length m \<le> limit \<Longrightarrow> \<exists>ct. enc c sk m (public c rsk) = Inr (ct, sk)"
  using roundtrip by blast

end

definition box_laws :: "'z crypto_scheme \<Rightarrow> bool" where
  "box_laws C \<longleftrightarrow> x25519_laws C \<and> aead_laws C"

interpretation onion_box: anonymous_box box_laws onion_public_of shared_secret box_encrypt box_decrypt 48 65536
  by unfold_locales (simp_all add: box_laws_def shared_secret_agrees box_roundtrip)

end
