(* ===== verification/Inner_Packet.thy ===== *)
theory Inner_Packet
  imports Onion_Crypt
begin

text \<open>
  \<open>libraries/earendil_packet/src/inner.rs\<close>, with the data types of \<open>raw.rs\<close> and
  \<open>reply_block.rs\<close> that an inner packet contains.  The bincode coder is the pair of functions
  \<open>bincode_serialize\<close> and \<open>bincode_deserialize\<close> of the environment \<open>packet_env\<close>; the code
  always uses it with trailing bytes allowed.
\<close>

section \<open>Data\<close>

record raw_header =
  outer :: bytes
  inner :: bytes

record reply_block =
  rb_header :: raw_header
  e2e_dest :: onion_public

record message =
  source_dock :: u32
  dest_dock :: u32
  body :: "bytes list"

datatype inner_packet = Message message | ReplyBlocks "reply_block list"

datatype decode_error = Decode_BadPackaging | Decode_DecryptionFailed
datatype encode_error = Encode_BadPackaging | Encode_MessageTooBig

definition message_new :: "u32 \<Rightarrow> u32 \<Rightarrow> bytes list \<Rightarrow> message" where
  "message_new src dst bs = \<lparr>source_dock = src, dest_dock = dst, body = bs\<rparr>"

record packet_env = crypto +
  bincode_serialize :: "inner_packet \<Rightarrow> bytes"
  bincode_deserialize :: "bytes \<Rightarrow> inner_packet option"

text \<open>The array lengths that the Rust types fix.\<close>

definition wf_header :: "raw_header \<Rightarrow> bool" where
  "wf_header h \<longleftrightarrow> length (outer h) = 69 \<and> length (inner h) = 621"

definition wf_reply_block :: "reply_block \<Rightarrow> bool" where
  "wf_reply_block rb \<longleftrightarrow> wf_header (rb_header rb) \<and> length (opk_bytes (e2e_dest rb)) = 32"

definition wf_inner :: "inner_packet \<Rightarrow> bool" where
  "wf_inner p = (case p of Message m \<Rightarrow> True | ReplyBlocks rbs \<Rightarrow> list_all wf_reply_block rbs)"

section \<open>Coding into the 8192-byte payload\<close>

definition inner_decode ::
    "'z packet_env_scheme \<Rightarrow> bytes \<Rightarrow> (decode_error, inner_packet \<times> fingerprint) res" where
  "inner_decode E raw =
     (let src_fp = Fingerprint (take 20 raw)
      in bind_res (ok_or Decode_BadPackaging (bincode_deserialize E (drop 20 raw))) (\<lambda>msg.
           Inr (msg, src_fp)))"

definition inner_encode ::
    "'z packet_env_scheme \<Rightarrow> inner_packet \<Rightarrow> identity_secret \<Rightarrow> (encode_error, bytes) res" where
  "inner_encode E p my_isk =
     (let ser = bincode_serialize E p
      in if length ser \<le> 8192 - 20
         then Inr (fp_bytes (my_fingerprint E my_isk) @ ser @ replicate (8192 - 20 - length ser) 0)
         else Inl (Err Encode_BadPackaging))"

section \<open>Laws and lemmas\<close>

text \<open>With trailing bytes allowed, bincode reads back what it wrote and ignores what follows.\<close>

definition bincode_laws :: "'z packet_env_scheme \<Rightarrow> bool" where
  "bincode_laws E \<longleftrightarrow>
     (\<forall>p rest. wf_inner p \<longrightarrow> bincode_deserialize E (bincode_serialize E p @ rest) = Some p)"

definition packet_laws :: "'z packet_env_scheme \<Rightarrow> bool" where
  "packet_laws E \<longleftrightarrow> blake3_laws E \<and> x25519_laws E \<and> aead_laws E \<and> bincode_laws E"

lemma packet_lawsD [simp]:
  "packet_laws E \<Longrightarrow> blake3_laws E" "packet_laws E \<Longrightarrow> x25519_laws E"
  "packet_laws E \<Longrightarrow> aead_laws E" "packet_laws E \<Longrightarrow> bincode_laws E"
  "packet_laws E \<Longrightarrow> box_laws E"
  by (simp_all add: packet_laws_def box_laws_def)

lemma inner_encode_length:
  assumes "blake3_laws E" and "inner_encode E p isk = Inr raw"
  shows "length raw = 8192"
  using assms by (auto simp: inner_encode_def Let_def split: if_splits)

lemma inner_encode_ok_iff:
  "(\<exists>raw. inner_encode E p isk = Inr raw) \<longleftrightarrow> length (bincode_serialize E p) \<le> 8172"
  by (simp add: inner_encode_def Let_def)

lemma inner_encode_no_panic [simp]: "inner_encode E p isk \<noteq> Inl Panic"
  by (simp add: inner_encode_def Let_def)

lemma inner_decode_no_panic [simp]: "inner_decode E raw \<noteq> Inl Panic"
  by (auto simp: inner_decode_def res_simps)

lemma inner_decode_encode:
  assumes "blake3_laws E" and "bincode_laws E" and "wf_inner p" and "inner_encode E p isk = Inr raw"
  shows "inner_decode E raw = Inr (p, my_fingerprint E isk)"
  using assms
  by (auto simp: inner_encode_def inner_decode_def Let_def bincode_laws_def
        intro: fingerprint.expand split: if_splits)

text \<open>
  The source fingerprint of a decoded packet is just its first 20 bytes: whoever builds the
  payload chooses it, no signature is involved.
\<close>

lemma inner_decode_source_unauthenticated:
  assumes "length fp = 20" and "length claimed = 20"
    and "inner_decode E (fp @ rest) = Inr (p, src)"
  shows "inner_decode E (claimed @ rest) = Inr (p, Fingerprint claimed)"
  using assms by (auto simp: inner_decode_def res_simps)

section \<open>An instance of the coder\<close>

text \<open>
  A self-delimiting code for inner packets: numbers in unary, byte strings and lists with
  their length in front.  It satisfies \<open>bincode_laws\<close> and completes \<open>demo_crypto\<close>.
\<close>

definition put_nat :: "nat \<Rightarrow> bytes" where
  "put_nat n = replicate n 1 @ [0]"

definition get_nat :: "bytes \<Rightarrow> nat \<times> bytes" where
  "get_nat bs = (length (takeWhile ((=) 1) bs), tl (dropWhile ((=) 1) bs))"

definition put_bytes :: "bytes \<Rightarrow> bytes" where
  "put_bytes b = put_nat (length b) @ b"

definition get_bytes :: "bytes \<Rightarrow> bytes \<times> bytes" where
  "get_bytes bs = (let (n, r) = get_nat bs in (take n r, drop n r))"

fun get_many :: "(bytes \<Rightarrow> 'a \<times> bytes) \<Rightarrow> nat \<Rightarrow> bytes \<Rightarrow> 'a list \<times> bytes" where
  "get_many g 0 bs = ([], bs)"
| "get_many g (Suc n) bs = (let (x, r) = g bs; (xs, r') = get_many g n r in (x # xs, r'))"

lemma get_put_nat [simp]: "get_nat (put_nat n @ r) = (n, r)"
  by (simp add: get_nat_def put_nat_def takeWhile_append dropWhile_append)

lemma get_put_bytes [simp]: "get_bytes (put_bytes b @ r) = (b, r)"
  by (simp add: get_bytes_def put_bytes_def)

lemma get_many_concat:
  "(\<And>x r. x \<in> set xs \<Longrightarrow> g (p x @ r) = (x, r)) \<Longrightarrow>
     get_many g (length xs) (concat (map p xs) @ r) = (xs, r)"
  by (induction xs) simp_all

definition put_message :: "message \<Rightarrow> bytes" where
  "put_message m = le_bytes 4 (source_dock m) @ le_bytes 4 (dest_dock m) @
     put_nat (length (body m)) @ concat (map put_bytes (body m))"

definition get_message :: "bytes \<Rightarrow> message" where
  "get_message bs = (let (n, r) = get_nat (drop 8 bs)
     in message_new (of_le_bytes (take 4 bs)) (of_le_bytes (take 4 (drop 4 bs)))
          (fst (get_many get_bytes n r)))"

definition put_rb :: "reply_block \<Rightarrow> bytes" where
  "put_rb rb = outer (rb_header rb) @ inner (rb_header rb) @ opk_bytes (e2e_dest rb)"

definition get_rb :: "bytes \<Rightarrow> reply_block \<times> bytes" where
  "get_rb bs =
     (\<lparr>rb_header = \<lparr>outer = take 69 bs, inner = take 621 (drop 69 bs)\<rparr>,
       e2e_dest = OnionPublic (take 32 (drop 690 bs))\<rparr>, drop 722 bs)"

definition demo_serialize :: "inner_packet \<Rightarrow> bytes" where
  "demo_serialize p = (case p of Message m \<Rightarrow> 0 # put_message m
     | ReplyBlocks rbs \<Rightarrow> 1 # put_nat (length rbs) @ concat (map put_rb rbs))"

definition demo_deserialize :: "bytes \<Rightarrow> inner_packet option" where
  "demo_deserialize bs = (case bs of [] \<Rightarrow> None
     | t # r \<Rightarrow>
         if t = 0 then Some (Message (get_message r))
         else if t = 1 then (let (n, r') = get_nat r in Some (ReplyBlocks (fst (get_many get_rb n r'))))
         else None)"

lemma get_put_message: "get_message (put_message m @ rest) = m"
proof -
  have "get_many get_bytes (length (body m)) (concat (map put_bytes (body m)) @ rest) = (body m, rest)"
    by (rule get_many_concat) simp
  then show ?thesis
    by (simp add: get_message_def put_message_def message_new_def of_le_bytes_le_bytes)
qed

lemma get_put_rb: "wf_reply_block rb \<Longrightarrow> get_rb (put_rb rb @ r) = (rb, r)"
  by (cases rb, cases "rb_header rb") (simp add: get_rb_def put_rb_def wf_reply_block_def wf_header_def
      onion_public.expand)

definition demo_env :: packet_env where
  "demo_env = crypto.extend demo_crypto
     \<lparr>bincode_serialize = demo_serialize, bincode_deserialize = demo_deserialize\<rparr>"

lemma demo_bincode_laws: "bincode_laws demo_env"
proof -
  have "demo_deserialize (demo_serialize p @ rest) = Some p" if "wf_inner p" for p rest
  proof (cases p)
    case (Message m)
    then show ?thesis by (simp add: demo_serialize_def demo_deserialize_def get_put_message)
  next
    case (ReplyBlocks rbs)
    with that have "get_many get_rb (length rbs) (concat (map put_rb rbs) @ rest) = (rbs, rest)"
      by (intro get_many_concat) (simp add: wf_inner_def list_all_iff get_put_rb)
    with ReplyBlocks show ?thesis by (simp add: demo_serialize_def demo_deserialize_def)
  qed
  then show ?thesis by (simp add: bincode_laws_def demo_env_def crypto.defs)
qed

lemma demo_packet_laws: "packet_laws demo_env"
  using demo_laws demo_bincode_laws
  by (simp add: packet_laws_def demo_env_def blake3_laws_def x25519_laws_def aead_laws_def crypto.defs)

end
