(* ===== verification/Raw_Packet.thy ===== *)
theory Raw_Packet
  imports Inner_Packet
begin

text \<open>
  \<open>libraries/earendil_packet/src/raw.rs\<close>: construction of onion packets over a route and the
  peeling of one layer.  The ephemeral secrets and the padding that the code draws at random
  are arguments: \<open>eph k\<close> is the secret generated for the layer with \<open>k\<close> hops left (the
  recursion generates them in the order \<open>eph 0, eph 1, \<dots>\<close>), \<open>garbage\<close> the 621 random
  bytes of the innermost header.
\<close>

section \<open>Data\<close>

record raw_packet =
  header :: raw_header
  onion_body :: bytes

record forward_instruction =
  this_pubkey :: onion_public
  next_fingerprint :: fingerprint

datatype packet_construct_error = TooManyHops | MessageTooBig
datatype packet_peel_error = Peel_DecryptionError | InnerPacketOpenError

datatype peeled_packet =
    Forward fingerprint raw_packet
  | Received fingerprint inner_packet
  | GarbledReply u64 bytes

text \<open>\<open>bytemuck::cast\<close> between a header and its 690 bytes (\<open>repr(C)\<close>, two byte arrays).\<close>

definition header_bytes :: "raw_header \<Rightarrow> bytes" where
  "header_bytes h = outer h @ inner h"

definition header_of_bytes :: "bytes \<Rightarrow> raw_header" where
  "header_of_bytes bs = \<lparr>outer = take 69 bs, inner = drop 69 bs\<rparr>"

text \<open>\<open>Vec<u8>\<close> into \<open>[u8; n]\<close> with \<open>try_into().unwrap()\<close>.\<close>

definition into_array :: "nat \<Rightarrow> bytes \<Rightarrow> ('e, bytes) res" where
  "into_array n bs = (if length bs = n then Inr bs else Inl Panic)"

definition body_key :: "'z crypto_scheme \<Rightarrow> bytes \<Rightarrow> bytes" where
  "body_key E ss = blake3_keyed_hash E (bytes_of_string ''body____________________________'') ss"

definition header_key :: "'z crypto_scheme \<Rightarrow> bytes \<Rightarrow> bytes" where
  "header_key E ss = blake3_keyed_hash E (bytes_of_string ''header__________________________'') ss"

section \<open>Operations\<close>

fun raw_new ::
    "'z packet_env_scheme \<Rightarrow> (nat \<Rightarrow> onion_secret) \<Rightarrow> bytes \<Rightarrow> forward_instruction list \<Rightarrow> onion_public \<Rightarrow>
     inner_packet \<Rightarrow> bytes \<Rightarrow> identity_secret \<Rightarrow> (packet_construct_error, raw_packet \<times> bytes list) res" where
  "raw_new E eph garbage [] destination payload metadata my_isk =
     bind_res (map_err (\<lambda>_. MessageTooBig) (inner_encode E payload my_isk)) (\<lambda>sealed_payload.
     bind_res (box_encrypt E (eph 0) (0 # metadata) destination) (\<lambda>(header_outer, our_sk).
       let shared_sec = shared_secret E our_sk destination;
           new_body = stream_dencrypt E (body_key E shared_sec) zero_nonce sealed_payload
       in bind_res (into_array 69 header_outer) (\<lambda>header_outer.
            Inr (\<lparr>header = \<lparr>outer = header_outer, inner = garbage\<rparr>, onion_body = new_body\<rparr>,
                 [shared_sec]))))"
| "raw_new E eph garbage (hop # route) destination payload metadata my_isk =
     (if 10 \<le> length (hop # route) then Inl (Err TooManyHops)
      else
        bind_res (raw_new E eph garbage route destination payload metadata my_isk)
          (\<lambda>(next_hop, shared_secs).
        bind_res (box_encrypt E (eph (length (hop # route))) (1 # fp_bytes (next_fingerprint hop))
                    (this_pubkey hop)) (\<lambda>(header_outer, our_sk).
          let shared_sec = shared_secret E our_sk (this_pubkey hop);
              new_body = stream_dencrypt E (body_key E shared_sec) zero_nonce (onion_body next_hop);
              header_inner = stream_dencrypt E (header_key E shared_sec) zero_nonce
                               (take 621 (header_bytes (header next_hop)))
          in bind_res (into_array 69 header_outer) (\<lambda>header_outer.
               Inr (\<lparr>header = \<lparr>outer = header_outer, inner = header_inner\<rparr>, onion_body = new_body\<rparr>,
                    shared_secs @ [shared_sec])))))"

definition new_normal ::
    "'z packet_env_scheme \<Rightarrow> (nat \<Rightarrow> onion_secret) \<Rightarrow> bytes \<Rightarrow> forward_instruction list \<Rightarrow> onion_public \<Rightarrow>
     inner_packet \<Rightarrow> identity_secret \<Rightarrow> (packet_construct_error, raw_packet) res" where
  "new_normal E eph garbage route destination payload my_isk =
     bind_res (raw_new E eph garbage route destination payload (replicate 20 0) my_isk) (\<lambda>(raw, _).
       Inr raw)"

definition new_reply ::
    "'z packet_env_scheme \<Rightarrow> reply_block \<Rightarrow> inner_packet \<Rightarrow> identity_secret \<Rightarrow>
     (packet_construct_error, raw_packet) res" where
  "new_reply E rb payload my_isk =
     bind_res (map_err (\<lambda>_. MessageTooBig) (inner_encode E payload my_isk)) (\<lambda>raw.
       Inr \<lparr>header = rb_header rb, onion_body = raw\<rparr>)"

definition peel ::
    "'z packet_env_scheme \<Rightarrow> raw_packet \<Rightarrow> onion_secret \<Rightarrow> (packet_peel_error, peeled_packet) res" where
  "peel E pkt our_sk =
     bind_res (map_err (\<lambda>_. Peel_DecryptionError) (box_decrypt E (outer (header pkt)) our_sk))
       (\<lambda>(metadata, their_pk).
     if length metadata \<noteq> 21 then Inl Panic
     else
       let shared_sec = shared_secret E our_sk their_pk;
           peeled_header = stream_dencrypt E (header_key E shared_sec) zero_nonce
                             (inner (header pkt) @ replicate 69 0);
           peeled_body = stream_dencrypt E (body_key E shared_sec) zero_nonce (onion_body pkt)
       in if metadata ! 0 = 1 then
            Inr (Forward (Fingerprint (drop 1 metadata))
                   \<lparr>header = header_of_bytes peeled_header, onion_body = peeled_body\<rparr>)
          else if metadata ! 0 = 0 then
            (if drop 1 metadata = replicate 20 0 then
               bind_res (map_err (\<lambda>_. InnerPacketOpenError) (inner_decode E peeled_body))
                 (\<lambda>(inner_pkt, fp). Inr (Received fp inner_pkt))
             else Inr (GarbledReply (of_be_bytes (take 8 (drop 1 metadata))) peeled_body))
          else Inl (Err InnerPacketOpenError))"

text \<open>
  A packet travelling along a path: every relay peels with its own secret and passes the
  result on to the fingerprint it finds.  \<open>None\<close> if some relay does not see a packet to forward.
\<close>

fun relay_path ::
    "'z packet_env_scheme \<Rightarrow> onion_secret list \<Rightarrow> raw_packet \<Rightarrow> (fingerprint list \<times> raw_packet) option" where
  "relay_path E [] pkt = Some ([], pkt)"
| "relay_path E (sk # sks) pkt =
     (case peel E pkt sk of
        Inr (Forward to pkt') \<Rightarrow>
          map_option (\<lambda>(fps, last). (to # fps, last)) (relay_path E sks pkt')
      | _ \<Rightarrow> None)"

definition wf_packet :: "raw_packet \<Rightarrow> bool" where
  "wf_packet p \<longleftrightarrow> wf_header (header p) \<and> length (onion_body p) = 8192"

end
