(* ===== verification/Onion_Route.thy ===== *)
theory Onion_Route
  imports Raw_Packet
begin

text \<open>
  The theorems on onion packets: construction succeeds exactly within the hop and size limits
  and never panics, peeling never panics, and a packet built for a route is forwarded hop by
  hop to the destination, which recovers the payload.  The heart is how much of the 690-byte
  header survives: every layer drops the last 69 bytes, so after \<open>k\<close> peels the first
  \<open>690 - 69 * k\<close> bytes are still those of the sender, which is enough for nine relays.
\<close>

section \<open>Layers of the body\<close>

definition body_layer :: "'z crypto_scheme \<Rightarrow> bytes \<Rightarrow> nat \<Rightarrow> byte" where
  "body_layer E ss = chacha20_keystream E (body_key E ss) zero_nonce"

lemma stream_dencrypt_body: "stream_dencrypt E (body_key E ss) zero_nonce = xor_stream (body_layer E ss)"
  by (simp add: body_layer_def stream_dencrypt_def fun_eq_iff)

text \<open>All layers of the body, the destination's first.\<close>

abbreviation body_layers :: "'z crypto_scheme \<Rightarrow> bytes list \<Rightarrow> bytes \<Rightarrow> bytes" where
  "body_layers E secs \<equiv> fold xor_stream (map (body_layer E) secs)"

section \<open>Construction\<close>

lemma raw_new_Nil_ok:
  assumes "packet_laws E" and "length metadata = 20" and "inner_encode E payload isk = Inr sealed"
  shows "\<exists>ct. box_encrypt E (eph 0) (0 # metadata) (onion_public_of E dsk)
                = (Inr (ct, eph 0) :: (packet_construct_error, bytes \<times> onion_secret) res)
           \<and> length ct = 69
           \<and> box_decrypt E ct dsk = Inr (0 # metadata, onion_public_of E (eph 0))
           \<and> raw_new E eph garbage [] (onion_public_of E dsk) payload metadata isk =
               Inr (\<lparr>header = \<lparr>outer = ct, inner = garbage\<rparr>,
                     onion_body = xor_stream (body_layer E (shared_secret E (eph 0) (onion_public_of E dsk))) sealed\<rparr>,
                    [shared_secret E (eph 0) (onion_public_of E dsk)])"
proof -
  obtain ct where "box_encrypt E (eph 0) (0 # metadata) (onion_public_of E dsk)
                = (Inr (ct, eph 0) :: (packet_construct_error, bytes \<times> onion_secret) res)"
    and "length ct = 69"
    and "box_decrypt E ct dsk = Inr (0 # metadata, onion_public_of E (eph 0))"
    using box_roundtrip [of E "0 # metadata" "eph 0" dsk] assms by auto
  with assms(3) show ?thesis by (intro exI [of _ ct]) (simp add: Let_def into_array_def stream_dencrypt_body)
qed

lemma raw_new_Cons_ok:
  assumes laws: "packet_laws E" and fp: "length (fp_bytes (next_fingerprint hop)) = 20"
    and few: "length (hop # route) < 10"
    and rest: "raw_new E eph garbage route dest payload metadata isk = Inr (nxt, secs)"
    and pk: "this_pubkey hop = onion_public_of E sk"
  defines "e \<equiv> eph (length (hop # route))"
  shows "\<exists>ct. length ct = 69
           \<and> box_decrypt E ct sk = Inr (1 # fp_bytes (next_fingerprint hop), onion_public_of E e)
           \<and> raw_new E eph garbage (hop # route) dest payload metadata isk =
               Inr (\<lparr>header = \<lparr>outer = ct,
                      inner = stream_dencrypt E (header_key E (shared_secret E e (onion_public_of E sk))) zero_nonce
                                (take 621 (header_bytes (header nxt)))\<rparr>,
                     onion_body = xor_stream (body_layer E (shared_secret E e (onion_public_of E sk))) (onion_body nxt)\<rparr>,
                    secs @ [shared_secret E e (onion_public_of E sk)])"
proof -
  obtain ct where "box_encrypt E e (1 # fp_bytes (next_fingerprint hop)) (onion_public_of E sk)
                = (Inr (ct, e) :: (packet_construct_error, bytes \<times> onion_secret) res)"
    and "length ct = 69"
    and "box_decrypt E ct sk = Inr (1 # fp_bytes (next_fingerprint hop), onion_public_of E e)"
    using box_roundtrip [of E "1 # fp_bytes (next_fingerprint hop)" e sk] laws fp by auto
  with rest few pk show ?thesis
    by (intro exI [of _ ct]) (simp add: Let_def into_array_def stream_dencrypt_body e_def)
qed

text \<open>The instructions of a route whose relays hold the secrets \<open>sks\<close>.\<close>

definition route_for :: "'z crypto_scheme \<Rightarrow> onion_secret list \<Rightarrow> forward_instruction list \<Rightarrow> bool" where
  "route_for E sks route \<longleftrightarrow>
     map this_pubkey route = map (onion_public_of E) sks \<and>
     list_all (\<lambda>hop. length (fp_bytes (next_fingerprint hop)) = 20) route"

lemma route_for_simps [simp]:
  "route_for E sks [] \<longleftrightarrow> sks = []"
  "route_for E sks (hop # route) \<longleftrightarrow>
     (\<exists>sk sks'. sks = sk # sks' \<and> this_pubkey hop = onion_public_of E sk
        \<and> length (fp_bytes (next_fingerprint hop)) = 20 \<and> route_for E sks' route)"
  by (auto simp: route_for_def Cons_eq_map_conv)

lemma raw_new_total:
  assumes laws: "packet_laws E" and md: "length metadata = 20"
    and enc: "inner_encode E payload isk = Inr sealed"
  shows "route_for E sks route \<Longrightarrow> length route < 10 \<Longrightarrow>
    \<exists>pkt secs. raw_new E eph garbage route (onion_public_of E dsk) payload metadata isk = Inr (pkt, secs)
      \<and> length secs = Suc (length route) \<and> onion_body pkt = body_layers E secs sealed
      \<and> length (outer (header pkt)) = 69
      \<and> (length garbage = 621 \<longrightarrow> length (inner (header pkt)) = 621)"
proof (induction route arbitrary: sks)
  case Nil
  show ?case using raw_new_Nil_ok [OF laws md enc, of eph dsk garbage] by fastforce
next
  case (Cons hop route)
  from Cons.prems(1) obtain sk sks' where pk: "this_pubkey hop = onion_public_of E sk"
    and fp: "length (fp_bytes (next_fingerprint hop)) = 20" and r: "route_for E sks' route"
    by auto
  from Cons.IH [OF r] Cons.prems(2) obtain nxt secs where
      n: "raw_new E eph garbage route (onion_public_of E dsk) payload metadata isk = Inr (nxt, secs)"
    and s: "length secs = Suc (length route)" "onion_body nxt = body_layers E secs sealed"
    and o: "length (outer (header nxt)) = 69"
    and i: "length garbage = 621 \<longrightarrow> length (inner (header nxt)) = 621"
    by auto
  show ?case
    using raw_new_Cons_ok [OF laws fp Cons.prems(2) n pk] s o i
    by (auto simp: header_bytes_def)
qed

lemma raw_new_too_many: "10 \<le> length route \<Longrightarrow>
    raw_new E eph garbage route dest payload metadata isk = Inl (Err TooManyHops)"
  by (cases route) simp_all

lemma raw_new_too_big:
  assumes "8172 < length (bincode_serialize E payload)" and "length route < 10"
  shows "raw_new E eph garbage route dest payload metadata isk = Inl (Err MessageTooBig)"
  using assms(2)
proof (induction route)
  case Nil
  show ?case using assms(1) by (simp add: inner_encode_def Let_def)
next
  case (Cons hop route)
  then show ?case by simp
qed

section \<open>Peeling\<close>

text \<open>Construction never panics, whatever keys the descriptors hold, and gives packets of the wire size.\<close>

lemma box_encrypt_ok:
  assumes "packet_laws E" and "length m \<le> 65536"
  shows "\<exists>ct. box_encrypt E sk m pk = Inr (ct, sk) \<and> length ct = 48 + length m"
proof -
  have "aead_laws E" using assms(1) by simp
  then obtain c where "aead_encrypt E (blake3_hash E (shared_secret E sk pk)) zero_nonce m = Some c" "length c = length m + 16"
    using assms(2) unfolding aead_laws_def by blast
  then show ?thesis using assms(1) by (simp add: box_encrypt_def seal_def Let_def)
qed

lemma raw_new_safe:
  assumes laws: "packet_laws E" and g: "length garbage = 621" and md: "length metadata = 20"
    and fps: "\<And>hop. hop \<in> set route \<Longrightarrow> length (fp_bytes (next_fingerprint hop)) = 20"
  shows "case raw_new E eph garbage route dest payload metadata isk of
           Inl f \<Rightarrow> f \<noteq> Panic | Inr (pkt, secs) \<Rightarrow> wf_packet pkt"
  using fps
proof (induction route)
  case Nil
  show ?case
  proof (cases "inner_encode E payload isk")
    case (Inl f)
    then show ?thesis using inner_encode_no_panic [of E payload isk] by (cases f) simp_all
  next
    case (Inr b)
    obtain ct where ct: "(box_encrypt E (eph 0) (0 # metadata) dest :: (packet_construct_error, _) res) = Inr (ct, eph 0)"
        "length ct = 69"
      using box_encrypt_ok [OF laws, of "0 # metadata" "eph 0" dest] md by auto
    have "length b = 8192" using inner_encode_length [OF packet_lawsD(1) [OF laws] Inr] .
    then show ?thesis using Inr ct g
      by (simp add: Let_def into_array_def wf_packet_def wf_header_def)
  qed
next
  case (Cons hop route)
  let ?k = "length (hop # route)"
  obtain ct where ct: "(box_encrypt E (eph ?k) (1 # fp_bytes (next_fingerprint hop)) (this_pubkey hop)
        :: (packet_construct_error, _) res) = Inr (ct, eph ?k)"
      "length ct = 69"
    using box_encrypt_ok [OF laws, of "1 # fp_bytes (next_fingerprint hop)" "eph ?k" "this_pubkey hop"]
      Cons.prems by auto
  have IH: "case raw_new E eph garbage route dest payload metadata isk of
           Inl f \<Rightarrow> f \<noteq> Panic | Inr (pkt, secs) \<Rightarrow> wf_packet pkt"
    using Cons by simp
  show ?case
  proof (cases "raw_new E eph garbage route dest payload metadata isk")
    case (Inl f)
    then show ?thesis using IH by (cases f) simp_all
  next
    case (Inr r)
    then show ?thesis using IH ct
      by (cases r) (simp add: Let_def into_array_def wf_packet_def wf_header_def header_bytes_def)
  qed
qed

lemma header_of_header_bytes [simp]: "wf_header h \<Longrightarrow> header_of_bytes (header_bytes h) = h"
  by (cases h) (simp add: wf_header_def header_of_bytes_def header_bytes_def)

text \<open>Two headers agree on their first \<open>k\<close> bytes.\<close>

definition agree_upto :: "nat \<Rightarrow> raw_header \<Rightarrow> raw_header \<Rightarrow> bool" where
  "agree_upto k h h' \<longleftrightarrow> length (outer h) = 69 \<and> length (outer h') = 69
     \<and> take k (header_bytes h) = take k (header_bytes h')"

lemma agree_upto_mono: "agree_upto k h h' \<Longrightarrow> j \<le> k \<Longrightarrow> agree_upto j h h'"
  unfolding agree_upto_def by (metis min.absorb1 take_take)

lemma agree_upto_trans: "agree_upto k h h' \<Longrightarrow> agree_upto k h' h'' \<Longrightarrow> agree_upto k h h''"
  by (auto simp: agree_upto_def)

lemma agree_upto_outer: "agree_upto k h h' \<Longrightarrow> 69 \<le> k \<Longrightarrow> outer h = outer h'"
  by (auto simp: agree_upto_def header_bytes_def)

lemma agree_upto_inner: "agree_upto k h h' \<Longrightarrow> 69 \<le> k \<Longrightarrow> take (k - 69) (inner h) = take (k - 69) (inner h')"
  by (auto simp: agree_upto_def header_bytes_def)

lemma header_bytes_of_bytes [simp]: "header_bytes (header_of_bytes bs) = bs"
  by (simp add: header_bytes_def header_of_bytes_def)

text \<open>A relay that finds its layer forwards to the instructed fingerprint.\<close>

lemma peel_forward:
  assumes dec: "box_decrypt E (outer (header p)) sk = Inr (1 # fp, pk)" and fp: "length fp = 20"
    and ss: "shared_secret E sk pk = ss"
  shows "peel E p sk = Inr (Forward (Fingerprint fp)
           \<lparr>header = header_of_bytes (stream_dencrypt E (header_key E ss) zero_nonce
                                       (inner (header p) @ replicate 69 0)),
            onion_body = xor_stream (body_layer E ss) (onion_body p)\<rparr>)"
  using assms by (simp add: peel_def Let_def stream_dencrypt_body)

text \<open>After one peel, what was right up to \<open>k\<close> is right up to \<open>k - 69\<close>, at most 621.\<close>

lemma peeled_header_agrees:
  assumes a: "agree_upto k (header p) \<lparr>outer = ct, inner = stream_dencrypt E key zero_nonce (take 621 (header_bytes h))\<rparr>"
    and k: "69 \<le> k" "k \<le> 690"
    and p: "length (inner (header p)) = 621"
    and h: "length (header_bytes h) = 690" "length (outer h) = 69"
  shows "agree_upto (k - 69)
           (header_of_bytes (stream_dencrypt E key zero_nonce (inner (header p) @ replicate 69 0))) h"
proof -
  let ?n = "k - 69"
  have n: "?n \<le> 621" using k by simp
  have "take ?n (inner (header p)) = take ?n (stream_dencrypt E key zero_nonce (take 621 (header_bytes h)))"
    using agree_upto_inner [OF a k(1)] by simp
  moreover have "take ?n (take 621 (header_bytes h)) = take ?n (header_bytes h)"
    using n by (simp add: min.absorb1)
  ultimately have "take ?n (stream_dencrypt E key zero_nonce (inner (header p) @ replicate 69 0)) = take ?n (header_bytes h)"
    using n p by (simp add: take_stream_dencrypt)
  then show ?thesis using h p by (simp add: agree_upto_def) (simp add: header_of_bytes_def)
qed

section \<open>Travelling along a route\<close>

lemma one_hop:
  assumes laws: "packet_laws E" and fp: "length (fp_bytes (next_fingerprint hop)) = 20"
    and few: "length (hop # route) < 10" and pk: "this_pubkey hop = onion_public_of E sk"
    and rest: "raw_new E eph garbage route dest payload metadata isk = Inr (nxt, secs')"
    and nxt: "length (outer (header nxt)) = 69" "length (inner (header nxt)) = 621"
    and new: "raw_new E eph garbage (hop # route) dest payload metadata isk = Inr (pkt, secs)"
    and ag: "agree_upto k (header p) (header pkt)" and k: "69 \<le> k" "k \<le> 690"
    and p: "length (inner (header p)) = 621"
  shows "\<exists>ss p'. secs = secs' @ [ss] \<and> peel E p sk = Inr (Forward (next_fingerprint hop) p')
           \<and> agree_upto (k - 69) (header p') (header nxt) \<and> length (inner (header p')) = 621
           \<and> onion_body p' = xor_stream (body_layer E ss) (onion_body p)"
proof -
  define e where "e = eph (length (hop # route))"
  define ss where "ss = shared_secret E e (onion_public_of E sk)"
  let ?p' = "\<lparr>header = header_of_bytes (stream_dencrypt E (header_key E ss) zero_nonce
                                       (inner (header p) @ replicate 69 0)),
            onion_body = xor_stream (body_layer E ss) (onion_body p)\<rparr>"
  obtain ct where
      dec: "box_decrypt E ct sk = Inr (1 # fp_bytes (next_fingerprint hop), onion_public_of E e)"
    and pkt: "header pkt = \<lparr>outer = ct, inner = stream_dencrypt E (header_key E ss) zero_nonce (take 621 (header_bytes (header nxt)))\<rparr>"
    and secs: "secs = secs' @ [ss]"
    using raw_new_Cons_ok [OF laws fp few rest pk] new by (auto simp: e_def ss_def)
  have "outer (header p) = ct" using agree_upto_outer [OF ag k(1)] pkt by simp
  moreover have "shared_secret E sk (onion_public_of E e) = ss"
    using laws by (simp add: ss_def shared_secret_agrees)
  ultimately have "peel E p sk = Inr (Forward (next_fingerprint hop) ?p')"
    using peel_forward [of E p sk "fp_bytes (next_fingerprint hop)"] dec fp by simp
  moreover have "agree_upto (k - 69) (header ?p') (header nxt)"
    using peeled_header_agrees [of k p ct E "header_key E ss" "header nxt"] ag k p pkt nxt
    by (simp add: header_bytes_def)
  moreover have "length (inner (header ?p')) = 621" using p by (simp add: header_of_bytes_def)
  ultimately show ?thesis using secs by (intro exI [of _ ss] exI [of _ ?p']) simp
qed

lemma route_travel:
  assumes laws: "packet_laws E" and md: "length metadata = 20"
    and enc: "inner_encode E payload isk = Inr sealed" and g: "length garbage = 621"
  shows "route_for E sks route \<Longrightarrow> length route < 10 \<Longrightarrow>
    raw_new E eph garbage route (onion_public_of E dsk) payload metadata isk = Inr (pkt, secs) \<Longrightarrow>
    agree_upto k (header p) (header pkt) \<Longrightarrow> 69 * Suc (length route) \<le> k \<Longrightarrow> k \<le> 690 \<Longrightarrow>
    length (inner (header p)) = 621 \<Longrightarrow>
    \<exists>last. relay_path E sks p = Some (map next_fingerprint route, last)
      \<and> onion_body last = body_layers E (rev (tl secs)) (onion_body p)
      \<and> box_decrypt E (outer (header last)) dsk = Inr (0 # metadata, onion_public_of E (eph 0))
      \<and> secs \<noteq> [] \<and> hd secs = shared_secret E (eph 0) (onion_public_of E dsk)"
proof (induction route arbitrary: sks pkt secs k p)
  case Nil
  obtain ct where "box_decrypt E ct dsk = Inr (0 # metadata, onion_public_of E (eph 0))"
    and "outer (header pkt) = ct" and "secs = [shared_secret E (eph 0) (onion_public_of E dsk)]"
    using raw_new_Nil_ok [OF laws md enc, of eph dsk garbage] Nil.prems(3) by auto
  with Nil.prems agree_upto_outer [OF Nil.prems(4)] show ?case by simp
next
  case (Cons hop route)
  from Cons.prems(1) obtain sk sks' where sks: "sks = sk # sks'" and pk: "this_pubkey hop = onion_public_of E sk"
    and fp: "length (fp_bytes (next_fingerprint hop)) = 20" and r: "route_for E sks' route"
    by auto
  from Cons.prems(2) have few: "length route < 10" by simp
  obtain nxt secs' where
      n: "raw_new E eph garbage route (onion_public_of E dsk) payload metadata isk = Inr (nxt, secs')"
    and o: "length (outer (header nxt)) = 69" "length (inner (header nxt)) = 621"
    using raw_new_total [OF laws md enc r few, of eph garbage dsk] g by auto
  from Cons.prems(5) have k: "69 \<le> k" "69 * Suc (length route) \<le> k - 69" by simp_all
  obtain ss p' where secs: "secs = secs' @ [ss]"
    and peel: "peel E p sk = Inr (Forward (next_fingerprint hop) p')"
    and p': "agree_upto (k - 69) (header p') (header nxt)" "length (inner (header p')) = 621"
    and b: "onion_body p' = xor_stream (body_layer E ss) (onion_body p)"
    using one_hop [OF laws fp Cons.prems(2) pk n o Cons.prems(3,4) k(1) Cons.prems(6,7)] by blast
  have "k - 69 \<le> 690" using Cons.prems(6) by simp
  from Cons.IH [OF r few n p'(1) k(2) this p'(2)]
  show ?case using peel secs sks b by auto
qed

text \<open>The packet a route was built for, or one with the same header and another body.\<close>

lemma built_packet_travels:
  assumes laws: "packet_laws E" and md: "length metadata = 20" and g: "length garbage = 621"
    and r: "route_for E sks route" "length route < 10"
    and new: "raw_new E eph garbage route (onion_public_of E dsk) payload metadata isk = Inr (pkt, secs)"
    and hdr: "header p = header pkt"
  shows "\<exists>last. relay_path E sks p = Some (map next_fingerprint route, last)
      \<and> xor_stream (body_layer E (hd secs)) (onion_body last) = body_layers E (rev secs) (onion_body p)
      \<and> box_decrypt E (outer (header last)) dsk = Inr (0 # metadata, onion_public_of E (eph 0))
      \<and> shared_secret E dsk (onion_public_of E (eph 0)) = hd secs"
proof -
  obtain sealed where enc: "inner_encode E payload isk = Inr sealed"
    using new raw_new_too_big [of E payload route eph garbage _ metadata isk] r(2)
    by (cases "8172 < length (bincode_serialize E payload)") (auto simp: inner_encode_def Let_def)
  have len: "length (outer (header pkt)) = 69" "length (inner (header pkt)) = 621"
    using raw_new_total [OF laws md enc r, of eph garbage dsk] g new by auto
  then have "agree_upto 690 (header p) (header pkt)" using hdr by (simp add: agree_upto_def)
  then obtain last where last: "relay_path E sks p = Some (map next_fingerprint route, last)"
      "onion_body last = body_layers E (rev (tl secs)) (onion_body p)"
      "box_decrypt E (outer (header last)) dsk = Inr (0 # metadata, onion_public_of E (eph 0))"
      "secs \<noteq> []" "hd secs = shared_secret E (eph 0) (onion_public_of E dsk)"
    using route_travel [OF laws md enc g r new] r(2) len(2) hdr by fastforce
  have "rev secs = rev (tl secs) @ [hd secs]" using last(4) by (cases secs) simp_all
  with last laws show ?thesis by (intro exI [of _ last]) (simp add: shared_secret_agrees)
qed

lemma raw_new_body:
  assumes laws: "packet_laws E" and md: "length metadata = 20"
    and r: "route_for E sks route" "length route < 10"
    and new: "raw_new E eph garbage route (onion_public_of E dsk) payload metadata isk = Inr (pkt, secs)"
  obtains sealed where "inner_encode E payload isk = Inr sealed" and "onion_body pkt = body_layers E secs sealed"
proof -
  obtain sealed where enc: "inner_encode E payload isk = Inr sealed"
    using new raw_new_too_big [of E payload route eph garbage _ metadata isk] r(2)
    by (cases "8172 < length (bincode_serialize E payload)") (auto simp: inner_encode_def Let_def)
  with raw_new_total [OF laws md enc r, of eph garbage dsk] new show ?thesis by (intro that) auto
qed

lemma body_layers_cancel: "body_layers E (rev secs) (body_layers E secs b) = b"
  by (simp flip: rev_map add: fold_xor_stream_rev_cancel)

lemma inner_decode_received:
  assumes "length b = 8192"
  shows "case map_err (\<lambda>_. InnerPacketOpenError) (inner_decode E b) of
           Inl f \<Rightarrow> f \<noteq> Panic | Inr (p, fp) \<Rightarrow> length (fp_bytes fp) = 20"
  using assms by (cases "bincode_deserialize E (drop 20 b)") (simp_all add: inner_decode_def)

section \<open>Theorems\<close>

lemma normal_packet_delivered:
  assumes "packet_laws E" and "length garbage = 621" and "wf_inner payload"
    and "route_for E sks route"
    and "new_normal E eph garbage route (onion_public_of E dsk) payload isk = Inr pkt"
  shows "\<exists>last. relay_path E sks pkt = Some (map next_fingerprint route, last)
           \<and> peel E last dsk = Inr (Received (my_fingerprint E isk) payload)"
proof -
  have md: "length (replicate 20 0 :: bytes) = 20" by simp
  obtain secs where new: "raw_new E eph garbage route (onion_public_of E dsk) payload (replicate 20 0) isk = Inr (pkt, secs)"
    using assms(5) by (auto simp: new_normal_def res_simps)
  then have few: "length route < 10" using raw_new_too_many by (metis linorder_not_less sum.distinct(2))
  obtain sealed where enc: "inner_encode E payload isk = Inr sealed" and body: "onion_body pkt = body_layers E secs sealed"
    using raw_new_body [OF assms(1) md assms(4) few new] .
  obtain last where last: "relay_path E sks pkt = Some (map next_fingerprint route, last)"
      "xor_stream (body_layer E (hd secs)) (onion_body last) = sealed"
      "box_decrypt E (outer (header last)) dsk = Inr (0 # replicate 20 0, onion_public_of E (eph 0))"
      "shared_secret E dsk (onion_public_of E (eph 0)) = hd secs"
    using built_packet_travels [OF assms(1) md assms(2,4) few new refl] body body_layers_cancel by metis
  have "inner_decode E sealed = Inr (payload, my_fingerprint E isk)"
    using assms(1,3) enc by (simp add: inner_decode_encode)
  with last show ?thesis by (auto simp: peel_def Let_def stream_dencrypt_body)
qed

text \<open>
  (C1) Onion delivery.  A packet built by \<open>new_normal\<close> for a route of relays (each holding the
  secret of the public key in its instruction) is forwarded by every relay in turn to exactly the
  instructed next fingerprint, and the destination, peeling the packet that arrives, receives the
  sender's payload with the sender's fingerprint.
\<close>

theorem onion_delivery:
  assumes "packet_laws E" and "length garbage = 621" and "wf_inner payload"
    and "route_for E sks route"
    and "new_normal E eph garbage route (onion_public_of E dsk) payload isk = Inr pkt"
  shows "\<exists>last. relay_path E sks pkt = Some (map next_fingerprint route, last)
           \<and> peel E last dsk = Inr (Received (my_fingerprint E isk) payload)"
  by (rule normal_packet_delivered [OF assms])

definition demo_route :: "forward_instruction list" where
  "demo_route = [\<lparr>this_pubkey = onion_public_of demo_env (OnionSecret [1]),
                  next_fingerprint = Fingerprint (replicate 20 7)\<rparr>]"

definition demo_message :: inner_packet where
  "demo_message = Message (message_new 1 2 [[104, 105]])"

lemma demo_route_for: "route_for demo_env [OnionSecret [1]] demo_route" "length demo_route < 10"
  by (simp_all add: demo_route_def)

lemma demo_message_facts: "wf_inner demo_message" "length (bincode_serialize demo_env demo_message) \<le> 8172"
  by (simp_all add: demo_message_def wf_inner_def demo_env_def crypto.defs demo_serialize_def put_message_def
      put_nat_def put_bytes_def message_new_def)

theorem onion_delivery_witness:
  "\<exists>pkt last. new_normal demo_env (\<lambda>k. OnionSecret [of_nat k]) (replicate 621 9) demo_route
                (onion_public_of demo_env (OnionSecret [2])) demo_message (IdentitySecret [3]) = Inr pkt
     \<and> relay_path demo_env [OnionSecret [1]] pkt = Some ([Fingerprint (replicate 20 7)], last)
     \<and> peel demo_env last (OnionSecret [2])
         = Inr (Received (my_fingerprint demo_env (IdentitySecret [3])) demo_message)"
proof -
  obtain sealed where enc: "inner_encode demo_env demo_message (IdentitySecret [3]) = Inr sealed"
    using demo_message_facts(2) inner_encode_ok_iff by blast
  obtain pkt secs where "raw_new demo_env (\<lambda>k. OnionSecret [of_nat k]) (replicate 621 9) demo_route
      (onion_public_of demo_env (OnionSecret [2])) demo_message (replicate 20 0) (IdentitySecret [3]) = Inr (pkt, secs)"
    using raw_new_total [OF demo_packet_laws _ enc demo_route_for, of "replicate 20 0"
        "\<lambda>k. OnionSecret [of_nat k]" "replicate 621 9" "OnionSecret [2]"] by auto
  then have new: "new_normal demo_env (\<lambda>k. OnionSecret [of_nat k]) (replicate 621 9) demo_route
                (onion_public_of demo_env (OnionSecret [2])) demo_message (IdentitySecret [3]) = Inr pkt"
    by (simp add: new_normal_def)
  show ?thesis
    using onion_delivery [OF demo_packet_laws _ demo_message_facts(1) demo_route_for(1) new] new
    by (auto simp: demo_route_def)
qed

text \<open>
  (C23) Outcomes of construction.  For any route of well-formed instructions \<open>new_normal\<close> returns
  \<open>TooManyHops\<close> exactly for ten hops or more, otherwise \<open>MessageTooBig\<close> exactly when the
  serialised payload exceeds 8172 bytes, and otherwise a packet of the right size; it never panics.
\<close>

theorem new_normal_outcomes:
  assumes laws: "packet_laws E" and g: "length garbage = 621" and r: "route_for E sks route"
  shows "case new_normal E eph garbage route (onion_public_of E dsk) payload isk of
           Inl f \<Rightarrow> f = Err TooManyHops \<and> 10 \<le> length route
                 \<or> f = Err MessageTooBig \<and> length route < 10 \<and> 8172 < length (bincode_serialize E payload)
         | Inr pkt \<Rightarrow> length route < 10 \<and> length (bincode_serialize E payload) \<le> 8172 \<and> wf_packet pkt"
proof -
  consider "10 \<le> length route"
    | "length route < 10" "8172 < length (bincode_serialize E payload)"
    | "length route < 10" "length (bincode_serialize E payload) \<le> 8172" by linarith
  then show ?thesis
  proof cases
    case 3
    then obtain sealed where enc: "inner_encode E payload isk = Inr sealed"
      using inner_encode_ok_iff by blast
    have "length sealed = 8192" using inner_encode_length [OF packet_lawsD(1) [OF laws] enc] .
    moreover obtain pkt secs where "raw_new E eph garbage route (onion_public_of E dsk) payload (replicate 20 0) isk = Inr (pkt, secs)"
      and "onion_body pkt = body_layers E secs sealed" and "wf_header (header pkt)"
      using raw_new_total [OF laws _ enc r 3(1), of "replicate 20 0" eph garbage dsk] g
      by (auto simp: wf_header_def)
    ultimately show ?thesis using 3 by (simp add: new_normal_def wf_packet_def)
  qed (simp_all add: new_normal_def raw_new_too_many raw_new_too_big)
qed

theorem new_normal_outcomes_witness:
  "case new_normal demo_env (\<lambda>k. OnionSecret [of_nat k]) (replicate 621 9) demo_route
          (onion_public_of demo_env (OnionSecret [2])) demo_message (IdentitySecret [3]) of
     Inl f \<Rightarrow> False | Inr pkt \<Rightarrow> wf_packet pkt"
  using new_normal_outcomes [OF demo_packet_laws _ demo_route_for(1), where garbage = "replicate 621 9" and
      eph = "\<lambda>k. OnionSecret [of_nat k]" and dsk = "OnionSecret [2]" and payload = demo_message and
      isk = "IdentitySecret [3]"] demo_message_facts(2) demo_route_for(2)
  by (auto split: sum.splits)

lemma peel_sizes:
  assumes laws: "packet_laws E" and wf: "wf_packet pkt"
  shows "case peel E pkt sk of
           Inl f \<Rightarrow> f \<noteq> Panic
         | Inr (Forward to pkt') \<Rightarrow> wf_packet pkt' \<and> length (fp_bytes to) = 20
         | Inr (GarbledReply rid b) \<Rightarrow> length b = 8192
         | Inr (Received fp p) \<Rightarrow> length (fp_bytes fp) = 20"
proof (cases "box_decrypt E (outer (header pkt)) sk")
  case (Inl f)
  then show ?thesis using box_decrypt_no_panic [of E "outer (header pkt)" sk]
    by (cases f) (simp_all add: peel_def)
next
  case (Inr r)
  obtain m pk where r: "r = (m, pk)" by (cases r)
  let ?ss = "shared_secret E sk pk"
  let ?b = "stream_dencrypt E (body_key E ?ss) zero_nonce (onion_body pkt)"
  from Inr r have m: "length m = 21"
    using box_decrypt_length [of E "outer (header pkt)" sk m pk] laws wf by (simp add: wf_packet_def wf_header_def)
  have b: "length ?b = 8192" using wf by (simp add: wf_packet_def)
  consider "m ! 0 = 1" | "m ! 0 = 0" "drop 1 m = replicate 20 0" | "m ! 0 = 0" "drop 1 m \<noteq> replicate 20 0"
    | "m ! 0 \<noteq> 1" "m ! 0 \<noteq> 0" by blast
  then show ?thesis
  proof cases
    case 1
    let ?h = "stream_dencrypt E (header_key E ?ss) zero_nonce (inner (header pkt) @ replicate 69 0)"
    obtain fp where fp: "m = 1 # fp" "length fp = 20" using 1 m by (cases m) auto
    then have "peel E pkt sk = Inr (Forward (Fingerprint fp) \<lparr>header = header_of_bytes ?h, onion_body = ?b\<rparr>)"
      using peel_forward [of E pkt sk fp pk ?ss] Inr r by (simp only: stream_dencrypt_body)
    moreover have "length ?h = 690" using wf by (simp add: wf_packet_def wf_header_def)
    then have "wf_header (header_of_bytes ?h)" by (simp only: wf_header_def header_of_bytes_def) simp
    ultimately show ?thesis using fp b by (simp add: wf_packet_def)
  next
    case 2
    then have "peel E pkt sk = bind_res (map_err (\<lambda>_. InnerPacketOpenError) (inner_decode E ?b))
        (\<lambda>(inner_pkt, fp). Inr (Received fp inner_pkt))"
      using Inr r m by (simp add: peel_def Let_def)
    with inner_decode_received [OF b, of E] show ?thesis
      by (cases "map_err (\<lambda>_. InnerPacketOpenError) (inner_decode E ?b)") auto
  next
    case 3
    then show ?thesis using Inr r m b by (simp add: peel_def Let_def)
  next
    case 4
    then show ?thesis using Inr r m by (simp add: peel_def Let_def)
  qed
qed

text \<open>
  (C22) Peeling is safe on any received packet.  \<open>peel\<close> on a packet of the wire size never panics
  (its length assertion always holds), whatever the bytes and the key, and a packet it forwards has
  the wire size again and a 20-byte fingerprint.
\<close>

theorem peel_safe:
  assumes laws: "packet_laws E" and wf: "wf_packet pkt"
  shows "case peel E pkt sk of
           Inl f \<Rightarrow> f \<noteq> Panic
         | Inr (Forward to pkt') \<Rightarrow> wf_packet pkt' \<and> length (fp_bytes to) = 20
         | Inr (GarbledReply rid b) \<Rightarrow> length b = 8192
         | Inr (Received fp p) \<Rightarrow> length (fp_bytes fp) = 20"
  by (rule peel_sizes [OF assms])

theorem peel_safe_witness:
  "peel demo_env \<lparr>header = \<lparr>outer = replicate 69 1, inner = replicate 621 2\<rparr>, onion_body = replicate 8192 3\<rparr> (OnionSecret [5])
     \<noteq> Inl Panic"
  using peel_safe [OF demo_packet_laws, of "\<lparr>header = \<lparr>outer = replicate 69 1, inner = replicate 621 2\<rparr>, onion_body = replicate 8192 3\<rparr>" "OnionSecret [5]"]
  by (auto simp: wf_packet_def wf_header_def)

end
