(* ===== verification/Reply_Block.thy ===== *)
theory Reply_Block
  imports Onion_Route
begin

text \<open>
  \<open>libraries/earendil_packet/src/reply_block.rs\<close>: single-use reply blocks and the degarbler
  their creator keeps.  The random identifier \<open>rb_id\<close> is an argument, as are the random values
  of the packet the block is cut from.
\<close>

section \<open>Data and operations\<close>

record reply_degarbler =
  shared_secs :: "bytes list"
  my_anon_osk :: onion_secret
  my_anon_isk :: identity_secret

definition rb_metadata :: "u64 \<Rightarrow> bytes" where
  "rb_metadata rb_id = be_bytes 8 rb_id @ replicate 12 0"

definition reply_block_new ::
    "'z packet_env_scheme \<Rightarrow> (nat \<Rightarrow> onion_secret) \<Rightarrow> bytes \<Rightarrow> u64 \<Rightarrow> forward_instruction list \<Rightarrow>
     onion_public \<Rightarrow> onion_secret \<Rightarrow> identity_secret \<Rightarrow>
     (packet_construct_error, reply_block \<times> (u64 \<times> reply_degarbler)) res" where
  "reply_block_new E eph garbage rb_id route my_opk anon_osk anon_isk =
     (let my_anon_opk = onion_public_of E anon_osk;
          metadata = rb_metadata rb_id
      in bind_res (raw_new E eph garbage route my_opk
                     (Message \<lparr>source_dock = 0, dest_dock = 0, body = [[]]\<rparr>) metadata anon_isk)
           (\<lambda>(raw, secs).
             Inr (\<lparr>rb_header = header raw, e2e_dest = my_anon_opk\<rparr>,
                  (rb_id, \<lparr>shared_secs = secs, my_anon_osk = anon_osk, my_anon_isk = anon_isk\<rparr>))))"

definition degarble ::
    "'z packet_env_scheme \<Rightarrow> reply_degarbler \<Rightarrow> bytes \<Rightarrow> (decode_error, inner_packet \<times> fingerprint) res" where
  "degarble E d raw =
     inner_decode E (fold (\<lambda>ss. stream_dencrypt E (body_key E ss) zero_nonce) (shared_secs d) raw)"

section \<open>Lemmas\<close>

lemma length_rb_metadata [simp]: "length (rb_metadata i) = 20"
  by (simp add: rb_metadata_def)

lemma rb_metadata_zero_iff: "rb_metadata i = replicate 20 0 \<longleftrightarrow> i = 0"
proof
  assume "rb_metadata i = replicate 20 0"
  then have "take 8 (rb_metadata i) = take 8 (replicate 20 0)" by (rule arg_cong)
  then have "be_bytes 8 i = be_bytes 8 0" by (simp add: rb_metadata_def be_bytes_zero)
  then show "i = 0" by (intro be_bytes_inject [where n = 8]) simp_all
next
  assume "i = 0"
  then show "rb_metadata i = replicate 20 0"
    by (simp add: rb_metadata_def be_bytes_zero flip: replicate_add)
qed

lemma rb_metadata_id: "of_be_bytes (take 8 (rb_metadata i)) = i"
  by (simp add: rb_metadata_def of_be_bytes_be_bytes)

lemma degarble_layers: "degarble E d raw = inner_decode E (body_layers E (shared_secs d) raw)"
  by (simp add: degarble_def stream_dencrypt_body fold_map comp_def)

text \<open>A reply travels over the block's route; its body picks up every layer on the way.\<close>

lemma reply_travels:
  assumes laws: "packet_laws E" and g: "length garbage = 621" and r: "route_for E sks route"
    and new: "reply_block_new E eph garbage rb_id route (onion_public_of E osk) aosk aisk = Inr (rb, (i, d))"
    and hdr: "header pkt = rb_header rb"
  obtains last pk where "i = rb_id" and "relay_path E sks pkt = Some (map next_fingerprint route, last)"
    and "box_decrypt E (outer (header last)) osk = Inr (0 # rb_metadata rb_id, pk)"
    and "stream_dencrypt E (body_key E (shared_secret E osk pk)) zero_nonce (onion_body last)
          = body_layers E (rev (shared_secs d)) (onion_body pkt)"
proof -
  obtain raw where raw: "raw_new E eph garbage route (onion_public_of E osk)
      (Message \<lparr>source_dock = 0, dest_dock = 0, body = [[]]\<rparr>) (rb_metadata rb_id) aisk = Inr (raw, shared_secs d)"
    and rb: "rb_header rb = header raw" and i: "i = rb_id"
    using new by (auto simp: reply_block_new_def Let_def res_simps)
  have few: "length route < 10" using raw raw_new_too_many by (metis linorder_not_less sum.distinct(2))
  show ?thesis
    using built_packet_travels [OF laws length_rb_metadata g r few raw, of pkt] hdr rb i that
    by (auto simp: stream_dencrypt_body)
qed

lemma reply_block_new_total:
  assumes laws: "packet_laws E" and r: "route_for E sks route" "length route < 10"
    and size: "length (bincode_serialize E (Message \<lparr>source_dock = 0, dest_dock = 0, body = [[]]\<rparr>)) \<le> 8172"
  shows "\<exists>rb d. reply_block_new E eph garbage rb_id route (onion_public_of E osk) aosk aisk = Inr (rb, (rb_id, d))"
proof -
  obtain sealed where enc: "inner_encode E (Message \<lparr>source_dock = 0, dest_dock = 0, body = [[]]\<rparr>) aisk = Inr sealed"
    using size inner_encode_ok_iff by blast
  show ?thesis
    using raw_new_total [OF laws length_rb_metadata [of rb_id] enc r, of eph garbage osk]
    by (auto simp: reply_block_new_def Let_def)
qed

lemma peel_own:
  assumes "box_decrypt E (outer (header p)) osk = Inr (0 # md, pk)" and "length md = 20"
    and "stream_dencrypt E (body_key E (shared_secret E osk pk)) zero_nonce (onion_body p) = b"
  shows "peel E p osk =
    (if md = replicate 20 0
     then bind_res (map_err (\<lambda>_. InnerPacketOpenError) (inner_decode E b)) (\<lambda>(ip, fp). Inr (Received fp ip))
     else Inr (GarbledReply (of_be_bytes (take 8 md)) b))"
  using assms by (simp add: peel_def Let_def)

text \<open>What the creator of the block makes of a reply.\<close>

lemma reply_arrives:
  assumes laws: "packet_laws E" and g: "length garbage = 621" and wf: "wf_inner payload" and r: "route_for E sks route"
    and new: "reply_block_new E eph garbage rb_id route (onion_public_of E osk) aosk aisk = Inr (rb, (i, d))"
    and id: "rb_id \<noteq> 0" and enc: "inner_encode E payload isk = Inr raw"
  obtains last b where "relay_path E sks \<lparr>header = rb_header rb, onion_body = raw\<rparr> = Some (map next_fingerprint route, last)"
    and "peel E last osk = Inr (GarbledReply rb_id b)" and "degarble E d b = Inr (payload, my_fingerprint E isk)"
proof -
  let ?pkt = "\<lparr>header = rb_header rb, onion_body = raw\<rparr>"
  obtain last pk where last: "relay_path E sks ?pkt = Some (map next_fingerprint route, last)"
    and dec: "box_decrypt E (outer (header last)) osk = Inr (0 # rb_metadata rb_id, pk)"
    and body: "stream_dencrypt E (body_key E (shared_secret E osk pk)) zero_nonce (onion_body last)
          = body_layers E (rev (shared_secs d)) raw"
    by (rule reply_travels [OF laws g r new, of ?pkt]) simp_all
  have "degarble E d (body_layers E (rev (shared_secs d)) raw) = Inr (payload, my_fingerprint E isk)"
    using laws wf enc body_layers_cancel [of E "rev (shared_secs d)" raw]
    by (simp add: degarble_layers inner_decode_encode)
  moreover have "peel E last osk = Inr (GarbledReply rb_id (body_layers E (rev (shared_secs d)) raw))"
    using peel_own [OF dec length_rb_metadata body] id by (simp add: rb_metadata_zero_iff rb_metadata_id)
  ultimately show ?thesis using last that by blast
qed

section \<open>Theorems\<close>

text \<open>
  (C6) Reply delivery.  A reply sent with a reply block travels over the block's route back to its
  creator, who sees a garbled reply carrying the block's identifier (unless that is zero); the
  degarbler kept for that identifier recovers exactly the payload and the sender's fingerprint.
\<close>

theorem reply_delivery:
  assumes "packet_laws E" and "length garbage = 621" and "wf_inner payload" and "route_for E sks route"
    and "reply_block_new E eph garbage rb_id route (onion_public_of E osk) aosk aisk = Inr (rb, (i, d))"
    and "rb_id \<noteq> 0" and "new_reply E rb payload isk = Inr pkt"
  shows "i = rb_id \<and>
    (\<exists>last b. relay_path E sks pkt = Some (map next_fingerprint route, last)
       \<and> peel E last osk = Inr (GarbledReply i b)
       \<and> degarble E d b = Inr (payload, my_fingerprint E isk))"
proof -
  obtain raw where enc: "inner_encode E payload isk = Inr raw"
    and pkt: "pkt = \<lparr>header = rb_header rb, onion_body = raw\<rparr>"
    using assms(7) by (auto simp: new_reply_def res_simps)
  have i: "i = rb_id" using assms(5) by (auto simp: reply_block_new_def Let_def res_simps)
  show ?thesis unfolding pkt i using reply_arrives [OF assms(1-6) enc] by blast
qed

lemma demo_rb_size:
  "length (bincode_serialize demo_env (Message \<lparr>source_dock = 0, dest_dock = 0, body = [[]]\<rparr>)) \<le> 8172"
  by (simp add: demo_env_def crypto.defs demo_serialize_def put_message_def put_nat_def put_bytes_def)

theorem reply_delivery_witness:
  "\<exists>rb d pkt last b.
     reply_block_new demo_env (\<lambda>k. OnionSecret [of_nat k]) (replicate 621 9) 77 demo_route
       (onion_public_of demo_env (OnionSecret [2])) (OnionSecret [4]) (IdentitySecret [5]) = Inr (rb, (77, d))
     \<and> new_reply demo_env rb demo_message (IdentitySecret [3]) = Inr pkt
     \<and> relay_path demo_env [OnionSecret [1]] pkt = Some (map next_fingerprint demo_route, last)
     \<and> peel demo_env last (OnionSecret [2]) = Inr (GarbledReply 77 b)
     \<and> degarble demo_env d b = Inr (demo_message, my_fingerprint demo_env (IdentitySecret [3]))"
proof -
  obtain rb d where new: "reply_block_new demo_env (\<lambda>k. OnionSecret [of_nat k]) (replicate 621 9) 77 demo_route
       (onion_public_of demo_env (OnionSecret [2])) (OnionSecret [4]) (IdentitySecret [5]) = Inr (rb, (77, d))"
    using reply_block_new_total [OF demo_packet_laws demo_route_for demo_rb_size] by blast
  obtain raw where "inner_encode demo_env demo_message (IdentitySecret [3]) = Inr raw"
    using demo_message_facts(2) inner_encode_ok_iff by blast
  then obtain pkt where pkt: "new_reply demo_env rb demo_message (IdentitySecret [3]) = Inr pkt"
    by (simp add: new_reply_def)
  show ?thesis
    using reply_delivery [OF demo_packet_laws _ demo_message_facts(1) demo_route_for(1) new _ pkt] new pkt
    by auto
qed

text \<open>
  The identifier zero.  A reply block drawn with identifier zero is never recognised as a
  garbled reply: its creator takes the still garbled body for an ordinary packet.
\<close>

theorem reply_id_zero_lost:
  assumes "packet_laws E" and "length garbage = 621" and "route_for E sks route"
    and "reply_block_new E eph garbage 0 route (onion_public_of E osk) aosk aisk = Inr (rb, (i, d))"
    and "new_reply E rb payload isk = Inr pkt"
  shows "\<exists>last. relay_path E sks pkt = Some (map next_fingerprint route, last)
           \<and> (\<forall>j b. peel E last osk \<noteq> Inr (GarbledReply j b))"
proof -
  have hdr: "header pkt = rb_header rb" using assms(5) by (auto simp: new_reply_def res_simps)
  obtain last pk where last: "relay_path E sks pkt = Some (map next_fingerprint route, last)"
    and dec: "box_decrypt E (outer (header last)) osk = Inr (0 # rb_metadata 0, pk)"
    using reply_travels [OF assms(1-4) hdr] by blast
  have "peel E last osk \<noteq> Inr (GarbledReply j b)" for j b
    using peel_own [OF dec length_rb_metadata refl] rb_metadata_zero_iff [of 0]
    by (auto simp: res_simps split: prod.splits)
  with last show ?thesis by auto
qed

theorem reply_id_zero_lost_witness:
  "\<exists>rb d pkt last.
     reply_block_new demo_env (\<lambda>k. OnionSecret [of_nat k]) (replicate 621 9) 0 demo_route
       (onion_public_of demo_env (OnionSecret [2])) (OnionSecret [4]) (IdentitySecret [5]) = Inr (rb, (0, d))
     \<and> new_reply demo_env rb demo_message (IdentitySecret [3]) = Inr pkt
     \<and> relay_path demo_env [OnionSecret [1]] pkt = Some (map next_fingerprint demo_route, last)
     \<and> (\<forall>j b. peel demo_env last (OnionSecret [2]) \<noteq> Inr (GarbledReply j b))"
proof -
  obtain rb d where new: "reply_block_new demo_env (\<lambda>k. OnionSecret [of_nat k]) (replicate 621 9) 0 demo_route
       (onion_public_of demo_env (OnionSecret [2])) (OnionSecret [4]) (IdentitySecret [5]) = Inr (rb, (0, d))"
    using reply_block_new_total [OF demo_packet_laws demo_route_for demo_rb_size] by blast
  obtain raw where "inner_encode demo_env demo_message (IdentitySecret [3]) = Inr raw"
    using demo_message_facts(2) inner_encode_ok_iff by blast
  then obtain pkt where pkt: "new_reply demo_env rb demo_message (IdentitySecret [3]) = Inr pkt"
    by (simp add: new_reply_def)
  show ?thesis
    using reply_id_zero_lost [OF demo_packet_laws _ demo_route_for(1) new pkt] new pkt by auto
qed

end
