(* ===== verification/Signed_Document.thy ===== *)
theory Signed_Document
  imports Crypt
begin

text \<open>
  The signing convention shared by identity descriptors, adjacency descriptors, haven locators,
  haven registrations and handshakes: the signed digest is computed on a copy of the document with
  its signature cleared.  The locale states what every \<open>to_sign\<close> promises; the client lemmas show
  that a document signed this way verifies and that verification is blind to nothing but the
  signature itself.  Each document type interprets it in its own theory.
\<close>

locale signed_document =
  fixes digest :: "'z crypto_scheme \<Rightarrow> 'd \<Rightarrow> bytes"
    and set_sig :: "bytes \<Rightarrow> 'd \<Rightarrow> 'd"
    and get_sig :: "'d \<Rightarrow> bytes"
  assumes digest_set_sig: "digest C (set_sig s d) = digest C d"
    and get_set_sig: "get_sig (set_sig s d) = s"
begin

text \<open>Signing a document with an identity makes it verify under that identity's public key.\<close>

lemma signed_verifies:
  assumes "ed25519_laws C"
  shows "verify C (identity_public_of C isk)
           (digest C (set_sig (sign C isk (digest C d)) d))
           (get_sig (set_sig (sign C isk (digest C d)) d)) = Inr ()"
  using assms by (simp add: digest_set_sig get_set_sig)

text \<open>Replacing the signature leaves the signed content alone.\<close>

lemma resign: "digest C (set_sig s (set_sig s' d)) = digest C d"
  by (simp add: digest_set_sig)

end

end
