(* ===== verification/Topology.thy ===== *)
theory Topology
  imports Reply_Block Signed_Document "HOL-Library.Product_Lexorder"
begin

text \<open>
  \<open>libraries/earendil_topology/src/lib.rs\<close>: the relay graph, its descriptors and their checks.
  Hash maps are HOL maps, hash sets are sets; the iteration order of the library's hash maps and
  hash sets, which the language leaves open, is given by the \<open>_iter\<close> fields of the environment
  \<open>topo_env\<close>, as is the stdcode serialisation.  The current time is an argument.  The subtraction
  of timestamps wraps, as the release profile of the crate computes it.
\<close>

section \<open>Data\<close>

record adjacency_descriptor =
  left :: fingerprint
  right :: fingerprint
  left_sig :: bytes
  right_sig :: bytes
  adj_timestamp :: u64

record identity_descriptor =
  is_relay :: bool
  identity_pk :: identity_public
  onion_pk :: onion_public
  id_sig :: bytes
  id_timestamp :: u64

record relay_graph =
  unalloc_id :: u64
  fp_to_id :: "fingerprint \<rightharpoonup> u64"
  id_to_fp :: "u64 \<rightharpoonup> fingerprint"
  id_to_descriptor :: "u64 \<rightharpoonup> identity_descriptor"
  adjacency :: "u64 \<rightharpoonup> u64 set"
  documents :: "(u64 \<times> u64) \<rightharpoonup> adjacency_descriptor"

datatype adjacency_error =
    LeftNotSmallerThanRight | LeftIdentityNotFound | RightIdentityNotFound | InvalidSignatures

record topo_env = packet_env +
  stdcode_adjacency :: "adjacency_descriptor \<Rightarrow> bytes"
  stdcode_identity :: "identity_descriptor \<Rightarrow> bytes"
  ids_iter :: "(u64 \<rightharpoonup> identity_descriptor) \<Rightarrow> u64 list"
  docs_iter :: "((u64 \<times> u64) \<rightharpoonup> adjacency_descriptor) \<Rightarrow> (u64 \<times> u64) list"
  nbs_iter :: "u64 set \<Rightarrow> u64 list"
  fps_iter :: "(fingerprint \<rightharpoonup> u64) \<Rightarrow> fingerprint list"

text \<open>Iteration visits every entry exactly once.\<close>

definition iter_laws :: "'z topo_env_scheme \<Rightarrow> bool" where
  "iter_laws E \<longleftrightarrow>
     (\<forall>m. set (ids_iter E m) = dom m \<and> distinct (ids_iter E m)) \<and>
     (\<forall>m. set (docs_iter E m) = dom m \<and> distinct (docs_iter E m)) \<and>
     (\<forall>s. set (nbs_iter E s) = s \<and> distinct (nbs_iter E s)) \<and>
     (\<forall>m. finite (dom m) \<longrightarrow> set (fps_iter E m) = dom m \<and> distinct (fps_iter E m))"

section \<open>Descriptors\<close>

definition adjacency_to_sign :: "'z topo_env_scheme \<Rightarrow> adjacency_descriptor \<Rightarrow> bytes" where
  "adjacency_to_sign E a =
     blake3_keyed_hash E (bytes_of_string ''adjacency_descriptor____________'')
       (stdcode_adjacency E (a\<lparr>left_sig := [], right_sig := []\<rparr>))"

definition identity_to_sign :: "'z topo_env_scheme \<Rightarrow> identity_descriptor \<Rightarrow> bytes" where
  "identity_to_sign E d =
     blake3_keyed_hash E (bytes_of_string ''identity_descriptor_____________'')
       (stdcode_identity E (d\<lparr>id_sig := []\<rparr>))"

definition identity_descriptor_new ::
    "'z topo_env_scheme \<Rightarrow> u64 \<Rightarrow> identity_secret \<Rightarrow> onion_secret \<Rightarrow> bool \<Rightarrow> identity_descriptor" where
  "identity_descriptor_new E now my_identity my_onion relay =
     (let descr = \<lparr>is_relay = relay, identity_pk = identity_public_of E my_identity,
                   onion_pk = onion_public_of E my_onion, id_sig = [], id_timestamp = now\<rparr>
      in descr\<lparr>id_sig := sign E my_identity (identity_to_sign E descr)\<rparr>)"

section \<open>The graph\<close>

definition relay_graph_new :: relay_graph where
  "relay_graph_new = \<lparr>unalloc_id = 0, fp_to_id = Map.empty, id_to_fp = Map.empty,
     id_to_descriptor = Map.empty, adjacency = Map.empty, documents = Map.empty\<rparr>"

definition graph_id :: "relay_graph \<Rightarrow> fingerprint \<Rightarrow> u64 option" where
  "graph_id g fp = fp_to_id g fp"

definition identity :: "relay_graph \<Rightarrow> fingerprint \<Rightarrow> identity_descriptor option" where
  "identity g fp = Option.bind (graph_id g fp) (id_to_descriptor g)"

definition alloc_id :: "relay_graph \<Rightarrow> fingerprint \<Rightarrow> relay_graph \<times> u64" where
  "alloc_id g fp =
     (case fp_to_id g fp of
        Some val \<Rightarrow> (g, val)
      | None \<Rightarrow>
          let i = unalloc_id g
          in (g\<lparr>unalloc_id := i + 1, fp_to_id := (fp_to_id g)(fp \<mapsto> i), id_to_fp := (id_to_fp g)(i \<mapsto> fp)\<rparr>, i))"

definition insert_identity ::
    "'z topo_env_scheme \<Rightarrow> relay_graph \<Rightarrow> identity_descriptor \<Rightarrow> (verify_error + unit) \<times> relay_graph" where
  "insert_identity E g d =
     (case verify E (identity_pk d) (identity_to_sign E d) (id_sig d) of
        Inl e \<Rightarrow> (Inl e, g)
      | Inr _ \<Rightarrow>
          let (g', i) = alloc_id g (fingerprint_of E (identity_pk d))
          in (Inr (), g'\<lparr>id_to_descriptor := (id_to_descriptor g')(i \<mapsto> d)\<rparr>))"

definition verify_adjacency ::
    "'z topo_env_scheme \<Rightarrow> relay_graph \<Rightarrow> adjacency_descriptor \<Rightarrow> adjacency_error + unit" where
  "verify_adjacency E g adj =
     (if \<not> left adj < right adj then Inl LeftNotSmallerThanRight
      else case identity g (left adj) of
        None \<Rightarrow> Inl LeftIdentityNotFound
      | Some l \<Rightarrow>
          (case identity g (right adj) of
             None \<Rightarrow> Inl RightIdentityNotFound
           | Some r \<Rightarrow>
               let to_sign = adjacency_to_sign E adj;
                   left_valid = (verify E (identity_pk l) to_sign (left_sig adj) = Inr ());
                   right_valid = (verify E (identity_pk r) to_sign (right_sig adj) = Inr ())
               in if \<not> left_valid \<or> \<not> right_valid then Inl InvalidSignatures else Inr ()))"

subsection \<open>Cleanup\<close>

definition ROUTE_TIMEOUT :: u64 where
  "ROUTE_TIMEOUT = 60 * 60"

definition outdated :: "u64 \<Rightarrow> u64 \<Rightarrow> bool" where
  "outdated now timestamp \<longleftrightarrow> now - timestamp > ROUTE_TIMEOUT"

definition remove_identity :: "u64 \<Rightarrow> relay_graph \<Rightarrow> relay_graph" where
  "remove_identity i g =
     (case id_to_fp g i of
        Some fp \<Rightarrow> g\<lparr>id_to_descriptor := (id_to_descriptor g)(i := None),
                     id_to_fp := (id_to_fp g)(i := None), fp_to_id := (fp_to_id g)(fp := None)\<rparr>
      | None \<Rightarrow> g\<lparr>id_to_descriptor := (id_to_descriptor g)(i := None)\<rparr>)"

definition drop_neighbor :: "u64 \<Rightarrow> u64 \<Rightarrow> (u64 \<rightharpoonup> u64 set) \<Rightarrow> (u64 \<rightharpoonup> u64 set)" where
  "drop_neighbor i j adj = (case adj i of None \<Rightarrow> adj | Some s \<Rightarrow> adj(i \<mapsto> s - {j}))"

definition remove_document :: "u64 \<times> u64 \<Rightarrow> relay_graph \<Rightarrow> relay_graph" where
  "remove_document k g =
     (let (l, r) = k
      in g\<lparr>documents := (documents g)((l, r) := None),
           adjacency := drop_neighbor r l (drop_neighbor l r (adjacency g))\<rparr>)"

definition cleanup :: "'z topo_env_scheme \<Rightarrow> u64 \<Rightarrow> relay_graph \<Rightarrow> relay_graph" where
  "cleanup E now g =
     (let outdated_identities = filter (\<lambda>i. case id_to_descriptor g i of
              None \<Rightarrow> False | Some d \<Rightarrow> outdated now (id_timestamp d)) (ids_iter E (id_to_descriptor g));
          g1 = fold remove_identity outdated_identities g;
          outdated_documents = filter (\<lambda>(l, r). l \<in> set outdated_identities \<or> r \<in> set outdated_identities \<or>
              (case documents g1 (l, r) of None \<Rightarrow> False | Some a \<Rightarrow> outdated now (adj_timestamp a)))
              (docs_iter E (documents g1));
          g2 = fold remove_document outdated_documents g1
      in g2\<lparr>adjacency := (\<lambda>i. case adjacency g2 i of
              Some s \<Rightarrow> if s = {} then None else Some s | None \<Rightarrow> None)\<rparr>)"

subsection \<open>Adjacencies\<close>

definition add_neighbor :: "u64 \<Rightarrow> u64 \<Rightarrow> (u64 \<rightharpoonup> u64 set) \<Rightarrow> (u64 \<rightharpoonup> u64 set)" where
  "add_neighbor i j adj = adj(i \<mapsto> insert j (case adj i of None \<Rightarrow> {} | Some s \<Rightarrow> s))"

definition insert_adjacency ::
    "'z topo_env_scheme \<Rightarrow> u64 \<Rightarrow> relay_graph \<Rightarrow> adjacency_descriptor \<Rightarrow> (adjacency_error + unit) \<times> relay_graph" where
  "insert_adjacency E now g adj =
     (case verify_adjacency E g adj of
        Inl e \<Rightarrow> (Inl e, g)
      | Inr _ \<Rightarrow>
          let (g1, left_id) = alloc_id g (left adj);
              (g2, right_id) = alloc_id g1 (right adj);
              g3 = g2\<lparr>documents := (documents g2)((left_id, right_id) \<mapsto> adj)\<rparr>;
              g4 = g3\<lparr>adjacency := add_neighbor right_id left_id (add_neighbor left_id right_id (adjacency g3))\<rparr>
          in (Inr (), cleanup E now g4))"

text \<open>
  The iterator of \<open>adjacencies\<close> indexes maps as it goes; a missing key panics.
\<close>

definition adjacencies ::
    "'z topo_env_scheme \<Rightarrow> relay_graph \<Rightarrow> fingerprint \<Rightarrow> (unit, adjacency_descriptor list) res option" where
  "adjacencies E g fp =
     (case graph_id g fp of None \<Rightarrow> None
      | Some i \<Rightarrow>
          (case adjacency g i of None \<Rightarrow> None
           | Some s \<Rightarrow> Some (collect_res (\<lambda>neigh_id.
               bind_res (unwrap (id_to_fp g neigh_id)) (\<lambda>neigh.
                 if fp < neigh then unwrap (documents g (i, neigh_id))
                 else unwrap (documents g (neigh_id, i)))) (nbs_iter E s))))"

definition all_adjacencies :: "'z topo_env_scheme \<Rightarrow> relay_graph \<Rightarrow> adjacency_descriptor list" where
  "all_adjacencies E g = List.map_filter (documents g) (docs_iter E (documents g))"

definition all_nodes :: "'z topo_env_scheme \<Rightarrow> relay_graph \<Rightarrow> fingerprint list" where
  "all_nodes E g = fps_iter E (fp_to_id g)"

text \<open>\<open>draw\<close> is the random index, below the number of documents.\<close>

definition random_adjacency ::
    "'z topo_env_scheme \<Rightarrow> nat \<Rightarrow> relay_graph \<Rightarrow> adjacency_descriptor option" where
  "random_adjacency E draw g =
     (let ds = all_adjacencies E g
      in if ds = [] then None else if draw < length ds then Some (ds ! draw) else None)"

section \<open>Signing contracts\<close>

interpretation id_doc: signed_document
    "\<lambda>E. identity_to_sign (E :: 'z topo_env_scheme)" "\<lambda>s d. d\<lparr>id_sig := s\<rparr>" id_sig
  by unfold_locales (simp_all add: identity_to_sign_def)

interpretation adj_left: signed_document
    "\<lambda>E. adjacency_to_sign (E :: 'z topo_env_scheme)" "\<lambda>s a. a\<lparr>left_sig := s\<rparr>" left_sig
  by unfold_locales (simp_all add: adjacency_to_sign_def)

interpretation adj_right: signed_document
    "\<lambda>E. adjacency_to_sign (E :: 'z topo_env_scheme)" "\<lambda>s a. a\<lparr>right_sig := s\<rparr>" right_sig
  by unfold_locales (simp_all add: adjacency_to_sign_def)

section \<open>The invariant of the graph\<close>

definition nbrs :: "(u64 \<rightharpoonup> u64 set) \<Rightarrow> u64 \<Rightarrow> u64 set" where
  "nbrs adj i = (case adj i of None \<Rightarrow> {} | Some s \<Rightarrow> s)"

text \<open>
  Identifiers and fingerprints are in bijection, exactly the identifiers in use have a descriptor,
  and every descriptor is properly signed and filed under its own fingerprint.
\<close>

definition ids_ok :: "'z topo_env_scheme \<Rightarrow> relay_graph \<Rightarrow> bool" where
  "ids_ok E g \<longleftrightarrow>
     (\<forall>fp i. fp_to_id g fp = Some i \<longleftrightarrow> id_to_fp g i = Some fp) \<and>
     dom (id_to_fp g) = dom (id_to_descriptor g) \<and>
     (\<forall>i d. id_to_descriptor g i = Some d \<longrightarrow>
        id_to_fp g i = Some (fingerprint_of E (identity_pk d)) \<and>
        verify E (identity_pk d) (identity_to_sign E d) (id_sig d) = Inr ()) \<and>
     (\<forall>i. i \<in> dom (id_to_fp g) \<longrightarrow> i < unalloc_id g)"

text \<open>The adjacency sets are the symmetric closure of the stored documents.\<close>

definition links_ok :: "relay_graph \<Rightarrow> bool" where
  "links_ok g \<longleftrightarrow>
     (\<forall>l r. (l, r) \<in> dom (documents g) \<longrightarrow> (r, l) \<notin> dom (documents g)) \<and>
     (\<forall>l r. r \<in> nbrs (adjacency g) l \<longleftrightarrow> (l, r) \<in> dom (documents g) \<or> (r, l) \<in> dom (documents g))"

text \<open>Every document joins the two known nodes it names and carries a signature of each.\<close>

definition signed_by :: "'z topo_env_scheme \<Rightarrow> fingerprint \<Rightarrow> bytes \<Rightarrow> bytes \<Rightarrow> bool" where
  "signed_by E fp msg sg \<longleftrightarrow> (\<exists>pk. fingerprint_of E pk = fp \<and> verify E pk msg sg = Inr ())"

definition docs_ok :: "'z topo_env_scheme \<Rightarrow> relay_graph \<Rightarrow> bool" where
  "docs_ok E g \<longleftrightarrow>
     (\<forall>l r a. documents g (l, r) = Some a \<longrightarrow>
        id_to_fp g l = Some (left a) \<and> id_to_fp g r = Some (right a) \<and> left a < right a \<and>
        signed_by E (left a) (adjacency_to_sign E a) (left_sig a) \<and>
        signed_by E (right a) (adjacency_to_sign E a) (right_sig a))"

definition no_empty_sets :: "relay_graph \<Rightarrow> bool" where
  "no_empty_sets g \<longleftrightarrow> (\<forall>i. adjacency g i \<noteq> Some {})"

definition graph_inv :: "'z topo_env_scheme \<Rightarrow> relay_graph \<Rightarrow> bool" where
  "graph_inv E g \<longleftrightarrow> ids_ok E g \<and> links_ok g \<and> docs_ok E g \<and> no_empty_sets g"

lemma ids_okD:
  assumes "ids_ok E g"
  shows "fp_to_id g fp = Some i \<longleftrightarrow> id_to_fp g i = Some fp"
    and "dom (id_to_fp g) = dom (id_to_descriptor g)"
    and "id_to_descriptor g i = Some d \<Longrightarrow> id_to_fp g i = Some (fingerprint_of E (identity_pk d))"
    and "id_to_descriptor g i = Some d \<Longrightarrow> verify E (identity_pk d) (identity_to_sign E d) (id_sig d) = Inr ()"
    and "id_to_fp g i = Some fp \<Longrightarrow> i < unalloc_id g"
  using assms unfolding ids_ok_def by blast+

lemma fp_to_id_inject:
  assumes "ids_ok E g" "id_to_fp g i = Some fp" "id_to_fp g j = Some fp"
  shows "i = j"
  using assms ids_okD(1) by (metis option.inject)

lemma identity_Some:
  assumes "ids_ok E g" "identity g fp = Some d"
  obtains i where "fp_to_id g fp = Some i" "id_to_fp g i = Some fp" "id_to_descriptor g i = Some d"
    "fingerprint_of E (identity_pk d) = fp"
proof -
  obtain i where i: "fp_to_id g fp = Some i" "id_to_descriptor g i = Some d"
    using assms(2) by (auto simp: identity_def graph_id_def bind_eq_Some_conv)
  moreover have "id_to_fp g i = Some fp" using i(1) ids_okD(1)[OF assms(1)] by blast
  moreover have "fingerprint_of E (identity_pk d) = fp"
    using ids_okD(3)[OF assms(1) i(2)] calculation(3) by simp
  ultimately show thesis using that by blast
qed

lemma nbrs_drop_neighbor [simp]:
  "nbrs (drop_neighbor i j adj) k = (if k = i then nbrs adj k - {j} else nbrs adj k)"
  by (auto simp: nbrs_def drop_neighbor_def split: option.splits)

lemma nbrs_add_neighbor [simp]:
  "nbrs (add_neighbor i j adj) k = (if k = i then insert j (nbrs adj k) else nbrs adj k)"
  by (auto simp: nbrs_def add_neighbor_def split: option.splits)

subsection \<open>Identities\<close>

lemma relay_graph_new_inv: "graph_inv E relay_graph_new"
  by (simp add: graph_inv_def ids_ok_def links_ok_def docs_ok_def no_empty_sets_def relay_graph_new_def nbrs_def)

lemma word_less_succ:
  fixes n :: u64
  assumes "n \<noteq> - 1"
  shows "n < n + 1" and "m < n \<Longrightarrow> m < n + 1"
proof -
  have "n + 1 \<noteq> 0" using assms by (metis add.commute add_eq_0_iff)
  then have u: "unat (n + 1) = unat n + 1" by (simp add: unatSuc add.commute)
  show "n < n + 1" using u by (simp add: word_less_nat_alt)
  show "m < n \<Longrightarrow> m < n + 1" using u by (simp add: word_less_nat_alt)
qed

lemma insert_identity_known:
  assumes "verify E (identity_pk d) (identity_to_sign E d) (id_sig d) = Inr u"
    and "fp_to_id g (fingerprint_of E (identity_pk d)) = Some i"
  shows "insert_identity E g d = (Inr (), g\<lparr>id_to_descriptor := (id_to_descriptor g)(i \<mapsto> d)\<rparr>)"
  using assms by (simp add: insert_identity_def alloc_id_def)

lemma insert_identity_fresh:
  assumes "verify E (identity_pk d) (identity_to_sign E d) (id_sig d) = Inr u"
    and "fp_to_id g (fingerprint_of E (identity_pk d)) = None"
  shows "insert_identity E g d = (Inr (), g\<lparr>unalloc_id := unalloc_id g + 1,
           fp_to_id := (fp_to_id g)(fingerprint_of E (identity_pk d) \<mapsto> unalloc_id g),
           id_to_fp := (id_to_fp g)(unalloc_id g \<mapsto> fingerprint_of E (identity_pk d)),
           id_to_descriptor := (id_to_descriptor g)(unalloc_id g \<mapsto> d)\<rparr>)"
  using assms by (simp add: insert_identity_def alloc_id_def Let_def)

lemma insert_identity_inv:
  assumes inv: "graph_inv E g" and room: "unalloc_id g \<noteq> - 1"
  shows "graph_inv E (snd (insert_identity E g d))"
proof (cases "verify E (identity_pk d) (identity_to_sign E d) (id_sig d)")
  case (Inl e) then show ?thesis using inv by (simp add: insert_identity_def)
next
  case (Inr u)
  have ids: "ids_ok E g" and rest: "links_ok g" "docs_ok E g" "no_empty_sets g"
    using inv by (auto simp: graph_inv_def)
  show ?thesis
  proof (cases "fp_to_id g (fingerprint_of E (identity_pk d))")
    case (Some i)
    then have "id_to_fp g i = Some (fingerprint_of E (identity_pk d))" using ids_okD(1)[OF ids] by blast
    then have "ids_ok E (g\<lparr>id_to_descriptor := (id_to_descriptor g)(i \<mapsto> d)\<rparr>)"
      using ids Inr unfolding ids_ok_def by auto
    then show ?thesis unfolding insert_identity_known[OF Inr Some] using rest
      by (simp add: graph_inv_def links_ok_def docs_ok_def no_empty_sets_def)
  next
    case None
    let ?i = "unalloc_id g"
    let ?g = "snd (insert_identity E g d)"
    have fresh: "id_to_fp g ?i = None"
      using ids_okD(5)[OF ids, of ?i] by (cases "id_to_fp g ?i") auto
    have notfp: "id_to_fp g j \<noteq> Some (fingerprint_of E (identity_pk d))" for j
      using None ids_okD(1)[OF ids, of "fingerprint_of E (identity_pk d)" j] by auto
    have unused: "fp_to_id g fp \<noteq> Some ?i" for fp using fresh ids_okD(1)[OF ids, of fp ?i] by auto
    have "ids_ok E ?g"
      using Inr fresh notfp unused ids word_less_succ[OF room]
      unfolding insert_identity_fresh[OF Inr None] ids_ok_def by auto
    moreover have "docs_ok E ?g"
      using fresh rest(2) unfolding insert_identity_fresh[OF Inr None] docs_ok_def by fastforce
    ultimately show ?thesis using rest
      by (simp add: insert_identity_fresh[OF Inr None] graph_inv_def links_ok_def no_empty_sets_def)
  qed
qed

subsection \<open>Cleanup\<close>

lemma remove_identity_ids_ok:
  assumes "ids_ok E g"
  shows "ids_ok E (remove_identity i g)"
proof (cases "id_to_fp g i")
  case None
  then have "id_to_descriptor g i = None" using ids_okD(2)[OF assms] by (metis domIff)
  then have "remove_identity i g = g" using None by (simp add: remove_identity_def fun_upd_idem)
  then show ?thesis using assms by simp
next
  case (Some fp)
  have "fp_to_id g fp = Some i" using Some ids_okD(1)[OF assms] by blast
  moreover have "id_to_fp g j \<noteq> Some fp" if "j \<noteq> i" for j
    using fp_to_id_inject[OF assms Some] that by blast
  ultimately show ?thesis using assms Some unfolding ids_ok_def remove_identity_def by auto
qed

lemma remove_identities:
  assumes "ids_ok E g"
  shows "ids_ok E (fold remove_identity xs g)"
    and "documents (fold remove_identity xs g) = documents g"
    and "adjacency (fold remove_identity xs g) = adjacency g"
    and "unalloc_id (fold remove_identity xs g) = unalloc_id g"
    and "id_to_fp (fold remove_identity xs g) = (id_to_fp g) |` (- set xs)"
    and "id_to_descriptor (fold remove_identity xs g) = (id_to_descriptor g) |` (- set xs)"
proof -
  have step: "documents (remove_identity i h) = documents h" "adjacency (remove_identity i h) = adjacency h"
    "unalloc_id (remove_identity i h) = unalloc_id h"
    "id_to_fp (remove_identity i h) = (id_to_fp h) |` (- {i})"
    "id_to_descriptor (remove_identity i h) = (id_to_descriptor h) |` (- {i})" for i h
    by (auto simp: remove_identity_def restrict_map_def split: option.splits)
  show "ids_ok E (fold remove_identity xs g)"
    using assms by (induction xs arbitrary: g) (simp_all add: remove_identity_ids_ok)
  show "documents (fold remove_identity xs g) = documents g" by (rule fold_same) (rule step)
  show "adjacency (fold remove_identity xs g) = adjacency g" by (rule fold_same) (rule step)
  show "unalloc_id (fold remove_identity xs g) = unalloc_id g" by (rule fold_same) (rule step)
  show "id_to_fp (fold remove_identity xs g) = (id_to_fp g) |` (- set xs)"
    by (rule fold_restrict) (rule step)
  show "id_to_descriptor (fold remove_identity xs g) = (id_to_descriptor g) |` (- set xs)"
    by (rule fold_restrict) (rule step)
qed

lemma remove_document_links_ok:
  assumes "links_ok g" "k \<in> dom (documents g)"
  shows "links_ok (remove_document k g)"
  using assms unfolding links_ok_def remove_document_def Let_def
  by (cases k) (auto split: if_splits)

lemma remove_documents:
  assumes "links_ok g" "set ks \<subseteq> dom (documents g)" "distinct ks"
  shows "links_ok (fold remove_document ks g)"
    and "documents (fold remove_document ks g) = (documents g) |` (- set ks)"
proof -
  have step: "documents (remove_document k h) = (documents h) |` (- {k})" for k h
    by (auto simp: remove_document_def restrict_map_def split: prod.splits)
  show "links_ok (fold remove_document ks g)"
    using assms
  proof (induction ks arbitrary: g)
    case (Cons k ks)
    have "set ks \<subseteq> dom (documents (remove_document k g))" using Cons.prems by (auto simp: step)
    then show ?case using Cons remove_document_links_ok[of g k] by simp
  qed simp
  show "documents (fold remove_document ks g) = (documents g) |` (- set ks)"
    by (rule fold_restrict) (rule step)
qed

lemma remove_documents_ids:
  "id_to_fp (fold remove_document ks g) = id_to_fp g"
  "fp_to_id (fold remove_document ks g) = fp_to_id g"
  "id_to_descriptor (fold remove_document ks g) = id_to_descriptor g"
  "unalloc_id (fold remove_document ks g) = unalloc_id g"
  by (induction ks arbitrary: g) (simp_all add: remove_document_def Let_def split: prod.splits)

text \<open>What \<open>cleanup\<close> keeps: exactly the entries that are not outdated.\<close>

definition stale_id :: "u64 \<Rightarrow> relay_graph \<Rightarrow> u64 \<Rightarrow> bool" where
  "stale_id now g i \<longleftrightarrow> (\<exists>d. id_to_descriptor g i = Some d \<and> outdated now (id_timestamp d))"

definition stale_doc :: "u64 \<Rightarrow> relay_graph \<Rightarrow> u64 \<times> u64 \<Rightarrow> bool" where
  "stale_doc now g k \<longleftrightarrow> stale_id now g (fst k) \<or> stale_id now g (snd k) \<or>
     (\<exists>a. documents g k = Some a \<and> outdated now (adj_timestamp a))"

lemma cleanup_effect:
  assumes ids: "ids_ok E g" and links: "links_ok g" and iter: "iter_laws E"
  shows "ids_ok E (cleanup E now g)"
    and "links_ok (cleanup E now g)"
    and "no_empty_sets (cleanup E now g)"
    and "id_to_fp (cleanup E now g) = (id_to_fp g) |` {i. \<not> stale_id now g i}"
    and "id_to_descriptor (cleanup E now g) = (id_to_descriptor g) |` {i. \<not> stale_id now g i}"
    and "documents (cleanup E now g) = (documents g) |` {k. \<not> stale_doc now g k}"
    and "unalloc_id (cleanup E now g) = unalloc_id g"
proof -
  define xs where "xs = filter (\<lambda>i. case id_to_descriptor g i of
      None \<Rightarrow> False | Some d \<Rightarrow> outdated now (id_timestamp d)) (ids_iter E (id_to_descriptor g))"
  define g1 where "g1 = fold remove_identity xs g"
  define ks where "ks = filter (\<lambda>(l, r). l \<in> set xs \<or> r \<in> set xs \<or>
      (case documents g1 (l, r) of None \<Rightarrow> False | Some a \<Rightarrow> outdated now (adj_timestamp a)))
      (docs_iter E (documents g1))"
  define g2 where "g2 = fold remove_document ks g1"
  have c: "cleanup E now g = g2\<lparr>adjacency := (\<lambda>i. case adjacency g2 i of
              Some s \<Rightarrow> if s = {} then None else Some s | None \<Rightarrow> None)\<rparr>"
    by (simp add: cleanup_def xs_def g1_def ks_def g2_def Let_def)
  have xs: "set xs = {i. stale_id now g i}"
    using iter by (auto simp: xs_def stale_id_def iter_laws_def split: option.splits)
  have docs1: "documents g1 = documents g" by (simp add: g1_def remove_identities[OF ids])
  have ks: "set ks = {k \<in> dom (documents g). stale_doc now g k}" "distinct ks"
    using iter xs
    by (auto simp: ks_def stale_doc_def iter_laws_def docs1 split: option.splits)
  have links1: "links_ok g1"
    using links by (simp add: links_ok_def g1_def remove_identities[OF ids])
  have sub: "set ks \<subseteq> dom (documents g1)" using ks(1) docs1 by auto
  note r = remove_documents[OF links1 sub ks(2), folded g2_def]
  have same: "nbrs (adjacency (cleanup E now g)) i = nbrs (adjacency g2) i" for i
    by (auto simp: c nbrs_def split: option.splits)
  have ids1: "ids_ok E g1" by (simp add: g1_def remove_identities(1)[OF ids])
  show "ids_ok E (cleanup E now g)"
    using ids1 by (simp add: c ids_ok_def g2_def remove_documents_ids)
  show "links_ok (cleanup E now g)"
    using r(1) unfolding links_ok_def same by (simp add: c)
  show "no_empty_sets (cleanup E now g)"
    by (auto simp: c no_empty_sets_def split: option.splits)
  show "id_to_fp (cleanup E now g) = (id_to_fp g) |` {i. \<not> stale_id now g i}"
    by (simp add: c g2_def remove_documents_ids g1_def remove_identities[OF ids] xs Collect_neg_eq)
  show "id_to_descriptor (cleanup E now g) = (id_to_descriptor g) |` {i. \<not> stale_id now g i}"
    by (simp add: c g2_def remove_documents_ids g1_def remove_identities[OF ids] xs Collect_neg_eq)
  show "documents (cleanup E now g) = (documents g) |` {k. \<not> stale_doc now g k}"
    using r(2) docs1 ks(1) by (auto simp: c restrict_map_def fun_eq_iff domIff)
  show "unalloc_id (cleanup E now g) = unalloc_id g"
    by (simp add: c g2_def remove_documents_ids g1_def remove_identities[OF ids])
qed

lemma cleanup_inv:
  assumes ids: "ids_ok E g" and links: "links_ok g" and docs: "docs_ok E g" and iter: "iter_laws E"
  shows "graph_inv E (cleanup E now g)"
proof -
  note c = cleanup_effect[OF ids links iter, where now = now]
  have "docs_ok E (cleanup E now g)"
    using docs by (auto simp: docs_ok_def c(4,6) restrict_map_def stale_doc_def split: if_splits)
  then show ?thesis using c(1-3) by (simp add: graph_inv_def)
qed

subsection \<open>Adjacency descriptors\<close>

lemma verify_adjacency_OkD:
  assumes "verify_adjacency E g a = Inr u"
  obtains l r where "left a < right a" "identity g (left a) = Some l" "identity g (right a) = Some r"
    "verify E (identity_pk l) (adjacency_to_sign E a) (left_sig a) = Inr ()"
    "verify E (identity_pk r) (adjacency_to_sign E a) (right_sig a) = Inr ()"
  using assms by (auto simp: verify_adjacency_def Let_def split: if_splits option.splits)

lemma insert_adjacency_Ok:
  assumes ids: "ids_ok E g" and ok: "verify_adjacency E g a = Inr u"
  obtains l r where "id_to_fp g l = Some (left a)" "id_to_fp g r = Some (right a)"
    "insert_adjacency E now g a = (Inr (), cleanup E now (g\<lparr>documents := (documents g)((l, r) \<mapsto> a),
       adjacency := add_neighbor r l (add_neighbor l r (adjacency g))\<rparr>))"
proof -
  obtain dl dr where d: "identity g (left a) = Some dl" "identity g (right a) = Some dr"
    using verify_adjacency_OkD[OF ok] by metis
  obtain l where l: "fp_to_id g (left a) = Some l" "id_to_fp g l = Some (left a)"
    using identity_Some[OF ids d(1)] by metis
  obtain r where r: "fp_to_id g (right a) = Some r" "id_to_fp g r = Some (right a)"
    using identity_Some[OF ids d(2)] by metis
  show thesis using that[OF l(2) r(2)] ok l(1) r(1)
    by (simp add: insert_adjacency_def alloc_id_def Let_def)
qed

lemma doc_key_unique:
  assumes "docs_ok E g" "ids_ok E g" "documents g (l, r) = Some a"
  shows "fp_to_id g (left a) = Some l" "fp_to_id g (right a) = Some r"
  using assms ids_okD(1)[OF assms(2)] unfolding docs_ok_def by blast+

lemma insert_document_ok:
  assumes ids: "ids_ok E g" and links: "links_ok g" and docs: "docs_ok E g"
    and l: "id_to_fp g l = Some (left a)" and r: "id_to_fp g r = Some (right a)"
    and ok: "verify_adjacency E g a = Inr u"
  defines "h \<equiv> g\<lparr>documents := (documents g)((l, r) \<mapsto> a),
       adjacency := add_neighbor r l (add_neighbor l r (adjacency g))\<rparr>"
  shows "ids_ok E h" and "links_ok h" and "docs_ok E h"
proof -
  obtain dl dr where v: "left a < right a" "identity g (left a) = Some dl" "identity g (right a) = Some dr"
      "verify E (identity_pk dl) (adjacency_to_sign E a) (left_sig a) = Inr ()"
      "verify E (identity_pk dr) (adjacency_to_sign E a) (right_sig a) = Inr ()"
    using verify_adjacency_OkD[OF ok] by metis
  have fps: "fingerprint_of E (identity_pk dl) = left a" "fingerprint_of E (identity_pk dr) = right a"
    using identity_Some[OF ids v(2)] identity_Some[OF ids v(3)] by metis+
  have sg: "signed_by E (left a) (adjacency_to_sign E a) (left_sig a)"
    "signed_by E (right a) (adjacency_to_sign E a) (right_sig a)"
    using v(4,5) fps unfolding signed_by_def by blast+
  show "ids_ok E h" using ids by (simp add: h_def ids_ok_def)
  show "docs_ok E h" using docs l r sg v(1) by (simp add: h_def docs_ok_def)
  have lr: "l \<noteq> r" using l r v(1) by auto
  have no_rev: "(r, l) \<notin> dom (documents g)"
  proof
    assume "(r, l) \<in> dom (documents g)"
    then obtain b where b: "documents g (r, l) = Some b" by blast
    then have "id_to_fp g r = Some (left b)" "id_to_fp g l = Some (right b)" "left b < right b"
      using docs unfolding docs_ok_def by blast+
    then show False using l r v(1) by auto
  qed
  show "links_ok h" using links lr no_rev unfolding links_ok_def h_def by auto
qed

lemma insert_adjacency_inv:
  assumes "graph_inv E g" "iter_laws E"
  shows "graph_inv E (snd (insert_adjacency E now g a))"
proof (cases "verify_adjacency E g a")
  case (Inl e) then show ?thesis using assms by (simp add: insert_adjacency_def)
next
  case (Inr u)
  have g: "ids_ok E g" "links_ok g" "docs_ok E g" using assms by (auto simp: graph_inv_def)
  show ?thesis
    using insert_adjacency_Ok[OF g(1) Inr] cleanup_inv[OF insert_document_ok[OF g _ _ Inr] assms(2)]
    by (metis snd_conv)
qed

lemma insert_adjacency_unalloc:
  assumes "graph_inv E g" "iter_laws E"
  shows "unalloc_id (snd (insert_adjacency E now g a)) = unalloc_id g"
proof (cases "verify_adjacency E g a")
  case (Inl e) then show ?thesis by (simp add: insert_adjacency_def)
next
  case (Inr u)
  have g: "ids_ok E g" "links_ok g" "docs_ok E g" using assms by (auto simp: graph_inv_def)
  obtain l r where lr: "id_to_fp g l = Some (left a)" "id_to_fp g r = Some (right a)"
    and eq: "insert_adjacency E now g a = (Inr (), cleanup E now (g\<lparr>documents := (documents g)((l, r) \<mapsto> a),
       adjacency := add_neighbor r l (add_neighbor l r (adjacency g))\<rparr>))"
    using insert_adjacency_Ok[OF g(1) Inr] by metis
  note h = insert_document_ok[OF g lr Inr]
  show ?thesis unfolding eq using cleanup_effect(7)[OF h(1,2) assms(2)] by simp
qed

section \<open>Runs of the graph\<close>

datatype graph_op = InsertIdentity identity_descriptor | InsertAdjacency u64 adjacency_descriptor

fun graph_step :: "'z topo_env_scheme \<Rightarrow> graph_op \<Rightarrow> relay_graph \<Rightarrow> relay_graph" where
  "graph_step E (InsertIdentity d) g = snd (insert_identity E g d)"
| "graph_step E (InsertAdjacency now a) g = snd (insert_adjacency E now g a)"

interpretation graph_machine: bounded_machine "graph_step E"
    "\<lambda>g. iter_laws E \<and> graph_inv E g" "\<lambda>g. unat (unalloc_id g)" "2 ^ 64 - 1"
  for E :: "'z topo_env_scheme"
proof
  fix g o' assume a: "iter_laws E \<and> graph_inv E g" and room: "unat (unalloc_id g) < 2 ^ 64 - 1"
  have m: "unat (- 1 :: u64) = 2 ^ 64 - 1" by (simp add: unsigned_minus_1_eq_mask mask_eq_exp_minus_1)
  have n: "unalloc_id g \<noteq> - 1"
  proof
    assume "unalloc_id g = - 1"
    then show False using room m by simp
  qed
  show "iter_laws E \<and> graph_inv E (graph_step E o' g)"
    using a n by (cases o') (auto intro: insert_identity_inv insert_adjacency_inv)
  have "unat (unalloc_id g + 1) \<le> Suc (unat (unalloc_id g))"
    by (metis add.commute add_eq_0_iff n order_refl unatSuc)
  then show "unat (unalloc_id (graph_step E o' g)) \<le> Suc (unat (unalloc_id g))"
    using a by (cases o') (auto simp: insert_identity_def alloc_id_def Let_def insert_adjacency_unalloc
        split: sum.splits option.splits)
qed

section \<open>An instance for the witnesses\<close>

definition demo_topo :: topo_env where
  "demo_topo = packet_env.extend demo_env \<lparr>
     stdcode_adjacency = (\<lambda>a. fp_bytes (left a) @ left_sig a @ right_sig a),
     stdcode_identity = (\<lambda>d. opk_bytes (onion_pk d) @ id_sig d),
     ids_iter = (\<lambda>m. sorted_list_of_set (dom m)),
     docs_iter = (\<lambda>m. sorted_list_of_set (dom m)),
     nbs_iter = sorted_list_of_set,
     fps_iter = (\<lambda>m. sorted_list_of_set (dom m))\<rparr>"

lemma demo_topo_iter: "iter_laws demo_topo"
  by (simp add: iter_laws_def demo_topo_def packet_env.defs)

lemma demo_topo_ed25519: "ed25519_laws demo_topo"
  using demo_ed25519_laws by (simp add: ed25519_laws_def demo_topo_def demo_env_def packet_env.defs crypto.defs)

lemma demo_topo_packet_laws: "packet_laws demo_topo"
  using demo_packet_laws
  by (simp add: packet_laws_def demo_topo_def packet_env.defs blake3_laws_def x25519_laws_def aead_laws_def
      bincode_laws_def)

definition demo_isk :: "nat \<Rightarrow> identity_secret" where
  "demo_isk n = IdentitySecret [of_nat n]"

definition demo_fp :: "nat \<Rightarrow> fingerprint" where
  "demo_fp n = fingerprint_of demo_topo (identity_public_of demo_topo (demo_isk n))"

definition demo_descr :: "nat \<Rightarrow> identity_descriptor" where
  "demo_descr n = identity_descriptor_new demo_topo 1000 (demo_isk n) (OnionSecret [of_nat n]) True"

definition demo_adj :: "nat \<Rightarrow> nat \<Rightarrow> adjacency_descriptor" where
  "demo_adj m n = (let a = \<lparr>left = demo_fp m, right = demo_fp n, left_sig = [], right_sig = [], adj_timestamp = 1000\<rparr>
     in a\<lparr>left_sig := sign demo_topo (demo_isk m) (adjacency_to_sign demo_topo a),
          right_sig := sign demo_topo (demo_isk n) (adjacency_to_sign demo_topo a)\<rparr>)"

definition demo_ops :: "graph_op list" where
  "demo_ops = [InsertIdentity (demo_descr 1), InsertIdentity (demo_descr 2), InsertAdjacency 1000 (demo_adj 1 2)]"

lemma pad_to_singleton: "0 < n \<Longrightarrow> pad_to n [x] = x # replicate (n - 1) 0"
  by (cases n) (simp_all add: pad_to_def take_Cons' flip: replicate_Suc)

lemma pad_to_id: "length b = n \<Longrightarrow> pad_to n b = b"
  by (simp add: pad_to_def)

lemma demo_fp_bytes: "demo_fp n = Fingerprint (of_nat n # replicate 19 0)"
  by (simp add: demo_fp_def demo_isk_def demo_topo_def demo_env_def packet_env.defs crypto.defs demo_crypto_def
      fingerprint_of_def identity_public_of_def pad_to_singleton pad_to_id take_Cons')

section \<open>Properties\<close>

text \<open>
  (C10) However identities and adjacencies arrive, in whatever order, valid or forged, the graph stays
  consistent: fingerprints and identifiers in bijection, exactly the known nodes with a correctly
  signed descriptor, documents only between known nodes in the right order and doubly signed, and
  the adjacency sets the symmetric closure of the documents.  The bound is the width of the
  identifier counter.
\<close>

theorem graph_run_inv:
  assumes "iter_laws E" and "length ops < 2 ^ 64"
  shows "graph_inv E (fold (graph_step E) ops relay_graph_new)"
proof -
  have "unat (unalloc_id relay_graph_new) + length ops \<le> 2 ^ 64 - 1"
    using assms(2) by (simp add: relay_graph_new_def)
  then show ?thesis
    using graph_machine.run_inv(1)[of E relay_graph_new ops] relay_graph_new_inv assms(1) by blast
qed

theorem graph_run_inv_witness:
  "graph_inv demo_topo (fold (graph_step demo_topo) demo_ops relay_graph_new)"
  using graph_run_inv[OF demo_topo_iter, of demo_ops] by (simp add: demo_ops_def)

lemma doc_names:
  assumes "graph_inv E g" "documents g (l, r) = Some a"
  shows "id_to_fp g l = Some (left a)" "id_to_fp g r = Some (right a)" "left a < right a"
    "fp_to_id g (left a) = Some l" "fp_to_id g (right a) = Some r"
  using assms doc_key_unique[of E g l r a] unfolding graph_inv_def docs_ok_def by blast+

definition doc_of :: "relay_graph \<Rightarrow> u64 \<Rightarrow> u64 \<Rightarrow> adjacency_descriptor option" where
  "doc_of g i j = (case documents g (i, j) of Some a \<Rightarrow> Some a | None \<Rightarrow> documents g (j, i))"

lemma adjacencies_eq:
  assumes inv: "graph_inv E g" and iter: "iter_laws E"
    and i: "fp_to_id g fp = Some i" and s: "adjacency g i = Some s"
  shows "adjacencies E g fp = Some (Inr (map (\<lambda>j. the (doc_of g i j)) (nbs_iter E s)))"
    and "j \<in> s \<Longrightarrow> \<exists>a. doc_of g i j = Some a \<and> (left a = fp \<and> id_to_fp g j = Some (right a) \<or>
           right a = fp \<and> id_to_fp g j = Some (left a))"
proof -
  have ids: "ids_ok E g" and links: "links_ok g" using inv by (auto simp: graph_inv_def)
  have fi: "id_to_fp g i = Some fp" using i ids_okD(1)[OF ids] by blast
  have one: "\<exists>a. doc_of g i j = Some a \<and> (left a = fp \<and> id_to_fp g j = Some (right a) \<or>
           right a = fp \<and> id_to_fp g j = Some (left a)) \<and>
      bind_res (unwrap (id_to_fp g j)) (\<lambda>neigh. if fp < neigh then unwrap (documents g (i, j))
                 else unwrap (documents g (j, i))) = (Inr a :: (unit, adjacency_descriptor) res)"
    if "j \<in> s" for j
  proof -
    have "(i, j) \<in> dom (documents g) \<or> (j, i) \<in> dom (documents g)"
      using links s that unfolding links_ok_def nbrs_def by force
    then show ?thesis
    proof
      assume d: "(i, j) \<in> dom (documents g)"
      then obtain a where a: "documents g (i, j) = Some a" by blast
      from doc_names[OF inv a] fi a show ?thesis by (simp add: doc_of_def unwrap_def)
    next
      assume d: "(j, i) \<in> dom (documents g)"
      then obtain a where a: "documents g (j, i) = Some a" by blast
      have "documents g (i, j) = None" using links d unfolding links_ok_def by (metis domIff)
      with doc_names[OF inv a] fi a show ?thesis by (auto simp: doc_of_def unwrap_def)
    qed
  qed
  then show "j \<in> s \<Longrightarrow> \<exists>a. doc_of g i j = Some a \<and> (left a = fp \<and> id_to_fp g j = Some (right a) \<or>
           right a = fp \<and> id_to_fp g j = Some (left a))" by blast
  have "set (nbs_iter E s) = s" using iter by (simp add: iter_laws_def)
  then have "collect_res (\<lambda>neigh_id. bind_res (unwrap (id_to_fp g neigh_id)) (\<lambda>neigh.
                 if fp < neigh then unwrap (documents g (i, neigh_id))
                 else unwrap (documents g (neigh_id, i)))) (nbs_iter E s)
      = (Inr (map (\<lambda>j. the (doc_of g i j)) (nbs_iter E s)) :: (unit, adjacency_descriptor list) res)"
    using one by (intro collect_res_ok) force
  then show "adjacencies E g fp = Some (Inr (map (\<lambda>j. the (doc_of g i j)) (nbs_iter E s)))"
    using i s by (simp add: adjacencies_def graph_id_def)
qed

lemma no_adjacencies:
  assumes inv: "graph_inv E g" and none: "adjacencies E g fp = None" and doc: "documents g k = Some a"
  shows "left a \<noteq> fp" "right a \<noteq> fp"
proof -
  obtain l r where k: "k = (l, r)" by (cases k)
  have d: "documents g (l, r) = Some a" using doc k by simp
  note n = doc_names[OF inv d]
  have links: "links_ok g" using inv by (simp add: graph_inv_def)
  have "r \<in> nbrs (adjacency g) l" "l \<in> nbrs (adjacency g) r" using links d unfolding links_ok_def by blast+
  then show "left a \<noteq> fp" "right a \<noteq> fp" using none n(4,5)
    by (auto simp: adjacencies_def graph_id_def nbrs_def split: option.splits)
qed

lemma neighbour_documents:
  assumes inv: "graph_inv E g" and iter: "iter_laws E"
    and ix: "fp_to_id g fp = Some i" "adjacency g i = Some s"
  shows "inj_on (\<lambda>j. the (doc_of g i j)) s"
    and "(\<lambda>j. the (doc_of g i j)) ` s = {a \<in> ran (documents g). left a = fp \<or> right a = fp}"
proof -
  have ids: "ids_ok E g" and links: "links_ok g" using inv by (auto simp: graph_inv_def)
  let ?d = "\<lambda>j. the (doc_of g i j)"
  note one = adjacencies_eq(2)[OF inv iter ix]
  show "inj_on ?d s"
  proof (rule inj_onI)
    fix j k assume j: "j \<in> s" and k: "k \<in> s" and eq: "?d j = ?d k"
    obtain a where "doc_of g i j = Some a" and a: "left a = fp \<and> id_to_fp g j = Some (right a) \<or>
           right a = fp \<and> id_to_fp g j = Some (left a)" using one[OF j] by blast
    moreover obtain b where "doc_of g i k = Some b" and b: "left b = fp \<and> id_to_fp g k = Some (right b) \<or>
           right b = fp \<and> id_to_fp g k = Some (left b)" using one[OF k] by blast
    ultimately have "a = b" using eq by simp
    then show "j = k" using a b fp_to_id_inject[OF ids, of j _ k] by auto
  qed
  show "?d ` s = {a \<in> ran (documents g). left a = fp \<or> right a = fp}"
  proof (intro set_eqI iffI)
    fix a assume "a \<in> ?d ` s"
    then show "a \<in> {a \<in> ran (documents g). left a = fp \<or> right a = fp}"
      using one by (force simp: doc_of_def ran_def split: option.splits)
  next
    fix a assume "a \<in> {a \<in> ran (documents g). left a = fp \<or> right a = fp}"
    then obtain l r where d: "documents g (l, r) = Some a" and fp: "left a = fp \<or> right a = fp"
      by (auto simp: ran_def)
    note n = doc_names[OF inv d]
    have nb: "r \<in> nbrs (adjacency g) l" "l \<in> nbrs (adjacency g) r" "documents g (r, l) = None"
      using links d unfolding links_ok_def by (blast, blast, metis domI domIff)
    have "l = i \<or> r = i" using fp n(4,5) ix(1) by auto
    then show "a \<in> ?d ` s"
      using nb ix(2) d
      by (elim disjE) (force simp: nbrs_def doc_of_def intro!: image_eqI[of _ _ r],
          force simp: nbrs_def doc_of_def intro!: image_eqI[of _ _ l])
  qed
qed

lemma adjacencies_spec:
  assumes inv: "graph_inv E g" and iter: "iter_laws E"
  shows "case adjacencies E g fp of
           None \<Rightarrow> {a \<in> ran (documents g). left a = fp \<or> right a = fp} = {}
         | Some r \<Rightarrow> (\<exists>ds. r = Inr ds \<and> distinct ds \<and>
             set ds = {a \<in> ran (documents g). left a = fp \<or> right a = fp})"
proof (cases "adjacencies E g fp")
  case None
  show ?thesis using no_adjacencies[OF inv None] None by (fastforce simp: ran_def)
next
  case (Some r)
  then obtain i s where ix: "fp_to_id g fp = Some i" "adjacency g i = Some s"
    by (auto simp: adjacencies_def graph_id_def split: option.splits)
  have it: "set (nbs_iter E s) = s" "distinct (nbs_iter E s)" using iter by (auto simp: iter_laws_def)
  show ?thesis
    using adjacencies_eq(1)[OF inv iter ix] neighbour_documents[OF inv iter ix] it
    by (simp add: distinct_map)
qed

text \<open>
  \<open>adjacencies\<close> never panics on a consistent graph: where it is \<open>None\<close> no stored document names
  the fingerprint, otherwise it yields every stored document that does, each exactly once.
\<close>

theorem adjacencies_complete:
  assumes inv: "graph_inv E g" and iter: "iter_laws E"
  shows "case adjacencies E g fp of
           None \<Rightarrow> {a \<in> ran (documents g). left a = fp \<or> right a = fp} = {}
         | Some r \<Rightarrow> (\<exists>ds. r = Inr ds \<and> distinct ds \<and>
             set ds = {a \<in> ran (documents g). left a = fp \<or> right a = fp})"
  by (rule adjacencies_spec[OF assms])

definition demo_graph :: relay_graph where
  "demo_graph = fold (graph_step demo_topo) demo_ops relay_graph_new"

lemma demo_descr_verifies:
  "verify demo_topo (identity_pk (demo_descr n)) (identity_to_sign demo_topo (demo_descr n)) (id_sig (demo_descr n)) = Inr ()"
  by (simp add: demo_descr_def identity_descriptor_new_def Let_def identity_to_sign_def demo_topo_ed25519)

lemma demo_descr_simps [simp]:
  "fingerprint_of demo_topo (identity_pk (demo_descr n)) = demo_fp n" "id_timestamp (demo_descr n) = 1000"
  "identity_pk (demo_descr n) = identity_public_of demo_topo (demo_isk n)"
  "onion_pk (demo_descr n) = onion_public_of demo_topo (OnionSecret [of_nat n])"
  by (simp_all add: demo_descr_def identity_descriptor_new_def Let_def demo_fp_def)

definition demo_graph2 :: relay_graph where
  "demo_graph2 = \<lparr>unalloc_id = 2, fp_to_id = [demo_fp 1 \<mapsto> 0, demo_fp 2 \<mapsto> 1], id_to_fp = [0 \<mapsto> demo_fp 1, 1 \<mapsto> demo_fp 2],
     id_to_descriptor = [0 \<mapsto> demo_descr 1, 1 \<mapsto> demo_descr 2], adjacency = Map.empty, documents = Map.empty\<rparr>"

lemma demo_fps: "demo_fp 1 < demo_fp 2" "demo_fp 1 \<noteq> demo_fp 2"
  by (simp_all add: demo_fp_bytes less_fingerprint_def)

lemma demo_two_identities:
  "fold (graph_step demo_topo) [InsertIdentity (demo_descr 1), InsertIdentity (demo_descr 2)] relay_graph_new = demo_graph2"
proof -
  let ?g1 = "snd (insert_identity demo_topo relay_graph_new (demo_descr 1))"
  have 1: "insert_identity demo_topo relay_graph_new (demo_descr 1) = (Inr (), \<lparr>unalloc_id = 1,
      fp_to_id = [demo_fp 1 \<mapsto> 0], id_to_fp = [0 \<mapsto> demo_fp 1], id_to_descriptor = [0 \<mapsto> demo_descr 1],
      adjacency = Map.empty, documents = Map.empty\<rparr>)"
    using insert_identity_fresh[OF demo_descr_verifies, of relay_graph_new 1] demo_descr_simps(1)
    by (simp add: relay_graph_new_def del: demo_descr_simps(3))
  then have "snd (insert_identity demo_topo ?g1 (demo_descr 2)) = demo_graph2"
    using insert_identity_fresh[OF demo_descr_verifies, of ?g1 2] demo_descr_simps(1) demo_fps
    by (simp add: demo_graph2_def del: demo_descr_simps(3))
  then show ?thesis by simp
qed

lemma demo_adj_verifies: "verify_adjacency demo_topo demo_graph2 (demo_adj 1 2) = Inr ()"
  using demo_fps
  by (simp add: verify_adjacency_def Let_def demo_adj_def adjacency_to_sign_def identity_def graph_id_def
      demo_graph2_def demo_topo_ed25519)

lemma demo_graph2_inv: "graph_inv demo_topo demo_graph2"
  using graph_machine.run_inv(1)[of demo_topo relay_graph_new "[InsertIdentity (demo_descr 1), InsertIdentity (demo_descr 2)]"]
    relay_graph_new_inv[of demo_topo] demo_topo_iter demo_two_identities
  by (simp add: relay_graph_new_def)

lemma demo_graph_facts:
  "graph_inv demo_topo demo_graph" "documents demo_graph = [(0, 1) \<mapsto> demo_adj 1 2]"
  "id_to_descriptor demo_graph = [0 \<mapsto> demo_descr 1, 1 \<mapsto> demo_descr 2]"
  "id_to_fp demo_graph = [0 \<mapsto> demo_fp 1, 1 \<mapsto> demo_fp 2]"
proof -
  have g: "demo_graph = snd (insert_adjacency demo_topo 1000 demo_graph2 (demo_adj 1 2))"
    using demo_two_identities by (simp add: demo_graph_def demo_ops_def)
  show "graph_inv demo_topo demo_graph"
    unfolding g by (rule insert_adjacency_inv[OF demo_graph2_inv demo_topo_iter])
  have i: "ids_ok demo_topo demo_graph2" "links_ok demo_graph2" "docs_ok demo_topo demo_graph2"
    using demo_graph2_inv by (auto simp: graph_inv_def)
  obtain l r where lr: "id_to_fp demo_graph2 l = Some (left (demo_adj 1 2))"
      "id_to_fp demo_graph2 r = Some (right (demo_adj 1 2))"
    and eq: "insert_adjacency demo_topo 1000 demo_graph2 (demo_adj 1 2) = (Inr (), cleanup demo_topo 1000
      (demo_graph2\<lparr>documents := (documents demo_graph2)((l, r) \<mapsto> demo_adj 1 2),
         adjacency := add_neighbor r l (add_neighbor l r (adjacency demo_graph2))\<rparr>))"
    using insert_adjacency_Ok[OF i(1) demo_adj_verifies] by metis
  have "left (demo_adj 1 2) = demo_fp 1" "right (demo_adj 1 2) = demo_fp 2" "adj_timestamp (demo_adj 1 2) = 1000"
    by (simp_all add: demo_adj_def Let_def)
  moreover from this have "l = 0" "r = 1"
    using lr demo_fps by (auto simp: demo_graph2_def split: if_splits)
  moreover note c = cleanup_effect[OF insert_document_ok(1,2)[OF i lr demo_adj_verifies] demo_topo_iter, where now = 1000]
  ultimately show "documents demo_graph = [(0, 1) \<mapsto> demo_adj 1 2]"
    "id_to_descriptor demo_graph = [0 \<mapsto> demo_descr 1, 1 \<mapsto> demo_descr 2]"
    "id_to_fp demo_graph = [0 \<mapsto> demo_fp 1, 1 \<mapsto> demo_fp 2]"
    unfolding g eq snd_conv c(4-6)
    by (auto simp: demo_graph2_def restrict_map_def stale_doc_def stale_id_def outdated_def ROUTE_TIMEOUT_def fun_eq_iff)
qed

lemma demo_graph_identities: "identity demo_graph (demo_fp 1) = Some (demo_descr 1)" "identity demo_graph (demo_fp 2) = Some (demo_descr 2)"
proof -
  have ids: "ids_ok demo_topo demo_graph" using demo_graph_facts(1) by (simp add: graph_inv_def)
  have "fp_to_id demo_graph (demo_fp 1) = Some 0" "fp_to_id demo_graph (demo_fp 2) = Some 1"
    using demo_graph_facts(4) ids_okD(1)[OF ids] by auto
  then show "identity demo_graph (demo_fp 1) = Some (demo_descr 1)" "identity demo_graph (demo_fp 2) = Some (demo_descr 2)"
    by (simp_all add: identity_def graph_id_def demo_graph_facts(3))
qed

lemma demo_identities:
  "identity demo_graph fp = Some d \<Longrightarrow> fp = demo_fp 1 \<and> d = demo_descr 1 \<or> fp = demo_fp 2 \<and> d = demo_descr 2"
proof -
  assume a: "identity demo_graph fp = Some d"
  have ids: "ids_ok demo_topo demo_graph" using demo_graph_facts(1) by (simp add: graph_inv_def)
  obtain i where "id_to_fp demo_graph i = Some fp" "id_to_descriptor demo_graph i = Some d"
    using identity_Some[OF ids a] by blast
  then show ?thesis by (auto simp: demo_graph_facts split: if_splits)
qed

theorem adjacencies_complete_witness:
  "case adjacencies demo_topo demo_graph (demo_fp 1) of None \<Rightarrow> False
     | Some r \<Rightarrow> (\<exists>ds. r = Inr ds \<and> set ds = {demo_adj 1 2})"
  using adjacencies_complete[OF demo_graph_facts(1) demo_topo_iter, of "demo_fp 1"]
  by (auto simp: demo_graph_facts(2) demo_adj_def Let_def split: option.splits)

lemma outdated_iff:
  "outdated now ts \<longleftrightarrow>
     (if ts \<le> now then unat now - unat ts > 3600 else unat ts - unat now < 2 ^ 64 - 3600)"
  using unsigned_less[of ts] unsigned_less[of now]
  by (auto simp: outdated_def ROUTE_TIMEOUT_def word_less_nat_alt word_le_nat_alt unat_sub_if_size word_size)

text \<open>
  (C27) What a cleanup forgets.  An identity survives a cleanup exactly when it is not outdated, and
  outdated means: more than an hour old, or dated in the future at all (by less than
  \<open>2 ^ 64 - 3600\<close> seconds), because the subtraction of the timestamp wraps around.
\<close>

theorem cleanup_expiry:
  assumes inv: "graph_inv E g" and iter: "iter_laws E"
  shows "identity (cleanup E now g) fp =
           (case identity g fp of None \<Rightarrow> None
            | Some d \<Rightarrow> if id_timestamp d \<le> now \<and> unat now - unat (id_timestamp d) \<le> 3600
                         \<or> now < id_timestamp d \<and> 2 ^ 64 - 3600 \<le> unat (id_timestamp d) - unat now
                       then Some d else None)"
proof -
  have g: "ids_ok E g" "links_ok g" using inv by (auto simp: graph_inv_def)
  note c = cleanup_effect[OF g iter, where now = now]
  have lookup: "fp_to_id h fp = Some i \<longleftrightarrow> id_to_fp h i = Some fp" if "ids_ok E h" for h i
    using ids_okD(1)[OF that] .
  have keep: "\<not> outdated now ts \<longleftrightarrow> ts \<le> now \<and> unat now - unat ts \<le> 3600
                         \<or> now < ts \<and> 2 ^ 64 - 3600 \<le> unat ts - unat now" for ts
    by (auto simp: outdated_iff)
  show ?thesis
  proof (cases "fp_to_id g fp")
    case None
    then have "id_to_fp (cleanup E now g) i \<noteq> Some fp" for i
      using lookup[OF g(1), of i] by (auto simp: c(4) restrict_map_def)
    then have "fp_to_id (cleanup E now g) fp = None" using lookup[OF c(1)] by (metis not_None_eq)
    then show ?thesis using None by (simp add: identity_def graph_id_def)
  next
    case (Some i)
    then have fi: "id_to_fp g i = Some fp" using lookup[OF g(1)] by blast
    then obtain d where d: "id_to_descriptor g i = Some d" using ids_okD(2)[OF g(1)] by blast
    have id: "identity g fp = Some d" using Some d by (simp add: identity_def graph_id_def)
    show ?thesis
    proof (cases "outdated now (id_timestamp d)")
      case True
      then have "id_to_fp (cleanup E now g) j \<noteq> Some fp" for j
        using fp_to_id_inject[OF g(1) fi, of j] d by (auto simp: c(4) restrict_map_def stale_id_def split: if_splits)
      then have "fp_to_id (cleanup E now g) fp = None" using lookup[OF c(1)] by (metis not_None_eq)
      then show ?thesis using id True keep[of "id_timestamp d"] by (simp add: identity_def graph_id_def)
    next
      case False
      then have "id_to_fp (cleanup E now g) i = Some fp" "id_to_descriptor (cleanup E now g) i = Some d"
        using d fi by (simp_all add: c(4,5) restrict_map_def stale_id_def)
      then show ?thesis using id False keep[of "id_timestamp d"] lookup[OF c(1), of i]
        by (simp add: identity_def graph_id_def)
    qed
  qed
qed

theorem cleanup_expiry_witness:
  "identity (cleanup demo_topo 1000 demo_graph2) (demo_fp 1) = Some (demo_descr 1)
   \<and> identity (cleanup demo_topo 999 demo_graph2) (demo_fp 1) = None"
proof -
  have "identity demo_graph2 (demo_fp 1) = Some (demo_descr 1)"
    using demo_fps by (simp add: identity_def graph_id_def demo_graph2_def)
  then show ?thesis
    by (simp add: cleanup_expiry[OF demo_graph2_inv demo_topo_iter])
qed

text \<open>
  (C28) \<open>insert_adjacency\<close> on every branch.  Each error is returned exactly on its condition, in the
  order the code tests them, and leaves the graph alone.  A descriptor is accepted exactly when
  the left fingerprint is smaller, both identities are known and both signatures verify under their
  keys; it is then stored under their identifiers, after which the outdated documents are dropped.
\<close>

theorem insert_adjacency_spec:
  assumes inv: "graph_inv E g" and iter: "iter_laws E"
  shows "case insert_adjacency E now g a of
           (Inl e, g') \<Rightarrow> g' = g \<and>
             (case e of LeftNotSmallerThanRight \<Rightarrow> \<not> left a < right a
              | LeftIdentityNotFound \<Rightarrow> left a < right a \<and> identity g (left a) = None
              | RightIdentityNotFound \<Rightarrow> left a < right a \<and> identity g (left a) \<noteq> None \<and> identity g (right a) = None
              | InvalidSignatures \<Rightarrow> left a < right a \<and> (\<exists>l r. identity g (left a) = Some l \<and> identity g (right a) = Some r \<and>
                  \<not> (verify E (identity_pk l) (adjacency_to_sign E a) (left_sig a) = Inr () \<and>
                     verify E (identity_pk r) (adjacency_to_sign E a) (right_sig a) = Inr ())))
         | (Inr _, g') \<Rightarrow> left a < right a \<and>
             (\<exists>l r. identity g (left a) = Some l \<and> identity g (right a) = Some r \<and>
                verify E (identity_pk l) (adjacency_to_sign E a) (left_sig a) = Inr () \<and>
                verify E (identity_pk r) (adjacency_to_sign E a) (right_sig a) = Inr ()) \<and>
             (\<exists>i j. fp_to_id g (left a) = Some i \<and> fp_to_id g (right a) = Some j \<and>
                documents g' = (documents g)((i, j) \<mapsto> a)
                  |` {k. \<not> stale_doc now (g\<lparr>documents := (documents g)((i, j) \<mapsto> a)\<rparr>) k})"
proof (cases "verify_adjacency E g a")
  case (Inl e)
  then show ?thesis
    by (auto simp: insert_adjacency_def verify_adjacency_def Let_def split: if_splits option.splits)
next
  case (Inr u)
  have g: "ids_ok E g" "links_ok g" "docs_ok E g" using inv by (auto simp: graph_inv_def)
  obtain i j where ij: "id_to_fp g i = Some (left a)" "id_to_fp g j = Some (right a)"
    and eq: "insert_adjacency E now g a = (Inr (), cleanup E now (g\<lparr>documents := (documents g)((i, j) \<mapsto> a),
       adjacency := add_neighbor j i (add_neighbor i j (adjacency g))\<rparr>))"
    using insert_adjacency_Ok[OF g(1) Inr] by metis
  have "fp_to_id g (left a) = Some i" "fp_to_id g (right a) = Some j" using ij ids_okD(1)[OF g(1)] by blast+
  moreover have "documents (snd (insert_adjacency E now g a)) = (documents g)((i, j) \<mapsto> a)
                  |` {k. \<not> stale_doc now (g\<lparr>documents := (documents g)((i, j) \<mapsto> a)\<rparr>) k}"
    unfolding eq snd_conv cleanup_effect(6)[OF insert_document_ok(1,2)[OF g ij Inr] iter]
    by (simp add: stale_doc_def stale_id_def)
  ultimately show ?thesis using verify_adjacency_OkD[OF Inr] eq by (simp) metis
qed

theorem insert_adjacency_spec_witness:
  "case insert_adjacency demo_topo 1000 demo_graph2 (demo_adj 1 2) of
     (Inl e, g') \<Rightarrow> False
   | (Inr _, g') \<Rightarrow> documents g' (0, 1) = Some (demo_adj 1 2)"
  using insert_adjacency_spec[OF demo_graph2_inv demo_topo_iter, where now = 1000 and a = "demo_adj 1 2"] demo_adj_verifies demo_fps
  by (auto simp: insert_adjacency_def Let_def demo_adj_def demo_graph2_def restrict_map_def
      stale_doc_def stale_id_def outdated_def ROUTE_TIMEOUT_def split: sum.splits prod.splits)

text \<open>
  A node's own descriptor is accepted by any consistent graph, whose counter is not exhausted,
  and is what a lookup of the node's fingerprint then returns; the lookups of all others are unchanged.
\<close>

theorem own_descriptor_accepted:
  assumes inv: "graph_inv E g" and sig: "ed25519_laws E" and room: "unalloc_id g \<noteq> - 1"
  shows "let d = identity_descriptor_new E now isk osk relay; (r, g') = insert_identity E g d
         in r = Inr () \<and> graph_inv E g' \<and>
            identity g' fp = (if fp = my_fingerprint E isk then Some d else identity g fp)"
proof -
  define d where "d = identity_descriptor_new E now isk osk relay"
  have ids: "ids_ok E g" using inv by (simp add: graph_inv_def)
  have pk: "identity_pk d = identity_public_of E isk"
    by (simp add: d_def identity_descriptor_new_def Let_def)
  have v: "verify E (identity_pk d) (identity_to_sign E d) (id_sig d) = Inr ()"
    unfolding d_def identity_descriptor_new_def Let_def
    using id_doc.signed_verifies[OF sig, of isk "\<lparr>is_relay = relay, identity_pk = identity_public_of E isk,
      onion_pk = onion_public_of E osk, id_sig = [], id_timestamp = now\<rparr>"] by simp
  have r: "fst (insert_identity E g d) = Inr ()"
    using v by (simp add: insert_identity_def split: prod.splits)
  have "identity (snd (insert_identity E g d)) fp =
           (if fp = my_fingerprint E isk then Some d else identity g fp)"
  proof (cases "fp_to_id g (my_fingerprint E isk)")
    case (Some i)
    then have "fp_to_id g fp \<noteq> Some i" if "fp \<noteq> my_fingerprint E isk"
      using that ids_okD(1)[OF ids, of _ i] by auto
    then show ?thesis using insert_identity_known[OF v] Some pk
      by (auto simp: identity_def graph_id_def split: bind_splits)
  next
    case None
    have "fp_to_id g fp \<noteq> Some (unalloc_id g)" using ids_okD(1,5)[OF ids] by (metis less_irrefl)
    then show ?thesis using insert_identity_fresh[OF v] None pk
      by (auto simp: identity_def graph_id_def split: bind_splits)
  qed
  then show ?thesis using r insert_identity_inv[OF inv room, of d]
    by (simp add: d_def Let_def split_beta)
qed

theorem own_descriptor_accepted_witness:
  "fst (insert_identity demo_topo demo_graph2 (identity_descriptor_new demo_topo 1001 (demo_isk 1) (OnionSecret [9]) False)) = Inr ()
   \<and> identity (snd (insert_identity demo_topo demo_graph2 (identity_descriptor_new demo_topo 1001 (demo_isk 1) (OnionSecret [9]) False)))
       (demo_fp 1) = Some (identity_descriptor_new demo_topo 1001 (demo_isk 1) (OnionSecret [9]) False)"
proof -
  have "unalloc_id demo_graph2 \<noteq> - 1" by (simp add: demo_graph2_def)
  then show ?thesis
    using own_descriptor_accepted[OF demo_graph2_inv demo_topo_ed25519, where now = 1001 and isk = "demo_isk 1"
        and osk = "OnionSecret [9]" and relay = False and fp = "demo_fp 1"]
    by (simp add: demo_fp_def Let_def split_beta)
qed

end
