(* ===== verification/Shortest_Path.thy ===== *)
theory Shortest_Path
  imports Topology
begin

text \<open>
  \<open>RelayGraph::find_shortest_path\<close>.  The breadth-first loop is a terminating function: every turn
  takes one node off the queue and moves the nodes it appends out of the finite set of unvisited
  identifiers.  The loop that walks the predecessors back is a \<open>partial_function\<close>, since on an
  arbitrary predecessor map it might not end; \<open>None\<close> at the outermost level means that the code does
  not return.  The theorem at the end shows that it does, that no index panics, and that the route
  is a shortest one.
\<close>

section \<open>The search\<close>

definition visit :: "u64 \<Rightarrow> u64 \<Rightarrow> u64 set \<times> (u64 \<rightharpoonup> u64) \<times> u64 list \<Rightarrow> u64 set \<times> (u64 \<rightharpoonup> u64) \<times> u64 list" where
  "visit current_id neighbor_id st =
     (let (visited, path, queue) = st
      in if neighbor_id \<notin> visited
         then (insert neighbor_id visited, path(neighbor_id \<mapsto> current_id), queue @ [neighbor_id])
         else st)"

partial_function (option) walk_back ::
    "relay_graph \<Rightarrow> (u64 \<rightharpoonup> u64) \<Rightarrow> u64 \<Rightarrow> fingerprint list \<Rightarrow> (unit, fingerprint list) res option" where
  "walk_back g path current_id result =
     (case path current_id of
        None \<Rightarrow> Some (Inr result)
      | Some prev_id \<Rightarrow>
          (case id_to_fp g current_id of
             None \<Rightarrow> Some (Inl Panic)
           | Some fp \<Rightarrow> walk_back g path prev_id (result @ [fp])))"

lemma visit_measure:
  "visit c n (V, P, Q) = (V', P', Q') \<Longrightarrow> card (- V') + length Q' = card (- V) + length Q"
proof (cases "n \<in> V")
  case False
  assume a: "visit c n (V, P, Q) = (V', P', Q')"
  then have "V' = insert n V" "Q' = Q @ [n]" using False by (auto simp: visit_def)
  moreover have "- V = insert n (- insert n V)" using False by auto
  then have "card (- V) = Suc (card (- insert n V))" by (metis card_insert_disjoint finite insertCI Compl_iff)
  ultimately show ?thesis by simp
qed (simp add: visit_def)

lemma visits_measure:
  "fold (visit c) ns (V, P, Q) = (V', P', Q') \<Longrightarrow> card (- V') + length Q' = card (- V) + length Q"
proof (induction ns arbitrary: V P Q)
  case (Cons n ns)
  obtain V1 P1 Q1 where v: "visit c n (V, P, Q) = (V1, P1, Q1)" by (metis prod_cases3)
  then show ?case using Cons visit_measure[OF v] by simp
qed simp

function bfs ::
    "'z topo_env_scheme \<Rightarrow> relay_graph \<Rightarrow> u64 \<Rightarrow> u64 \<Rightarrow> u64 set \<times> (u64 \<rightharpoonup> u64) \<times> u64 list
       \<Rightarrow> (unit, fingerprint list option) res option" where
  "bfs E g start_id end_id (visited, path, []) = Some (Inr None)"
| "bfs E g start_id end_id (visited, path, current_id # queue) =
     (if current_id = end_id then
        map_option (\<lambda>r. bind_res r (\<lambda>result. bind_res (unwrap (id_to_fp g start_id))
            (\<lambda>start. Inr (Some (rev (result @ [start])))))) (walk_back g path current_id [])
      else case adjacency g current_id of
        None \<Rightarrow> Some (Inr None)
      | Some neighbors \<Rightarrow>
          bfs E g start_id end_id (fold (visit current_id) (nbs_iter E neighbors) (visited, path, queue)))"
  by pat_completeness auto

termination
proof (relation "measure (\<lambda>(E, g, s, e, V, P, Q). card (- V) + length Q)")
  fix E :: "'z topo_env_scheme" and g s e V P c Q ns
  obtain V' P' Q' where v: "fold (visit c) (nbs_iter E ns) (V, P, Q) = (V', P', Q')" by (metis prod_cases3)
  show "((E, g, s, e, fold (visit c) (nbs_iter E ns) (V, P, Q)), E, g, s, e, V, P, c # Q)
        \<in> measure (\<lambda>(E, g, s, e, V, P, Q). card (- V) + length Q)"
    using visits_measure[OF v] v by simp
qed simp

definition find_shortest_path ::
    "'z topo_env_scheme \<Rightarrow> relay_graph \<Rightarrow> fingerprint \<Rightarrow> fingerprint \<Rightarrow> (unit, fingerprint list option) res option" where
  "find_shortest_path E g start_fp end_fp =
     (case graph_id g start_fp of
        None \<Rightarrow> Some (Inr None)
      | Some start_id \<Rightarrow>
          (case graph_id g end_fp of
             None \<Rightarrow> Some (Inr None)
           | Some end_id \<Rightarrow> bfs E g start_id end_id ({start_id}, Map.empty, [start_id])))"

section \<open>One turn of the search\<close>

lemma visits:
  assumes "distinct ns"
  shows "fold (visit c) ns (V, P, Q) =
     (V \<union> set ns, (\<lambda>n. if n \<in> set ns - V then Some c else P n), Q @ filter (\<lambda>n. n \<notin> V) ns)"
  using assms
proof (induction ns arbitrary: V P Q)
  case (Cons n ns)
  have f: "filter (\<lambda>m. m \<noteq> n \<and> m \<notin> V) ns = filter (\<lambda>m. m \<notin> V) ns"
    using Cons.prems by (intro filter_cong) auto
  show ?case
  proof (cases "n \<in> V")
    case True
    then show ?thesis using Cons by (auto simp: visit_def fun_eq_iff insert_absorb)
  next
    case False
    then have "fold (visit c) (n # ns) (V, P, Q) = fold (visit c) ns (insert n V, P(n \<mapsto> c), Q @ [n])"
      by (simp add: visit_def)
    also have "\<dots> = (insert n V \<union> set ns, (\<lambda>m. if m \<in> set ns - insert n V then Some c else (P(n \<mapsto> c)) m),
        (Q @ [n]) @ filter (\<lambda>m. m \<notin> insert n V) ns)"
      using Cons.prems by (subst Cons.IH) simp_all
    finally show ?thesis using False f Cons.prems by (auto simp: fun_eq_iff)
  qed
qed simp

section \<open>The invariant of the search\<close>

text \<open>
  With \<open>d\<close> the distance from the start at which a node was found: visited nodes other than the start
  have a predecessor one step closer, the queue is ordered by distance, and the neighbours of a node
  that left the queue are visited.
\<close>

definition search_inv ::
    "(u64 \<Rightarrow> u64 set) \<Rightarrow> u64 \<Rightarrow> u64 \<Rightarrow> (u64 \<Rightarrow> nat) \<Rightarrow> u64 set \<times> (u64 \<rightharpoonup> u64) \<times> u64 list \<Rightarrow> bool" where
  "search_inv nb s e d st \<longleftrightarrow> (case st of (V, P, Q) \<Rightarrow>
     s \<in> V \<and> P s = None \<and> d s = 0 \<and> set Q \<subseteq> V \<and>
     (\<forall>v \<in> V. v \<noteq> s \<longrightarrow> (\<exists>u. P v = Some u \<and> u \<in> V \<and> v \<in> nb u \<and> d v = Suc (d u))) \<and>
     sorted (map d Q) \<and> (\<forall>q \<in> set Q. d q \<le> Suc (d (hd Q))) \<and>
     (\<forall>u \<in> V - set Q. (\<forall>w \<in> nb u. w \<in> V \<and> d w \<le> Suc (d u)) \<and> (\<forall>q \<in> set Q. d u \<le> d q)) \<and>
     e \<notin> V - set Q)"

lemma search_invD:
  assumes "search_inv nb s e d (V, P, Q)"
  shows "s \<in> V" "P s = None" "d s = 0" "set Q \<subseteq> V"
    and "v \<in> V \<Longrightarrow> v \<noteq> s \<Longrightarrow> \<exists>u. P v = Some u \<and> u \<in> V \<and> v \<in> nb u \<and> d v = Suc (d u)"
    and "sorted (map d Q)" "q \<in> set Q \<Longrightarrow> d q \<le> Suc (d (hd Q))"
    and "u \<in> V \<Longrightarrow> u \<notin> set Q \<Longrightarrow> w \<in> nb u \<Longrightarrow> w \<in> V \<and> d w \<le> Suc (d u)"
    and "u \<in> V \<Longrightarrow> u \<notin> set Q \<Longrightarrow> q \<in> set Q \<Longrightarrow> d u \<le> d q"
    and "e \<notin> V - set Q"
  using assms unfolding search_inv_def prod.case by blast+

lemma search_inv_start:
  "s \<in> set [s] \<Longrightarrow> search_inv nb s e (\<lambda>_. 0) ({s}, Map.empty, [s])"
  by (simp add: search_inv_def)

lemma sorted_append_const:
  assumes "sorted (map d Q)" "\<forall>q \<in> set Q. d q \<le> k" "\<forall>n \<in> set N. d n = k"
  shows "sorted (map d (Q @ N))"
proof -
  have "sorted (map d N)" using assms(3) by (induction N) auto
  then show ?thesis using assms by (auto simp: sorted_append)
qed

text \<open>The distances after the neighbours \<open>ns\<close> of \<open>c\<close> have been visited.\<close>

definition next_dist :: "(u64 \<Rightarrow> nat) \<Rightarrow> u64 \<Rightarrow> u64 list \<Rightarrow> u64 set \<Rightarrow> u64 \<Rightarrow> nat" where
  "next_dist d c ns V n = (if n \<in> set ns - V then Suc (d c) else d n)"

lemma next_dist_simps [simp]:
  "v \<in> V \<Longrightarrow> next_dist d c ns V v = d v"
  "v \<in> set ns \<Longrightarrow> v \<notin> V \<Longrightarrow> next_dist d c ns V v = Suc (d c)"
  by (simp_all add: next_dist_def)

lemma search_distances:
  assumes inv: "search_inv nb s e d (V, P, c # Q)"
  shows "v \<in> V \<Longrightarrow> d v \<le> Suc (d c)" and "q \<in> set Q \<Longrightarrow> d c \<le> d q"
    and "q \<in> set (Q @ filter (\<lambda>n. n \<notin> V) ns) \<Longrightarrow> d c \<le> next_dist d c ns V q"
proof -
  note I = search_invD[OF inv]
  show low: "q \<in> set Q \<Longrightarrow> d c \<le> d q" for q using I(6) by auto
  show "v \<in> V \<Longrightarrow> d v \<le> Suc (d c)"
    using I(9)[of v c] I(7)[of v] by (cases "v \<in> set (c # Q)") auto
  show "q \<in> set (Q @ filter (\<lambda>n. n \<notin> V) ns) \<Longrightarrow> d c \<le> next_dist d c ns V q"
    using low by (auto simp: next_dist_def)
qed

lemma search_queue_step:
  fixes ns :: "u64 list"
  assumes inv: "search_inv nb s e d (V, P, c # Q)"
  defines "Q' \<equiv> Q @ filter (\<lambda>n. n \<notin> V) ns" and "d' \<equiv> next_dist d c ns V"
  shows "sorted (map d' Q')" and "q \<in> set Q' \<Longrightarrow> d' q \<le> Suc (d' (hd Q'))"
proof -
  note I = search_invD[OF inv]
  have mapQ: "map d' Q = map d Q" unfolding d'_def using I(4) by (intro map_cong) auto
  show "sorted (map d' Q')" unfolding Q'_def
  proof (rule sorted_append_const[of _ _ "Suc (d c)"])
    show "sorted (map d' Q)" unfolding mapQ using I(6) by simp
  qed (use I(4) search_distances(1)[OF inv] in \<open>auto simp: d'_def\<close>)
  assume q: "q \<in> set Q'"
  then have "hd Q' \<in> set Q'" by (metis hd_in_set length_pos_if_in_set length_greater_0_conv)
  then have "d c \<le> d' (hd Q')" using search_distances(3)[OF inv] unfolding Q'_def d'_def by blast
  moreover have "d' q \<le> Suc (d c)" using q I(4) search_distances(1)[OF inv] by (auto simp: Q'_def d'_def)
  ultimately show "d' q \<le> Suc (d' (hd Q'))" by simp
qed

lemma search_left_step:
  assumes inv: "search_inv nb s e d (V, P, c # Q)" and ns: "set ns = nb c"
  defines "Q' \<equiv> Q @ filter (\<lambda>n. n \<notin> V) ns" and "d' \<equiv> next_dist d c ns V"
  assumes u: "u \<in> V \<union> set ns - set Q'"
  shows "w \<in> nb u \<Longrightarrow> w \<in> V \<union> set ns \<and> d' w \<le> Suc (d' u)" and "q \<in> set Q' \<Longrightarrow> d' u \<le> d' q"
proof -
  note I = search_invD[OF inv]
  have cV: "c \<in> V" and uV: "u \<in> V" and du: "d' u = d u" using I(4) u by (auto simp: Q'_def d'_def)
  have low: "d c \<le> d' q" if "q \<in> set Q'" for q using search_distances(3)[OF inv] that unfolding Q'_def d'_def by blast
  have nin: "u \<notin> set (c # Q)" if "u \<noteq> c" using u that by (auto simp: Q'_def)
  show "w \<in> V \<union> set ns \<and> d' w \<le> Suc (d' u)" if w: "w \<in> nb u"
  proof (cases "u = c")
    case True
    then show ?thesis using w ns search_distances(1)[OF inv, of w] cV
      by (cases "w \<in> V") (auto simp: d'_def)
  next
    case False
    then show ?thesis using I(8)[OF uV nin[OF False] w] du by (simp add: d'_def)
  qed
  show "d' u \<le> d' q" if q: "q \<in> set Q'"
  proof (cases "u = c")
    case False
    then show ?thesis using I(9)[OF uV nin[OF False], of c] low[OF q] du by simp
  qed (use low[OF q] du in simp)
qed

lemma search_inv_step:
  assumes inv: "search_inv nb s e d (V, P, c # Q)" and c: "c \<noteq> e"
    and ns: "set ns = nb c" "distinct ns"
  shows "search_inv nb s e (next_dist d c ns V) (fold (visit c) ns (V, P, Q))"
proof -
  note I = search_invD[OF inv]
  let ?Q = "Q @ filter (\<lambda>n. n \<notin> V) ns" and ?d = "next_dist d c ns V"
  let ?P = "\<lambda>n. if n \<in> set ns - V then Some c else P n"
  have cV: "c \<in> V" using I(4) by simp
  have "\<exists>u. ?P v = Some u \<and> u \<in> V \<union> set ns \<and> v \<in> nb u \<and> ?d v = Suc (?d u)"
    if "v \<in> V \<union> set ns" "v \<noteq> s" for v
    using that I(5)[of v] cV ns(1) by (cases "v \<in> V") auto
  then have "\<forall>v \<in> V \<union> set ns. v \<noteq> s \<longrightarrow> (\<exists>u. ?P v = Some u \<and> u \<in> V \<union> set ns \<and> v \<in> nb u \<and> ?d v = Suc (?d u))"
    by blast
  moreover have "s \<in> V \<union> set ns" "?P s = None" "?d s = 0" "set ?Q \<subseteq> V \<union> set ns" "e \<notin> V \<union> set ns - set ?Q"
    using I(1-4,10) c by auto
  moreover have "\<forall>q \<in> set ?Q. ?d q \<le> Suc (?d (hd ?Q))" using search_queue_step(2)[OF inv] by blast
  moreover have "\<forall>u \<in> V \<union> set ns - set ?Q. (\<forall>w \<in> nb u. w \<in> V \<union> set ns \<and> ?d w \<le> Suc (?d u)) \<and> (\<forall>q \<in> set ?Q. ?d u \<le> ?d q)"
    using search_left_step[of nb s e d V P c Q ns, OF inv ns(1)] by blast
  ultimately show ?thesis
    unfolding visits[OF ns(2)] search_inv_def prod.case using search_queue_step(1)[OF inv] by (intro conjI)
qed

section \<open>What the search returns\<close>

text \<open>A walk of \<open>n\<close> steps along the neighbour relation.\<close>

inductive walk :: "(u64 \<Rightarrow> u64 set) \<Rightarrow> u64 \<Rightarrow> nat \<Rightarrow> u64 \<Rightarrow> bool" for nb s where
  walk_start: "walk nb s 0 s"
| walk_step: "walk nb s n u \<Longrightarrow> v \<in> nb u \<Longrightarrow> walk nb s (Suc n) v"

lemma walk_near_done:
  assumes inv: "search_inv nb s e d (V, P, Q)" and w: "walk nb s n v" and n: "\<And>q. q \<in> set Q \<Longrightarrow> n < d q"
  shows "v \<in> V" "v \<notin> set Q" "d v \<le> n"
proof -
  note I = search_invD[OF inv]
  have "v \<in> V \<and> v \<notin> set Q \<and> d v \<le> n" using w n
  proof induction
    case walk_start then show ?case using I(1,3) by force
  next
    case (walk_step n u v)
    then have u: "u \<in> V" "u \<notin> set Q" "d u \<le> n" by (auto intro: Suc_lessD)
    then show ?case using I(8)[OF u(1,2) walk_step.hyps(2)] walk_step.prems by force
  qed
  then show "v \<in> V" "v \<notin> set Q" "d v \<le> n" by auto
qed

text \<open>The queue is empty: there is no walk to the end.\<close>

lemma search_exhausted:
  assumes "search_inv nb s e d (V, P, [])"
  shows "\<not> walk nb s n e"
  using walk_near_done(1)[OF assms, of n e] search_invD(10)[OF assms] by auto

text \<open>The end is at the front: no walk is shorter than its distance.\<close>

lemma search_found_minimal:
  assumes inv: "search_inv nb s e d (V, P, e # Q)" and w: "walk nb s n e"
  shows "d e \<le> n"
proof (rule ccontr)
  assume "\<not> d e \<le> n"
  then have "n < d q" if "q \<in> set (e # Q)" for q using that search_distances(2)[OF inv, of q] by fastforce
  from walk_near_done(2)[OF inv w this] show False by simp
qed

text \<open>Walking the predecessors back reaches the start, in as many steps as the distance says.\<close>

definition id_route :: "(u64 \<Rightarrow> u64 set) \<Rightarrow> u64 \<Rightarrow> u64 \<Rightarrow> u64 list \<Rightarrow> bool" where
  "id_route nb s e ids \<longleftrightarrow> ids \<noteq> [] \<and> hd ids = s \<and> last ids = e \<and> successively (\<lambda>a b. b \<in> nb a) ids"

lemma walk_back_returns:
  assumes inv: "search_inv nb s e d (V, P, Q)" and fps: "\<And>v. v \<in> V \<Longrightarrow> id_to_fp g v = Some (f v)"
    and v: "v \<in> V"
  shows "\<exists>ids. id_route nb s v ids \<and> length ids = Suc (d v) \<and>
           walk_back g P v acc = Some (Inr (acc @ map f (rev (tl ids))))"
  using v
proof (induction "d v" arbitrary: v acc rule: less_induct)
  case less
  note I = search_invD[OF inv]
  show ?case
  proof (cases "v = s")
    case True
    then show ?thesis using I(2,3) by (intro exI[of _ "[s]"]) (simp add: id_route_def walk_back.simps)
  next
    case False
    then obtain u where u: "P v = Some u" "u \<in> V" "v \<in> nb u" "d v = Suc (d u)" using I(5) less.prems by blast
    then obtain ids where ids: "id_route nb s u ids" "length ids = Suc (d u)"
        "walk_back g P u (acc @ [f v]) = Some (Inr ((acc @ [f v]) @ map f (rev (tl ids))))"
      using less.hyps[of u "acc @ [f v]"] by auto
    have "id_route nb s v (ids @ [v])"
      using ids(1) u(3) by (simp add: id_route_def successively_append_iff)
    moreover have "walk_back g P v acc = Some (Inr (acc @ map f (rev (tl (ids @ [v])))))"
      using ids u(1) fps[OF less.prems] by (subst walk_back.simps) (simp add: id_route_def)
    ultimately show ?thesis using ids(2) u(4) by (intro exI[of _ "ids @ [v]"]) simp
  qed
qed

lemma isolated_walk: "walk nb s n v \<Longrightarrow> nb s = {} \<Longrightarrow> v = s"
  by (induction rule: walk.induct) auto

text \<open>What the search promises, in terms of identifiers.\<close>

definition search_result :: "(u64 \<Rightarrow> u64 set) \<Rightarrow> (u64 \<Rightarrow> fingerprint) \<Rightarrow> u64 \<Rightarrow> u64 \<Rightarrow> fingerprint list option \<Rightarrow> bool" where
  "search_result nb f s e r \<longleftrightarrow> (case r of
     None \<Rightarrow> (\<forall>n. \<not> walk nb s n e)
   | Some p \<Rightarrow> (\<exists>ids. id_route nb s e ids \<and> p = map f ids \<and> (\<forall>n. walk nb s n e \<longrightarrow> length p \<le> Suc n)))"

lemma bfs_found:
  assumes inv: "search_inv nb s e d (V, P, e # Q)" and fV: "\<And>v. v \<in> V \<Longrightarrow> id_to_fp g v = Some (f v)"
  shows "\<exists>r. bfs E g s e (V, P, e # Q) = Some (Inr r) \<and> search_result nb f s e r"
proof -
  have eV: "e \<in> V" and sV: "s \<in> V" using search_invD(1,4)[OF inv] by auto
  obtain ids where ids: "id_route nb s e ids" "length ids = Suc (d e)"
      "walk_back g P e [] = Some (Inr ([] @ map f (rev (tl ids))))"
    using walk_back_returns[OF inv fV eV] by blast
  have "rev (map f (rev (tl ids)) @ [f s]) = map f ids"
    using ids(1) by (cases ids) (simp_all add: id_route_def rev_map)
  moreover have "d e \<le> n" if "walk nb s n e" for n using search_found_minimal[OF inv that] .
  ultimately show ?thesis using ids fV[OF sV]
    by (intro exI[of _ "Some (map f ids)"]) (auto simp: search_result_def unwrap_def)
qed

lemma bfs_correct:
  assumes inv: "search_inv (nbrs (adjacency g)) s e d (V, P, Q)"
    and sym: "\<And>i j. j \<in> nbrs (adjacency g) i \<Longrightarrow> i \<in> nbrs (adjacency g) j"
    and fps: "\<And>i j. j \<in> nbrs (adjacency g) i \<Longrightarrow> id_to_fp g j = Some (f j)"
    and s: "id_to_fp g s = Some (f s)" and iter: "iter_laws E"
  shows "\<exists>r. bfs E g s e (V, P, Q) = Some (Inr r) \<and> search_result (nbrs (adjacency g)) f s e r"
  using inv
proof (induction "card (- V) + length Q" arbitrary: d V P Q rule: less_induct)
  case less
  let ?nb = "nbrs (adjacency g)"
  show ?case
  proof (cases Q)
    case Nil
    then show ?thesis using less.prems search_exhausted by (auto simp: search_result_def)
  next
    case (Cons c Q')
    note inv = less.prems[unfolded Cons]
    note I = search_invD[OF inv]
    have fV: "id_to_fp g v = Some (f v)" if "v \<in> V" for v
      using I(5)[OF that] fps s by (cases "v = s") auto
    show ?thesis
    proof (cases "c = e")
      case True
      then show ?thesis using bfs_found[of "?nb" s e d V P Q' g f E] inv fV Cons by simp
    next
      case False
      show ?thesis
      proof (cases "adjacency g c")
        case None
        then have none: "?nb c = {}" by (simp add: nbrs_def)
        have "c = s" using I(5)[of c] I(4) sym none by force
        then have "\<not> walk ?nb s n e" for n using isolated_walk[of ?nb s n e] none False by auto
        then show ?thesis using Cons False None by (simp add: search_result_def)
      next
        case (Some ns)
        have it: "set (nbs_iter E ns) = ?nb c" "distinct (nbs_iter E ns)"
          using iter Some by (simp_all add: iter_laws_def nbrs_def)
        obtain V2 P2 Q2 where v: "fold (visit c) (nbs_iter E ns) (V, P, Q') = (V2, P2, Q2)" by (metis prod_cases3)
        have "card (- V2) + length Q2 < card (- V) + length Q" using visits_measure[OF v] Cons by simp
        then show ?thesis
          using less.hyps search_inv_step[OF inv False it] v Cons False Some by auto
      qed
    qed
  qed
qed

section \<open>Routes between fingerprints\<close>

text \<open>Two nodes are linked when a stored adjacency descriptor names both.\<close>

definition linked :: "relay_graph \<Rightarrow> fingerprint \<Rightarrow> fingerprint \<Rightarrow> bool" where
  "linked g a b \<longleftrightarrow> (\<exists>doc \<in> ran (documents g). left doc = a \<and> right doc = b \<or> left doc = b \<and> right doc = a)"

definition is_route :: "relay_graph \<Rightarrow> fingerprint \<Rightarrow> fingerprint \<Rightarrow> fingerprint list \<Rightarrow> bool" where
  "is_route g s t p \<longleftrightarrow> p \<noteq> [] \<and> hd p = s \<and> last p = t \<and> set p \<subseteq> dom (fp_to_id g) \<and> successively (linked g) p"

lemma linked_iff_nbrs:
  assumes inv: "graph_inv E g" and a: "id_to_fp g i = Some a" and b: "id_to_fp g j = Some b"
  shows "linked g a b \<longleftrightarrow> j \<in> nbrs (adjacency g) i"
proof
  have ids: "ids_ok E g" and links: "links_ok g" using inv by (auto simp: graph_inv_def)
  show "j \<in> nbrs (adjacency g) i" if "linked g a b"
  proof -
    obtain l r doc where d: "documents g (l, r) = Some doc" and
        c: "left doc = a \<and> right doc = b \<or> left doc = b \<and> right doc = a"
      using \<open>linked g a b\<close> by (auto simp: linked_def ran_def)
    have "(l, r) = (i, j) \<or> (l, r) = (j, i)"
      using c doc_names(1,2)[OF inv d] fp_to_id_inject[OF ids a] fp_to_id_inject[OF ids b] by auto
    then show ?thesis using links d unfolding links_ok_def by blast
  qed
  show "linked g a b" if "j \<in> nbrs (adjacency g) i"
  proof -
    have "(i, j) \<in> dom (documents g) \<or> (j, i) \<in> dom (documents g)"
      using links that unfolding links_ok_def by blast
    then obtain l r doc where d: "documents g (l, r) = Some doc" and c: "(l, r) = (i, j) \<or> (l, r) = (j, i)"
      by blast
    have "doc \<in> ran (documents g)" using d by (rule ranI)
    moreover have "left doc = a \<and> right doc = b \<or> left doc = b \<and> right doc = a"
      using doc_names(1,2)[OF inv d] a b c by auto
    ultimately show ?thesis unfolding linked_def by blast
  qed
qed

lemma nbrs_known:
  assumes inv: "graph_inv E g" and "j \<in> nbrs (adjacency g) i"
  shows "id_to_fp g j \<noteq> None" "i \<in> nbrs (adjacency g) j"
proof -
  have links: "links_ok g" using inv by (simp add: graph_inv_def)
  have "(i, j) \<in> dom (documents g) \<or> (j, i) \<in> dom (documents g)"
    using links assms(2) unfolding links_ok_def by blast
  then show "id_to_fp g j \<noteq> None" using doc_names(1,2)[OF inv] by fastforce
  show "i \<in> nbrs (adjacency g) j" using links assms(2) unfolding links_ok_def by blast
qed

lemma route_walk:
  assumes inv: "graph_inv E g"
  shows "p \<noteq> [] \<Longrightarrow> set p \<subseteq> dom (fp_to_id g) \<Longrightarrow> successively (linked g) p \<Longrightarrow>
         fp_to_id g (hd p) = Some s \<Longrightarrow> fp_to_id g (last p) = Some t \<Longrightarrow>
         walk (nbrs (adjacency g)) s (length p - 1) t"
proof (induction p arbitrary: t rule: rev_nonempty_induct)
  case (single x) then show ?case by (simp add: walk_start)
next
  case (snoc x xs)
  have ids: "ids_ok E g" using inv by (simp add: graph_inv_def)
  have "last xs \<in> set (xs @ [x])" using snoc.hyps by simp
  then obtain u where u: "fp_to_id g (last xs) = Some u" using snoc.prems(1) by blast
  have "walk (nbrs (adjacency g)) s (length xs - 1) u"
    using snoc u by (simp add: successively_append_iff)
  moreover have "t \<in> nbrs (adjacency g) u"
    using linked_iff_nbrs[OF inv, of u "last xs" t x] u snoc.prems snoc.hyps ids_okD(1)[OF ids]
    by (simp add: successively_append_iff)
  ultimately have "walk (nbrs (adjacency g)) s (Suc (length xs - 1)) t" by (rule walk_step)
  then show ?case using snoc.hyps by (cases xs) simp_all
qed

lemma id_route_is_route:
  assumes inv: "graph_inv E g" and r: "id_route (nbrs (adjacency g)) s t ids"
    and f: "\<And>i a. id_to_fp g i = Some a \<Longrightarrow> f i = a" and s: "id_to_fp g s = Some (f s)"
  shows "is_route g (f s) (f t) (map f ids)"
proof -
  have ids: "ids_ok E g" using inv by (simp add: graph_inv_def)
  have "\<forall>i \<in> set ids. id_to_fp g i = Some (f i)" "successively (\<lambda>a b. linked g (f a) (f b)) ids"
    if "ids \<noteq> []" "id_to_fp g (hd ids) = Some (f (hd ids))" "successively (\<lambda>a b. b \<in> nbrs (adjacency g) a) ids" for ids
    using that
  proof (induction ids rule: induct_list012)
    case (3 x y zs)
    { case 1
      then have "id_to_fp g y = Some (f y)" using nbrs_known(1)[OF inv, of y x] f by auto
      then show ?case using 1 "3.IH" by simp }
    { case 2
      then have "id_to_fp g y = Some (f y)" using nbrs_known(1)[OF inv, of y x] f by auto
      then show ?case using 2 "3.IH" linked_iff_nbrs[OF inv, of x "f x" y "f y"] by simp }
  qed simp_all
  note this[of ids]
  then have "\<forall>i \<in> set ids. id_to_fp g i = Some (f i)" "successively (\<lambda>a b. linked g (f a) (f b)) ids"
    using r s by (auto simp: id_route_def)
  then show ?thesis using r ids_okD(1)[OF ids]
    by (auto simp: is_route_def id_route_def hd_map last_map successively_map)
qed

lemma shortest_path_spec:
  assumes inv: "graph_inv E g" and iter: "iter_laws E"
  shows "\<exists>r. find_shortest_path E g s t = Some (Inr r) \<and>
           (case r of
              None \<Rightarrow> \<nexists>q. is_route g s t q
            | Some p \<Rightarrow> is_route g s t p \<and> (\<forall>q. is_route g s t q \<longrightarrow> length p \<le> length q))"
proof -
  let ?f = "\<lambda>i. the (id_to_fp g i)"
  have ids: "ids_ok E g" using inv by (simp add: graph_inv_def)
  have known: "fp_to_id g s \<noteq> None" "fp_to_id g t \<noteq> None" if "is_route g s t q" for q
    using that unfolding is_route_def by (metis domIff hd_in_set last_in_set subsetD)+
  show ?thesis
  proof (cases "fp_to_id g s = None \<or> fp_to_id g t = None")
    case True
    then show ?thesis using known
      by (intro exI[of _ None]) (auto simp: find_shortest_path_def graph_id_def split: option.splits)
  next
    case False
    then obtain i j where ij: "fp_to_id g s = Some i" "fp_to_id g t = Some j" by auto
    then have fij: "id_to_fp g i = Some s" "id_to_fp g j = Some t" using ids_okD(1)[OF ids] by blast+
    have walk: "walk (nbrs (adjacency g)) i (length q - 1) j" if "is_route g s t q" for q
      using route_walk[OF inv, of q i j] that ij by (auto simp: is_route_def)
    obtain r where r: "bfs E g i j ({i}, Map.empty, [i]) = Some (Inr r)"
      and res: "search_result (nbrs (adjacency g)) ?f i j r"
      using bfs_correct[OF search_inv_start[of i "nbrs (adjacency g)" j] nbrs_known(2)[OF inv], of ?f E]
        nbrs_known(1)[OF inv] fij iter by auto
    have "find_shortest_path E g s t = Some (Inr r)"
      using r ij by (simp add: find_shortest_path_def graph_id_def)
    moreover have "case r of None \<Rightarrow> \<nexists>q. is_route g s t q
            | Some p \<Rightarrow> is_route g s t p \<and> (\<forall>q. is_route g s t q \<longrightarrow> length p \<le> length q)"
    proof (cases r)
      case None then show ?thesis using res walk by (auto simp: search_result_def)
    next
      case (Some p)
      obtain xs where xs: "id_route (nbrs (adjacency g)) i j xs" "p = map ?f xs"
        and le: "\<And>n. walk (nbrs (adjacency g)) i n j \<Longrightarrow> length p \<le> Suc n"
        using res Some by (auto simp: search_result_def)
      have "is_route g s t p" using id_route_is_route[OF inv xs(1), of ?f] xs(2) fij by simp
      moreover have "length p \<le> length q" if "is_route g s t q" for q
        using le[OF walk[OF that]] that by (cases q) (auto simp: is_route_def)
      ultimately show ?thesis using Some by simp
    qed
    ultimately show ?thesis by blast
  qed
qed

text \<open>
  (C8) On a consistent graph \<open>find_shortest_path\<close> always returns and never panics.  A route it returns
  starts and ends at the given fingerprints, follows stored adjacency descriptors between known
  nodes and has the least number of nodes of all such routes; where it returns \<open>None\<close> there is none.
\<close>

theorem find_shortest_path_correct:
  assumes inv: "graph_inv E g" and iter: "iter_laws E"
  shows "\<exists>r. find_shortest_path E g s t = Some (Inr r) \<and>
           (case r of
              None \<Rightarrow> \<nexists>q. is_route g s t q
            | Some p \<Rightarrow> is_route g s t p \<and> (\<forall>q. is_route g s t q \<longrightarrow> length p \<le> length q))"
  by (rule shortest_path_spec[OF assms])

lemma demo_route_exists: "is_route demo_graph (demo_fp 1) (demo_fp 2) [demo_fp 1, demo_fp 2]"
proof -
  have ids: "ids_ok demo_topo demo_graph" using demo_graph_facts(1) by (simp add: graph_inv_def)
  have "fp_to_id demo_graph (demo_fp 1) = Some 0" "fp_to_id demo_graph (demo_fp 2) = Some 1"
    using demo_graph_facts(4) ids_okD(1)[OF ids] by auto
  then show ?thesis using demo_graph_facts(2) by (auto simp: is_route_def linked_def demo_adj_def Let_def)
qed

theorem find_shortest_path_correct_witness:
  "\<exists>p. find_shortest_path demo_topo demo_graph (demo_fp 1) (demo_fp 2) = Some (Inr (Some p))
     \<and> is_route demo_graph (demo_fp 1) (demo_fp 2) p \<and> length p \<le> 2"
  using find_shortest_path_correct[OF demo_graph_facts(1) demo_topo_iter, of "demo_fp 1" "demo_fp 2"]
    demo_route_exists by (fastforce split: option.splits)

end
