(* ===== verification/Reply_Block_Store.thy ===== *)
theory Reply_Block_Store
  imports Reply_Block
begin

text \<open>
  \<open>src/daemon/reply_block_store.rs\<close>: a bounded stack of reply blocks per fingerprint.  The outer
  container is the third-party \<open>lru::LruCache\<close>; it is the parameter \<open>lru_ops\<close>, and \<open>lru_laws\<close> states
  its documented behaviour: looking up keeps the contents, inserting a new key evicts at most other
  keys and only when the cache is full, and a write through the returned reference replaces the value.
\<close>

section \<open>Deques\<close>

record rb_deque =
  deque :: "reply_block list"
  capacity :: nat

definition rb_deque_new :: "nat \<Rightarrow> rb_deque" where
  "rb_deque_new cap = \<lparr>deque = [], capacity = cap\<rparr>"

definition rb_deque_insert :: "rb_deque \<Rightarrow> reply_block \<Rightarrow> rb_deque" where
  "rb_deque_insert d item =
     (let d1 = (if length (deque d) = capacity d then d\<lparr>deque := tl (deque d)\<rparr> else d)
      in d1\<lparr>deque := deque d1 @ [item]\<rparr>)"

definition rb_deque_pop :: "rb_deque \<Rightarrow> reply_block option \<times> rb_deque" where
  "rb_deque_pop d =
     (if deque d = [] then (None, d) else (Some (last (deque d)), d\<lparr>deque := butlast (deque d)\<rparr>))"

section \<open>The cache\<close>

record 'l lru_ops =
  lru_new :: "nat \<Rightarrow> 'l"
  lru_view :: "'l \<Rightarrow> fingerprint \<rightharpoonup> rb_deque"
  lru_cap :: "'l \<Rightarrow> nat"
  lru_get_or_insert_mut :: "'l \<Rightarrow> fingerprint \<Rightarrow> rb_deque \<Rightarrow> 'l"
  lru_get_mut :: "'l \<Rightarrow> fingerprint \<Rightarrow> 'l"
  lru_write :: "'l \<Rightarrow> fingerprint \<Rightarrow> rb_deque \<Rightarrow> 'l"

definition lru_insert_law :: "('l, 'z) lru_ops_scheme \<Rightarrow> ('l \<Rightarrow> bool) \<Rightarrow> bool" where
  "lru_insert_law L ok \<longleftrightarrow> (\<forall>l k v. ok l \<longrightarrow> (let l' = lru_get_or_insert_mut L l k v in
        ok l' \<and> lru_cap L l' = lru_cap L l \<and>
        lru_view L l' k = Some (case lru_view L l k of Some w \<Rightarrow> w | None \<Rightarrow> v) \<and>
        (\<forall>k'. k' \<noteq> k \<longrightarrow> lru_view L l' k' = lru_view L l k' \<or> lru_view L l' k' = None \<and>
           k \<notin> dom (lru_view L l) \<and> card (dom (lru_view L l)) = lru_cap L l)))"

definition lru_laws :: "('l, 'z) lru_ops_scheme \<Rightarrow> ('l \<Rightarrow> bool) \<Rightarrow> bool" where
  "lru_laws L ok \<longleftrightarrow>
     (\<forall>n. 0 < n \<longrightarrow> ok (lru_new L n) \<and> lru_view L (lru_new L n) = Map.empty \<and> lru_cap L (lru_new L n) = n) \<and>
     (\<forall>l. ok l \<longrightarrow> finite (dom (lru_view L l)) \<and> card (dom (lru_view L l)) \<le> lru_cap L l) \<and>
     lru_insert_law L ok \<and>
     (\<forall>l k. ok l \<longrightarrow> ok (lru_get_mut L l k) \<and> lru_cap L (lru_get_mut L l k) = lru_cap L l \<and>
        lru_view L (lru_get_mut L l k) = lru_view L l) \<and>
     (\<forall>l k v. ok l \<and> k \<in> dom (lru_view L l) \<longrightarrow> ok (lru_write L l k v) \<and>
        lru_cap L (lru_write L l k v) = lru_cap L l \<and> lru_view L (lru_write L l k v) = (lru_view L l)(k \<mapsto> v))"

section \<open>The store\<close>

definition rb_store_new :: "('l, 'z) lru_ops_scheme \<Rightarrow> 'l" where
  "rb_store_new L = lru_new L 5000"

definition rb_store_insert :: "('l, 'z) lru_ops_scheme \<Rightarrow> fingerprint \<Rightarrow> reply_block \<Rightarrow> 'l \<Rightarrow> 'l" where
  "rb_store_insert L fp rb l =
     (let l1 = lru_get_or_insert_mut L l fp (rb_deque_new 1000)
      in case lru_view L l1 fp of
           Some d \<Rightarrow> lru_write L l1 fp (rb_deque_insert d rb)
         | None \<Rightarrow> l1)"

definition rb_store_pop :: "('l, 'z) lru_ops_scheme \<Rightarrow> fingerprint \<Rightarrow> 'l \<Rightarrow> reply_block option \<times> 'l" where
  "rb_store_pop L fp l =
     (let l1 = lru_get_mut L l fp
      in case lru_view L l1 fp of
           Some d \<Rightarrow> (let (rb, d') = rb_deque_pop d in (rb, lru_write L l1 fp d'))
         | None \<Rightarrow> (None, l1))"

section \<open>Invariant and stacks\<close>

definition rb_store_inv :: "('l, 'z) lru_ops_scheme \<Rightarrow> ('l \<Rightarrow> bool) \<Rightarrow> 'l \<Rightarrow> bool" where
  "rb_store_inv L ok l \<longleftrightarrow> ok l \<and> lru_cap L l = 5000 \<and>
     (\<forall>fp d. lru_view L l fp = Some d \<longrightarrow> capacity d = 1000 \<and> length (deque d) \<le> 1000)"

text \<open>The reply blocks held for a fingerprint, newest first.\<close>

definition rb_stack :: "('l, 'z) lru_ops_scheme \<Rightarrow> 'l \<Rightarrow> fingerprint \<Rightarrow> reply_block list" where
  "rb_stack L l fp = (case lru_view L l fp of None \<Rightarrow> [] | Some d \<Rightarrow> rev (deque d))"

lemma lru_get_or_insert:
  assumes "lru_laws L ok" "ok l"
  shows "ok (lru_get_or_insert_mut L l k v)" "lru_cap L (lru_get_or_insert_mut L l k v) = lru_cap L l"
    "lru_view L (lru_get_or_insert_mut L l k v) k = Some (case lru_view L l k of Some w \<Rightarrow> w | None \<Rightarrow> v)"
    "k' \<noteq> k \<Longrightarrow> lru_view L (lru_get_or_insert_mut L l k v) k' = lru_view L l k'
       \<or> lru_view L (lru_get_or_insert_mut L l k v) k' = None \<and> k \<notin> dom (lru_view L l)
         \<and> card (dom (lru_view L l)) = lru_cap L l"
proof -
  have "lru_insert_law L ok" using assms(1) unfolding lru_laws_def by (elim conjE)
  from this[unfolded lru_insert_law_def, rule_format, OF assms(2), of k v]
  have *: "let l' = lru_get_or_insert_mut L l k v in
        ok l' \<and> lru_cap L l' = lru_cap L l \<and>
        lru_view L l' k = Some (case lru_view L l k of Some w \<Rightarrow> w | None \<Rightarrow> v) \<and>
        (\<forall>k'. k' \<noteq> k \<longrightarrow> lru_view L l' k' = lru_view L l k' \<or> lru_view L l' k' = None \<and>
           k \<notin> dom (lru_view L l) \<and> card (dom (lru_view L l)) = lru_cap L l)" .
  show "ok (lru_get_or_insert_mut L l k v)" "lru_cap L (lru_get_or_insert_mut L l k v) = lru_cap L l"
    "lru_view L (lru_get_or_insert_mut L l k v) k = Some (case lru_view L l k of Some w \<Rightarrow> w | None \<Rightarrow> v)"
    "k' \<noteq> k \<Longrightarrow> lru_view L (lru_get_or_insert_mut L l k v) k' = lru_view L l k'
       \<or> lru_view L (lru_get_or_insert_mut L l k v) k' = None \<and> k \<notin> dom (lru_view L l)
         \<and> card (dom (lru_view L l)) = lru_cap L l"
    using * unfolding Let_def by simp_all
qed

lemma lru_others:
  assumes "lru_laws L ok" "ok l"
  shows "ok (lru_get_mut L l k)" "lru_cap L (lru_get_mut L l k) = lru_cap L l"
    "lru_view L (lru_get_mut L l k) = lru_view L l"
    "k \<in> dom (lru_view L l) \<Longrightarrow> ok (lru_write L l k v)"
    "k \<in> dom (lru_view L l) \<Longrightarrow> lru_cap L (lru_write L l k v) = lru_cap L l"
    "k \<in> dom (lru_view L l) \<Longrightarrow> lru_view L (lru_write L l k v) = (lru_view L l)(k \<mapsto> v)"
    "finite (dom (lru_view L l))" "card (dom (lru_view L l)) \<le> lru_cap L l"
  using assms unfolding lru_laws_def by blast+

lemma rb_deque_insert_stack:
  assumes "length (deque d) \<le> capacity d" "0 < capacity d"
  shows "rev (deque (rb_deque_insert d rb)) = rb # take (capacity d - 1) (rev (deque d))"
    and "capacity (rb_deque_insert d rb) = capacity d" "length (deque (rb_deque_insert d rb)) \<le> capacity d"
proof -
  show cap: "capacity (rb_deque_insert d rb) = capacity d" by (simp add: rb_deque_insert_def Let_def)
  show "length (deque (rb_deque_insert d rb)) \<le> capacity d"
    using assms by (auto simp: rb_deque_insert_def Let_def)
  have "rev (tl (deque d)) = take (length (deque d) - 1) (rev (deque d))"
    by (cases "deque d") simp_all
  then show "rev (deque (rb_deque_insert d rb)) = rb # take (capacity d - 1) (rev (deque d))"
    using assms by (auto simp: rb_deque_insert_def Let_def)
qed

lemma rb_deque_pop_stack:
  "\<exists>e. rb_deque_pop d = (case rev (deque d) of [] \<Rightarrow> None | rb # _ \<Rightarrow> Some rb, e)
     \<and> rev (deque e) = tl (rev (deque d)) \<and> capacity e = capacity d"
  by (cases "deque d" rule: rev_cases) (simp_all add: rb_deque_pop_def)

lemma rb_store_insert_effect:
  assumes L: "lru_laws L ok" and inv: "rb_store_inv L ok l"
  shows "rb_store_inv L ok (rb_store_insert L fp rb l)"
    and "rb_stack L (rb_store_insert L fp rb l) fp = rb # take 999 (rb_stack L l fp)"
    and "fp' \<noteq> fp \<Longrightarrow> rb_stack L (rb_store_insert L fp rb l) fp' \<in> {rb_stack L l fp', []}"
proof -
  have ok: "ok l" using inv by (simp add: rb_store_inv_def)
  let ?l = "lru_get_or_insert_mut L l fp (rb_deque_new 1000)"
  note g = lru_get_or_insert[OF L ok, where k = fp and v = "rb_deque_new 1000"]
  define d where "d = (case lru_view L l fp of Some w \<Rightarrow> w | None \<Rightarrow> rb_deque_new 1000)"
  have eq: "rb_store_insert L fp rb l = lru_write L ?l fp (rb_deque_insert d rb)"
    using g(3) by (simp add: rb_store_insert_def d_def Let_def)
  have d: "length (deque d) \<le> capacity d" "capacity d = 1000" "rev (deque d) = rb_stack L l fp"
    using inv by (auto simp: d_def rb_deque_new_def rb_store_inv_def rb_stack_def split: option.splits)
  have "fp \<in> dom (lru_view L ?l)" using g(3) by blast
  note w = lru_others(4-6)[OF L g(1) this, of "rb_deque_insert d rb"]
  note di = rb_deque_insert_stack[OF d(1), unfolded d(2), simplified, of rb]
  have "capacity e = 1000 \<and> length (deque e) \<le> 1000" if "lru_view L (rb_store_insert L fp rb l) k = Some e" for k e
    using that g(4)[of k] inv di d(2) by (auto simp: eq w rb_store_inv_def split: if_splits)
  then show "rb_store_inv L ok (rb_store_insert L fp rb l)"
    using w g(2) inv by (simp add: rb_store_inv_def eq)
  show "rb_stack L (rb_store_insert L fp rb l) fp = rb # take 999 (rb_stack L l fp)"
    using di(1) d(3) by (simp add: rb_stack_def eq w)
  show "fp' \<noteq> fp \<Longrightarrow> rb_stack L (rb_store_insert L fp rb l) fp' \<in> {rb_stack L l fp', []}"
    using g(4)[of fp'] by (auto simp: rb_stack_def eq w)
qed

lemma rb_store_pop_effect:
  assumes L: "lru_laws L ok" and inv: "rb_store_inv L ok l"
  shows "rb_store_inv L ok (snd (rb_store_pop L fp l))"
    and "fst (rb_store_pop L fp l) = (case rb_stack L l fp of [] \<Rightarrow> None | rb # _ \<Rightarrow> Some rb)"
    and "rb_stack L (snd (rb_store_pop L fp l)) = (rb_stack L l)(fp := tl (rb_stack L l fp))"
proof -
  have ok: "ok l" using inv by (simp add: rb_store_inv_def)
  note g = lru_others(1-3)[OF L ok, of fp]
  have *: "rb_store_inv L ok (snd (rb_store_pop L fp l))
    \<and> fst (rb_store_pop L fp l) = (case rb_stack L l fp of [] \<Rightarrow> None | rb # _ \<Rightarrow> Some rb)
    \<and> rb_stack L (snd (rb_store_pop L fp l)) = (rb_stack L l)(fp := tl (rb_stack L l fp))"
  proof (cases "lru_view L l fp")
    case None
    then show ?thesis using g inv by (auto simp: rb_store_pop_def Let_def rb_stack_def rb_store_inv_def fun_eq_iff)
  next
    case (Some d)
    then have "fp \<in> dom (lru_view L (lru_get_mut L l fp))" using g by auto
    note w = lru_others(4-6)[OF L g(1) this]
    obtain e where e: "rb_deque_pop d = (case rev (deque d) of [] \<Rightarrow> None | rb # _ \<Rightarrow> Some rb, e)"
      and ed: "rev (deque e) = tl (rev (deque d))" "capacity e = capacity d"
      using rb_deque_pop_stack by blast
    have "length (deque e) \<le> length (deque d)" using ed(1) by (metis length_rev length_tl diff_le_self)
    moreover have "length (deque d) \<le> 1000" using inv Some by (simp add: rb_store_inv_def)
    ultimately have "length (deque e) \<le> 1000" by simp
    then show ?thesis using Some g w e ed inv
      by (auto simp: rb_store_pop_def Let_def rb_stack_def rb_store_inv_def fun_eq_iff)
  qed
  then show "rb_store_inv L ok (snd (rb_store_pop L fp l))"
    and "fst (rb_store_pop L fp l) = (case rb_stack L l fp of [] \<Rightarrow> None | rb # _ \<Rightarrow> Some rb)"
    and "rb_stack L (snd (rb_store_pop L fp l)) = (rb_stack L l)(fp := tl (rb_stack L l fp))" by auto
qed

section \<open>Runs\<close>

datatype store_op = StoreInsert fingerprint reply_block | StorePop fingerprint

fun store_step :: "('l, 'z) lru_ops_scheme \<Rightarrow> store_op \<Rightarrow> 'l \<Rightarrow> 'l" where
  "store_step L (StoreInsert fp rb) l = rb_store_insert L fp rb l"
| "store_step L (StorePop fp) l = snd (rb_store_pop L fp l)"

interpretation rb_store: stable_machine "store_step L" "\<lambda>l. lru_laws L ok \<and> rb_store_inv L ok l"
  for L :: "('l, 'z) lru_ops_scheme" and ok
proof
  fix l a assume "lru_laws L ok \<and> rb_store_inv L ok l"
  then show "lru_laws L ok \<and> rb_store_inv L ok (store_step L a l)"
    by (cases a) (auto intro: rb_store_insert_effect rb_store_pop_effect)
qed

lemma rb_store_new_inv: "lru_laws L ok \<Longrightarrow> rb_store_inv L ok (rb_store_new L)"
  by (simp add: lru_laws_def rb_store_inv_def rb_store_new_def)

section \<open>An instance of the cache\<close>

text \<open>Entries most recently used first; used by the witnesses.\<close>

type_synonym demo_cache = "nat \<times> (fingerprint \<times> rb_deque) list"

definition to_front :: "fingerprint \<Rightarrow> (fingerprint \<times> rb_deque) list \<Rightarrow> (fingerprint \<times> rb_deque) list" where
  "to_front k xs = (case map_of xs k of None \<Rightarrow> xs | Some v \<Rightarrow> (k, v) # filter (\<lambda>e. fst e \<noteq> k) xs)"

definition demo_lru :: "demo_cache lru_ops" where
  "demo_lru = \<lparr>lru_new = (\<lambda>n. (n, [])), lru_view = (\<lambda>l. map_of (snd l)), lru_cap = fst,
     lru_get_or_insert_mut = (\<lambda>(n, xs) k v. case map_of xs k of
        None \<Rightarrow> (n, (k, v) # take (n - 1) xs) | Some _ \<Rightarrow> (n, to_front k xs)),
     lru_get_mut = (\<lambda>(n, xs) k. (n, to_front k xs)),
     lru_write = (\<lambda>(n, xs) k v. (n, map (\<lambda>e. if fst e = k then (k, v) else e) xs))\<rparr>"

definition demo_lru_ok :: "demo_cache \<Rightarrow> bool" where
  "demo_lru_ok l \<longleftrightarrow> 0 < fst l \<and> length (snd l) \<le> fst l \<and> distinct (map fst (snd l))"

lemma map_of_to_front [simp]: "map_of (to_front k xs) = map_of xs"
proof (cases "map_of xs k")
  case (Some v)
  have "map_of (filter (\<lambda>e. fst e \<noteq> k) xs) k' = (if k' = k then None else map_of xs k')" for k'
    by (induction xs) auto
  then show ?thesis using Some by (auto simp: to_front_def fun_eq_iff)
qed (simp add: to_front_def)

lemma to_front_ok:
  assumes "distinct (map fst xs)"
  shows "distinct (map fst (to_front k xs))" "length (to_front k xs) = length xs"
proof -
  show d: "distinct (map fst (to_front k xs))"
    using assms by (auto simp: to_front_def distinct_map_filter split: option.splits)
  have "length (to_front k xs) = card (set (map fst (to_front k xs)))" using d by (metis distinct_card length_map)
  also have "set (map fst (to_front k xs)) = set (map fst xs)"
    using map_of_to_front[of k xs] by (metis dom_map_of_conv_image_fst list.set_map)
  finally show "length (to_front k xs) = length xs" using assms by (metis distinct_card length_map)
qed

lemma map_of_write: "map_of (map (\<lambda>e. if fst e = k then (k, v) else e) xs) k' =
    (if k' = k \<and> k \<in> fst ` set xs then Some v else map_of xs k')"
proof (induction xs)
  case (Cons e xs)
  then show ?case by (cases e; cases "fst e = k"; cases "k' = k") simp_all
qed simp

lemma demo_insert_law: "lru_insert_law demo_lru demo_lru_ok"
proof -
  have tk: "map_of (take m xs) k' = map_of xs k' \<or> map_of (take m xs) k' = None"
    if "distinct (map fst xs)" for m and xs :: "(fingerprint \<times> rb_deque) list" and k'
    using that map_add_find_right[of "map_of (take m xs)" k'] map_of_append[of "take m xs" "drop m xs"]
    by (cases "map_of (take m xs) k'") (auto simp: map_add_def split: option.splits)
  have len: "card (dom (map_of xs)) = length xs" if "distinct (map fst xs)" for xs :: "(fingerprint \<times> rb_deque) list"
    using that by (metis distinct_card dom_map_of_conv_image_fst length_map list.set_map)
  have fresh: "distinct (map fst ((k, v) # take m xs))" if "distinct (map fst xs)" "map_of xs k = None"
    for k v m and xs :: "(fingerprint \<times> rb_deque) list"
    using that by (auto simp: map_of_eq_None_iff simp flip: take_map dest: in_set_takeD)
  have full: "m < length xs" if "map_of (take m xs) k' \<noteq> map_of xs k'"
    for m and xs :: "(fingerprint \<times> rb_deque) list" and k'
    using that by (cases "m < length xs") auto
  show ?thesis
    unfolding lru_insert_law_def Let_def
  proof (intro allI impI)
    fix l :: demo_cache and k v assume ok: "demo_lru_ok l"
    obtain n xs where l: "l = (n, xs)" by (cases l)
    show "demo_lru_ok (lru_get_or_insert_mut demo_lru l k v) \<and>
       lru_cap demo_lru (lru_get_or_insert_mut demo_lru l k v) = lru_cap demo_lru l \<and>
       lru_view demo_lru (lru_get_or_insert_mut demo_lru l k v) k =
         Some (case lru_view demo_lru l k of None \<Rightarrow> v | Some w \<Rightarrow> w) \<and>
       (\<forall>k'. k' \<noteq> k \<longrightarrow> lru_view demo_lru (lru_get_or_insert_mut demo_lru l k v) k' = lru_view demo_lru l k' \<or>
         lru_view demo_lru (lru_get_or_insert_mut demo_lru l k v) k' = None \<and>
         k \<notin> dom (lru_view demo_lru l) \<and> card (dom (lru_view demo_lru l)) = lru_cap demo_lru l)"
    proof (cases "map_of xs k")
      case None
      have d: "distinct (map fst xs)" "length xs \<le> n" "0 < n" using ok l by (auto simp: demo_lru_ok_def)
      have alt: "map_of (take (n - Suc 0) xs) k' = map_of xs k' \<or> map_of (take (n - Suc 0) xs) k' = None \<and> length xs = n"
        for k' using tk[OF d(1), of "n - Suc 0" k'] full[of "n - Suc 0" xs k'] d(2) by linarith
      have eq: "lru_get_or_insert_mut demo_lru l k v = (n, (k, v) # take (n - Suc 0) xs)"
        using None l by (simp add: demo_lru_def)
      have "demo_lru_ok (n, (k, v) # take (n - Suc 0) xs)"
        using fresh[OF d(1) None, of v "n - Suc 0"] d by (simp add: demo_lru_ok_def)
      then show ?thesis unfolding eq using None l len[OF d(1)] alt by (simp add: demo_lru_def domIff)
    next
      case (Some w)
      then show ?thesis using ok l to_front_ok[of xs k]
        by (simp add: demo_lru_def demo_lru_ok_def del: map_of_eq_Some_iff)
    qed
  qed
qed

lemma demo_lru_laws: "lru_laws demo_lru demo_lru_ok"
proof -
  have "card (dom (map_of xs)) = length xs" if "distinct (map fst xs)" for xs :: "(fingerprint \<times> rb_deque) list"
    using that by (metis distinct_card dom_map_of_conv_image_fst length_map list.set_map)
  moreover have "map fst (map (\<lambda>e. if fst e = k then (k, v) else e) xs) = map fst xs"
    for k v and xs :: "(fingerprint \<times> rb_deque) list"
    by (induction xs) auto
  ultimately show ?thesis
    unfolding lru_laws_def using demo_insert_law to_front_ok
    by (auto simp: demo_lru_def demo_lru_ok_def map_of_write dom_map_of_conv_image_fst fun_eq_iff finite_dom_map_of
        simp del: map_map)
qed

section \<open>Properties\<close>

text \<open>
  (C29) The store is a last-in-first-out stack per fingerprint.  After an insertion the next pop for
  that fingerprint returns the inserted reply block and leaves at most the 999 newest of the older
  ones; no operation touches another fingerprint's stack except by evicting it whole.
\<close>

theorem rb_store_lifo:
  assumes L: "lru_laws L ok" and inv: "rb_store_inv L ok l"
  shows "let l1 = rb_store_insert L fp rb l; (r, l2) = rb_store_pop L fp l1
         in r = Some rb \<and> rb_stack L l2 fp = take 999 (rb_stack L l fp) \<and>
            (\<forall>fp'. fp' \<noteq> fp \<longrightarrow> rb_stack L l2 fp' = rb_stack L l1 fp' \<and> rb_stack L l1 fp' \<in> {rb_stack L l fp', []})"
proof -
  note i = rb_store_insert_effect[OF L inv, where fp = fp and rb = rb]
  note p = rb_store_pop_effect[OF L i(1), where fp = fp]
  show ?thesis using i(2,3) p(2,3) by (simp add: Let_def split_beta)
qed

theorem rb_store_lifo_witness:
  "fst (rb_store_pop demo_lru (Fingerprint [1]) (rb_store_insert demo_lru (Fingerprint [1])
     \<lparr>rb_header = \<lparr>outer = [], inner = []\<rparr>, e2e_dest = OnionPublic [5]\<rparr> (rb_store_new demo_lru)))
   = Some \<lparr>rb_header = \<lparr>outer = [], inner = []\<rparr>, e2e_dest = OnionPublic [5]\<rparr>"
  using rb_store_lifo[OF demo_lru_laws rb_store_new_inv[OF demo_lru_laws]]
  by (simp add: Let_def split_beta)

text \<open>
  The store is bounded: after any sequence of insertions and pops it holds at most 5000
  fingerprints with at most 1000 reply blocks each.
\<close>

theorem rb_store_bounded:
  assumes L: "lru_laws L ok"
  shows "finite (dom (lru_view L (fold (store_step L) ops (rb_store_new L)))) \<and>
         card (dom (lru_view L (fold (store_step L) ops (rb_store_new L)))) \<le> 5000 \<and>
         length (rb_stack L (fold (store_step L) ops (rb_store_new L)) fp) \<le> 1000"
proof -
  let ?l = "fold (store_step L) ops (rb_store_new L)"
  have "rb_store_inv L ok ?l" using rb_store.run_inv[of L ok] rb_store_new_inv[OF L] L by blast
  then have l: "ok ?l" "lru_cap L ?l = 5000" "\<And>d. lru_view L ?l fp = Some d \<Longrightarrow> length (deque d) \<le> 1000"
    by (auto simp: rb_store_inv_def)
  have "length (rb_stack L ?l fp) \<le> 1000" using l(3) by (auto simp: rb_stack_def split: option.splits)
  then show ?thesis using lru_others(7,8)[OF L l(1)] l(2) by simp
qed

theorem rb_store_bounded_witness:
  "length (rb_stack demo_lru (fold (store_step demo_lru) [StorePop (Fingerprint [1])] (rb_store_new demo_lru)) (Fingerprint [1])) \<le> 1000"
  using rb_store_bounded[OF demo_lru_laws] by blast

end
