(* ===== verification/Neigh_Table.thy ===== *)
theory Neigh_Table
  imports Topology
begin

text \<open>
  \<open>src/daemon/neightable.rs\<close> and the queues of \<open>src/daemon/link_connection.rs\<close>.  A
  \<open>LinkConnection\<close> is a shared handle; the model names connections by numbers and keeps their
  state in the store \<open>links\<close> of the daemon.  A bounded channel is a list that \<open>try_send\<close> refuses to
  grow beyond its capacity.  Instants are natural numbers of milliseconds, an argument of the
  operations that read the clock.
\<close>

section \<open>Bounded channels\<close>

definition try_send :: "nat \<Rightarrow> 'a \<Rightarrow> 'a list \<Rightarrow> 'a list option" where
  "try_send cap x q = (if length q < cap then Some (q @ [x]) else None)"

text \<open>\<open>let _ = chan.try_send(x)\<close>: the message is dropped when the channel is full.\<close>

definition send_or_drop :: "nat \<Rightarrow> 'a \<Rightarrow> 'a list \<Rightarrow> 'a list" where
  "send_or_drop cap x q = (case try_send cap x q of Some q' \<Rightarrow> q' | None \<Rightarrow> q)"

lemma send_or_drop_simps [simp]:
  "length q < cap \<Longrightarrow> send_or_drop cap x q = q @ [x]"
  "\<not> length q < cap \<Longrightarrow> send_or_drop cap x q = q"
  by (simp_all add: send_or_drop_def try_send_def)

lemma length_send_or_drop: "length q \<le> cap \<Longrightarrow> length (send_or_drop cap x q) \<le> cap"
  by (cases "length q < cap") simp_all

section \<open>Data\<close>

type_synonym conn = nat
type_synonym instant = nat

record link_connection =
  mux_peer_pk :: bytes
  remote_idpk :: identity_public
  send_outgoing :: "raw_packet list"
  recv_incoming :: "raw_packet list"

record neigh_table =
  neigh_entries :: "fingerprint \<rightharpoonup> conn \<times> instant option"
  neigh_incoming :: "raw_packet list"

section \<open>Operations\<close>

definition neigh_table_new :: neigh_table where
  "neigh_table_new = \<lparr>neigh_entries = Map.empty, neigh_incoming = []\<rparr>"

text \<open>\<open>recv\<close> waits while the channel is empty: \<open>None\<close>.\<close>

definition recv_raw_packet :: "neigh_table \<Rightarrow> (raw_packet \<times> neigh_table) option" where
  "recv_raw_packet t = (case neigh_incoming t of [] \<Rightarrow> None | p # ps \<Rightarrow> Some (p, t\<lparr>neigh_incoming := ps\<rparr>))"

definition inject_asif_incoming :: "raw_packet \<Rightarrow> neigh_table \<Rightarrow> neigh_table" where
  "inject_asif_incoming p t = t\<lparr>neigh_incoming := send_or_drop 100 p (neigh_incoming t)\<rparr>"

definition neigh_insert_inner :: "instant \<Rightarrow> fingerprint \<Rightarrow> conn \<Rightarrow> nat option \<Rightarrow> neigh_table \<Rightarrow> neigh_table" where
  "neigh_insert_inner now fp c ttl t =
     t\<lparr>neigh_entries := (neigh_entries t)(fp \<mapsto> (c, map_option (\<lambda>d. now + d) ttl))\<rparr>"

definition neigh_insert :: "instant \<Rightarrow> fingerprint \<Rightarrow> conn \<Rightarrow> nat \<Rightarrow> neigh_table \<Rightarrow> neigh_table" where
  "neigh_insert now fp c ttl t = neigh_insert_inner now fp c (Some ttl) t"

definition neigh_insert_pinned :: "instant \<Rightarrow> fingerprint \<Rightarrow> conn \<Rightarrow> neigh_table \<Rightarrow> neigh_table" where
  "neigh_insert_pinned now fp c t = neigh_insert_inner now fp c None t"

definition neigh_lookup :: "neigh_table \<Rightarrow> fingerprint \<Rightarrow> conn option" where
  "neigh_lookup t fp = map_option fst (neigh_entries t fp)"

definition garbage_collect :: "instant \<Rightarrow> neigh_table \<Rightarrow> neigh_table" where
  "garbage_collect now t = t\<lparr>neigh_entries := (\<lambda>fp. case neigh_entries t fp of
     Some (c, Some expiry) \<Rightarrow> if expiry > now then Some (c, Some expiry) else None
   | e \<Rightarrow> e)\<rparr>"

text \<open>\<open>order\<close> is the iteration order of the table.\<close>

definition all_neighs :: "fingerprint list \<Rightarrow> neigh_table \<Rightarrow> conn list" where
  "all_neighs order t = List.map_filter (neigh_lookup t) order"

text \<open>
  One turn of the task that \<open>insert_inner\<close> spawns for an entry: it moves a packet of the
  connection to the table's incoming queue.
\<close>

definition neigh_pump :: "link_connection \<Rightarrow> neigh_table \<Rightarrow> (link_connection \<times> neigh_table) option" where
  "neigh_pump l t = (case recv_incoming l of
     [] \<Rightarrow> None
   | p # ps \<Rightarrow> Some (l\<lparr>recv_incoming := ps\<rparr>, inject_asif_incoming p t))"

text \<open>\<open>LinkConnection::send_raw_packet\<close>: a full queue drops the packet.\<close>

definition send_raw_packet :: "raw_packet \<Rightarrow> link_connection \<Rightarrow> link_connection" where
  "send_raw_packet p l = l\<lparr>send_outgoing := send_or_drop 100 p (send_outgoing l)\<rparr>"

section \<open>Properties\<close>

datatype neigh_op =
    NeighInsert instant fingerprint conn nat | NeighPinned instant fingerprint conn
  | NeighCollect instant | NeighInject raw_packet

fun neigh_step :: "neigh_op \<Rightarrow> neigh_table \<Rightarrow> neigh_table" where
  "neigh_step (NeighInsert now fp c ttl) t = neigh_insert now fp c ttl t"
| "neigh_step (NeighPinned now fp c) t = neigh_insert_pinned now fp c t"
| "neigh_step (NeighCollect now) t = garbage_collect now t"
| "neigh_step (NeighInject p) t = inject_asif_incoming p t"

text \<open>The last insertion for a fingerprint in a sequence of operations, with its time and lifetime.\<close>

fun last_insert :: "fingerprint \<Rightarrow> neigh_op list \<Rightarrow> (conn \<times> instant option) option" where
  "last_insert fp [] = None"
| "last_insert fp (o' # os) = (case last_insert fp os of Some e \<Rightarrow> Some e | None \<Rightarrow>
     (case o' of NeighInsert now f c ttl \<Rightarrow> if f = fp then Some (c, Some (now + ttl)) else None
      | NeighPinned now f c \<Rightarrow> if f = fp then Some (c, None) else None
      | _ \<Rightarrow> None))"

fun op_time :: "neigh_op \<Rightarrow> instant" where
  "op_time (NeighCollect now) = now"
| "op_time _ = 0"

interpretation neigh_queue: stable_machine neigh_step "\<lambda>t. length (neigh_incoming t) \<le> 100"
proof
  fix t :: neigh_table and a assume "length (neigh_incoming t) \<le> 100"
  then show "length (neigh_incoming (neigh_step a t)) \<le> 100"
    by (cases a) (auto simp: neigh_insert_def neigh_insert_pinned_def neigh_insert_inner_def garbage_collect_def
        inject_asif_incoming_def intro: length_send_or_drop)
qed

lemma neigh_step_entry:
  "neigh_entries (neigh_step a t) fp =
     (case last_insert fp [a] of Some e \<Rightarrow> Some e
      | None \<Rightarrow> (case neigh_entries t fp of
          Some (c, Some expiry) \<Rightarrow> if (case a of NeighCollect now \<Rightarrow> expiry \<le> now | _ \<Rightarrow> False) then None else Some (c, Some expiry)
        | e \<Rightarrow> e))"
  by (cases a) (auto simp: neigh_insert_def neigh_insert_pinned_def neigh_insert_inner_def garbage_collect_def
      inject_asif_incoming_def split: option.splits)

definition neigh_run :: "neigh_op list \<Rightarrow> neigh_table" where
  "neigh_run os = fold neigh_step os neigh_table_new"

lemma neigh_run_snoc: "neigh_run (os @ [a]) = neigh_step a (neigh_run os)"
  by (simp add: neigh_run_def)

lemma last_insert_snoc:
  "last_insert fp (os @ [a]) = (case last_insert fp [a] of Some e \<Rightarrow> Some e | None \<Rightarrow> last_insert fp os)"
  by (induction os) (auto split: option.splits)

lemma neigh_run_entry:
  "case last_insert fp os of
     None \<Rightarrow> neigh_entries (neigh_run os) fp = None
   | Some (c, None) \<Rightarrow> neigh_entries (neigh_run os) fp = Some (c, None)
   | Some (c, Some expiry) \<Rightarrow> neigh_entries (neigh_run os) fp \<in> {None, Some (c, Some expiry)} \<and>
       ((\<forall>a \<in> set os. op_time a < expiry) \<longrightarrow> neigh_entries (neigh_run os) fp = Some (c, Some expiry))"
proof (induction os rule: rev_induct)
  case Nil then show ?case by (simp add: neigh_run_def neigh_table_new_def)
next
  case (snoc a os)
  show ?case
  proof (cases "last_insert fp [a]")
    case (Some e)
    then have "neigh_entries (neigh_run (os @ [a])) fp = Some e" by (simp add: neigh_run_snoc neigh_step_entry del: last_insert.simps neigh_step.simps)
    then show ?thesis using Some by (cases e) (auto simp: last_insert_snoc simp del: last_insert.simps split: option.splits)
  next
    case None
    then show ?thesis using snoc
      by (cases a; cases "last_insert fp os")
        (auto simp: last_insert_snoc neigh_run_snoc neigh_step_entry simp del: neigh_step.simps split: option.splits if_splits)
  qed
qed

text \<open>
  (C30) Whatever the order of insertions, garbage collections and injected packets, a lookup finds the
  connection of the last insertion for the fingerprint when that one is pinned or was given a
  lifetime beyond every collection; it never finds an older connection; and the incoming
  queue never exceeds its 100 packets.
\<close>

theorem neigh_table_lookup:
  "(case last_insert fp os of
      None \<Rightarrow> neigh_lookup (neigh_run os) fp = None
    | Some (c, None) \<Rightarrow> neigh_lookup (neigh_run os) fp = Some c
    | Some (c, Some expiry) \<Rightarrow> neigh_lookup (neigh_run os) fp \<in> {None, Some c} \<and>
        ((\<forall>a \<in> set os. op_time a < expiry) \<longrightarrow> neigh_lookup (neigh_run os) fp = Some c))
   \<and> length (neigh_incoming (neigh_run os)) \<le> 100"
proof -
  have "length (neigh_incoming (neigh_run os)) \<le> 100"
    unfolding neigh_run_def by (rule neigh_queue.run_inv) (simp add: neigh_table_new_def)
  then show ?thesis using neigh_run_entry[of os fp] by (auto simp: neigh_lookup_def split: option.splits)
qed

theorem neigh_table_lookup_witness:
  "neigh_lookup (neigh_run [NeighInsert 1000 (Fingerprint [1]) 7 300000, NeighPinned 2000 (Fingerprint [2]) 8,
     NeighCollect 60000]) (Fingerprint [1]) = Some 7"
  using neigh_table_lookup[where fp = "Fingerprint [1]" and os = "[NeighInsert 1000 (Fingerprint [1]) 7 300000,
     NeighPinned 2000 (Fingerprint [2]) 8, NeighCollect 60000]"]
  by simp

end
