(* ===== verification/Endpoint.thy ===== *)
theory Endpoint
  imports Crypt
begin

text \<open>
  \<open>src/socket.rs\<close>: endpoints, their textual form and the parser, with the parts of the standard
  library they use: \<open>str::split\<close>, the decimal form of an unsigned integer and \<open>u32::from_str\<close>.
\<close>

section \<open>Decimal numbers\<close>

definition digit_char :: "nat \<Rightarrow> char" where
  "digit_char d = char_of (48 + d)"

definition char_digit :: "char \<Rightarrow> nat option" where
  "char_digit c = (let v = of_char c :: nat in if 48 \<le> v \<and> v \<le> 57 then Some (v - 48) else None)"

fun show_nat :: "nat \<Rightarrow> string" where
  "show_nat n = (if n < 10 then [digit_char n] else show_nat (n div 10) @ [digit_char (n mod 10)])"

declare show_nat.simps [simp del]

datatype parse_int_error = IntEmpty | InvalidDigit | PosOverflow

text \<open>The loop of \<open>u32::from_str\<close>: every multiplication and addition is checked.\<close>

fun parse_digits :: "nat \<Rightarrow> string \<Rightarrow> parse_int_error + nat" where
  "parse_digits acc [] = Inr acc"
| "parse_digits acc (c # cs) =
     (case char_digit c of
        None \<Rightarrow> Inl InvalidDigit
      | Some d \<Rightarrow> if acc * 10 + d < 2 ^ 32 then parse_digits (acc * 10 + d) cs else Inl PosOverflow)"

definition u32_from_str :: "string \<Rightarrow> parse_int_error + u32" where
  "u32_from_str s =
     (if s = [] then Inl IntEmpty
      else let digits = (if hd s = CHR ''+'' then tl s else s)
           in if digits = [] then Inl InvalidDigit else map_sum id of_nat (parse_digits 0 digits))"

section \<open>Splitting\<close>

fun split_on :: "char \<Rightarrow> string \<Rightarrow> string list" where
  "split_on sep [] = [[]]"
| "split_on sep (c # cs) =
     (if c = sep then [] # split_on sep cs
      else case split_on sep cs of [] \<Rightarrow> [[c]] | part # parts \<Rightarrow> (c # part) # parts)"

section \<open>Endpoints\<close>

type_synonym dock = u32

record endpoint =
  ep_fingerprint :: fingerprint
  ep_dock :: dock

definition endpoint_new :: "fingerprint \<Rightarrow> dock \<Rightarrow> endpoint" where
  "endpoint_new fp dk = \<lparr>ep_fingerprint = fp, ep_dock = dk\<rparr>"

definition endpoint_to_string :: "'z crypto_scheme \<Rightarrow> endpoint \<Rightarrow> string" where
  "endpoint_to_string C ep = fingerprint_to_string C (ep_fingerprint ep) @ '':'' @ show_nat (unat (ep_dock ep))"

datatype endpoint_error = WrongEndpointFormat | BadFingerprint fp_parse_error | BadDock parse_int_error

definition endpoint_from_str :: "'z crypto_scheme \<Rightarrow> string \<Rightarrow> endpoint_error + endpoint" where
  "endpoint_from_str C s =
     (let elems = split_on CHR '':'' s
      in if length elems \<noteq> 2 then Inl WrongEndpointFormat
         else case fingerprint_from_str C (elems ! 0) of
           Inl e \<Rightarrow> Inl (BadFingerprint e)
         | Inr fp \<Rightarrow>
             (case u32_from_str (elems ! 1) of
                Inl e \<Rightarrow> Inl (BadDock e)
              | Inr dk \<Rightarrow> Inr (endpoint_new fp dk)))"

section \<open>Lemmas\<close>

lemma char_digit_digit_char [simp]: "d < 10 \<Longrightarrow> char_digit (digit_char d) = Some d"
  by (simp add: char_digit_def digit_char_def)

lemma digit_char_chars: "d < 10 \<Longrightarrow> of_char (digit_char d) = 48 + d"
  by (simp add: digit_char_def)

lemma show_nat_chars: "c \<in> set (show_nat n) \<Longrightarrow> \<exists>d < 10. c = digit_char d"
proof (induction n rule: show_nat.induct)
  case (1 n)
  then consider "n < 10" "c = digit_char n" | "\<not> n < 10" "c \<in> set (show_nat (n div 10))" | "c = digit_char (n mod 10)"
    by (subst (asm) (2) show_nat.simps) (auto split: if_splits)
  then show ?case
  proof cases
    case 3 then show ?thesis by (intro exI[of _ "n mod 10"]) simp
  qed (use 1 in auto)
qed

lemma show_nat_not_Nil [simp]: "show_nat n \<noteq> []"
  by (subst show_nat.simps) simp

lemma show_nat_no: "of_char c < (48 :: nat) \<or> 57 < (of_char c :: nat) \<Longrightarrow> c \<notin> set (show_nat n)"
  using show_nat_chars digit_char_chars by fastforce

lemma parse_digits_append:
  "parse_digits acc (s @ t) = (case parse_digits acc s of Inl e \<Rightarrow> Inl e | Inr k \<Rightarrow> parse_digits k t)"
  by (induction acc s rule: parse_digits.induct) (auto split: option.splits)

lemma parse_show_nat: "n < 2 ^ 32 \<Longrightarrow> parse_digits 0 (show_nat n) = Inr n"
proof (induction n rule: show_nat.induct)
  case (1 n)
  show ?case
  proof (cases "n < 10")
    case True
    then show ?thesis by (subst show_nat.simps) simp
  next
    case False
    then have "parse_digits 0 (show_nat (n div 10)) = Inr (n div 10)" using 1 by simp
    moreover have "n div 10 * 10 + n mod 10 = n" by simp
    ultimately show ?thesis using False 1(2) by (subst show_nat.simps) (simp add: parse_digits_append)
  qed
qed

lemma unat_u32_less: "unat (w :: u32) < 2 ^ 32"
  using unsigned_less[of w] by simp

lemma u32_roundtrip: "u32_from_str (show_nat (unat w)) = Inr w"
proof -
  have "hd (show_nat (unat w)) \<in> set (show_nat (unat w))" by simp
  then have "hd (show_nat (unat w)) \<noteq> CHR ''+''"
    using show_nat_no[of "CHR ''+''" "unat w"] by force
  then show ?thesis
    using parse_show_nat[of "unat w"] unat_u32_less[of w] by (simp add: u32_from_str_def)
qed

lemma split_on_not_Nil [simp]: "split_on sep s \<noteq> []"
  by (cases s) (simp_all split: list.splits)

lemma length_split_on: "length (split_on sep s) = Suc (count_list s sep)"
proof (induction s)
  case (Cons c s)
  then show ?case by (cases "split_on sep s") (auto simp: split_on_not_Nil)
qed simp

lemma split_on_sep:
  assumes "sep \<notin> set a"
  shows "split_on sep (a @ sep # b) = a # split_on sep b"
  using assms by (induction a) auto

lemma split_on_none: "sep \<notin> set a \<Longrightarrow> split_on sep a = [a]"
  by (induction a) auto

section \<open>Properties\<close>

text \<open>
  An endpoint survives printing and parsing: whatever its fingerprint and dock, \<open>from_str\<close>
  reads back what \<open>Display\<close> wrote.
\<close>

theorem endpoint_roundtrip:
  assumes "base32_laws C" and "length (fp_bytes (ep_fingerprint ep)) = 20"
  shows "endpoint_from_str C (endpoint_to_string C ep) = Inr ep"
proof -
  have "CHR '':'' \<notin> set (fingerprint_to_string C (ep_fingerprint ep))"
    using assms(1) by (rule fingerprint_string_no_colon)
  then have "split_on CHR '':'' (endpoint_to_string C ep) =
      [fingerprint_to_string C (ep_fingerprint ep), show_nat (unat (ep_dock ep))]"
    using show_nat_no[of "CHR '':''"] by (simp add: endpoint_to_string_def split_on_sep split_on_none)
  then show ?thesis
    using fingerprint_string_roundtrip[OF assms]
    by (simp add: endpoint_from_str_def u32_roundtrip endpoint_new_def)
qed

theorem endpoint_roundtrip_witness:
  "endpoint_from_str demo_crypto (endpoint_to_string demo_crypto
     \<lparr>ep_fingerprint = Fingerprint (replicate 20 7), ep_dock = 100001\<rparr>)
   = Inr \<lparr>ep_fingerprint = Fingerprint (replicate 20 7), ep_dock = 100001\<rparr>"
  using endpoint_roundtrip[OF demo_base32_laws, of "\<lparr>ep_fingerprint = Fingerprint (replicate 20 7), ep_dock = 100001\<rparr>"]
  by simp

text \<open>
  The parser accepts exactly one colon: every string it accepts has one, and so the form
  \<open>fingerprint::dock\<close> that the help text of the control command gives is rejected.
\<close>

theorem endpoint_from_str_colons:
  "(case endpoint_from_str C s of
      Inr ep \<Rightarrow> count_list s CHR '':'' = 1 \<and> length (fp_bytes (ep_fingerprint ep)) = 20
    | Inl e \<Rightarrow> (e = WrongEndpointFormat) = (count_list s CHR '':'' \<noteq> 1))
   \<and> endpoint_from_str C (a @ ''::'' @ b) = Inl WrongEndpointFormat"
proof -
  have "endpoint_from_str C (a @ ''::'' @ b) = Inl WrongEndpointFormat"
    by (simp add: endpoint_from_str_def length_split_on)
  moreover have "case endpoint_from_str C s of
      Inr ep \<Rightarrow> count_list s CHR '':'' = 1 \<and> length (fp_bytes (ep_fingerprint ep)) = 20
    | Inl e \<Rightarrow> (e = WrongEndpointFormat) = (count_list s CHR '':'' \<noteq> 1)"
    by (auto simp: endpoint_from_str_def length_split_on Let_def endpoint_new_def fingerprint_from_str_def
        split: sum.splits option.splits if_splits)
  ultimately show ?thesis by blast
qed

end
