(* ===== verification/Proc.thy ===== *)
theory Proc
  imports Earendil_Prelude
begin

text \<open>
  Stateful procedures of the daemon.  A \<open>proc\<close> takes the state and yields a result (a value, an
  error or a panic) with the new state; \<open>None\<close> means that it does not return.  The state changes
  made before an error stay, as in the code.  \<open>total\<close> is the total-correctness judgement used for the
  procedures: from the given state the procedure returns, does not panic, and its result and
  final state satisfy the postcondition.
\<close>

type_synonym ('s, 'e, 'a) proc = "'s \<Rightarrow> (('e, 'a) res \<times> 's) option"

definition ret :: "'a \<Rightarrow> ('s, 'e, 'a) proc" where
  "ret x s = Some (Inr x, s)"

definition raise :: "'e \<Rightarrow> ('s, 'e, 'a) proc" where
  "raise e s = Some (Inl (Err e), s)"

definition bind_proc :: "('s, 'e, 'a) proc \<Rightarrow> ('a \<Rightarrow> ('s, 'e, 'b) proc) \<Rightarrow> ('s, 'e, 'b) proc" where
  "bind_proc m f s = (case m s of
     None \<Rightarrow> None
   | Some (Inl e, s') \<Rightarrow> Some (Inl e, s')
   | Some (Inr x, s') \<Rightarrow> f x s')"

definition gets :: "('s \<Rightarrow> 'a) \<Rightarrow> ('s, 'e, 'a) proc" where
  "gets f s = Some (Inr (f s), s)"

definition modify :: "('s \<Rightarrow> 's) \<Rightarrow> ('s, 'e, unit) proc" where
  "modify f s = Some (Inr (), f s)"

definition lift_res :: "('s \<Rightarrow> ('e, 'a) res) \<Rightarrow> ('s, 'e, 'a) proc" where
  "lift_res f s = Some (f s, s)"

text \<open>A computation that may fail to return, such as a loop, on the current state.\<close>

definition lift_loop :: "('s \<Rightarrow> ('e, 'a) res option) \<Rightarrow> ('s, 'e, 'a) proc" where
  "lift_loop f s = map_option (\<lambda>r. (r, s)) (f s)"

definition map_err_proc :: "('e \<Rightarrow> 'f) \<Rightarrow> ('s, 'e, 'a) proc \<Rightarrow> ('s, 'f, 'a) proc" where
  "map_err_proc h m s = map_option (\<lambda>(r, s'). (map_err h r, s')) (m s)"

section \<open>Total correctness\<close>

definition total :: "('s, 'e, 'a) proc \<Rightarrow> 's \<Rightarrow> (('e, 'a) res \<Rightarrow> 's \<Rightarrow> bool) \<Rightarrow> bool" where
  "total m s Q \<longleftrightarrow> (\<exists>r s'. m s = Some (r, s') \<and> r \<noteq> Inl Panic \<and> Q r s')"

named_theorems total_rules \<open>introduction rules for total\<close>

lemma total_ret [total_rules]: "Q (Inr x) s \<Longrightarrow> total (ret x) s Q"
  by (simp add: total_def ret_def)

lemma total_raise [total_rules]: "Q (Inl (Err e)) s \<Longrightarrow> total (raise e) s Q"
  by (simp add: total_def raise_def)

lemma total_gets [total_rules]: "Q (Inr (f s)) s \<Longrightarrow> total (gets f) s Q"
  by (simp add: total_def gets_def)

lemma total_modify [total_rules]: "Q (Inr ()) (f s) \<Longrightarrow> total (modify f) s Q"
  by (simp add: total_def modify_def)

lemma total_lift_res: "f s \<noteq> Inl Panic \<Longrightarrow> Q (f s) s \<Longrightarrow> total (lift_res f) s Q"
  by (simp add: total_def lift_res_def)

lemma total_lift_loop: "f s = Some r \<Longrightarrow> r \<noteq> Inl Panic \<Longrightarrow> Q r s \<Longrightarrow> total (lift_loop f) s Q"
  by (simp add: total_def lift_loop_def)

lemma total_conseq: "total m s Q \<Longrightarrow> (\<And>r s'. Q r s' \<Longrightarrow> R r s') \<Longrightarrow> total m s R"
  unfolding total_def by blast

lemma total_bind:
  assumes m: "total m s P"
    and ok: "\<And>x s'. P (Inr x) s' \<Longrightarrow> total (f x) s' Q"
    and err: "\<And>e s'. P (Inl (Err e)) s' \<Longrightarrow> Q (Inl (Err e)) s'"
  shows "total (bind_proc m f) s Q"
proof -
  obtain r s' where r: "m s = Some (r, s')" "r \<noteq> Inl Panic" "P r s'" using m by (auto simp: total_def)
  show ?thesis
  proof (cases r)
    case (Inl e)
    then show ?thesis using r err by (cases e) (auto simp: total_def bind_proc_def)
  next
    case (Inr x)
    then show ?thesis using r ok[of x s'] by (auto simp: total_def bind_proc_def)
  qed
qed

text \<open>A step that only reads the state.\<close>

lemma total_bind_same:
  assumes "total m s (\<lambda>r s'. s' = s)" "\<And>x. total (f x) s Q" "\<And>e. Q (Inl (Err e)) s"
  shows "total (bind_proc m f) s Q"
  by (rule total_bind[OF assms(1)]) (use assms(2,3) in auto)

lemma total_map_err:
  assumes "total m s (\<lambda>r s'. Q (map_err h r) s')"
  shows "total (map_err_proc h m) s Q"
  using assms by (auto simp: total_def map_err_proc_def res_simps)

lemma bind_proc_Inr:
  "bind_proc m f s = Some (Inr y, s'') \<longleftrightarrow> (\<exists>x s'. m s = Some (Inr x, s') \<and> f x s' = Some (Inr y, s''))"
  by (auto simp: bind_proc_def split: option.splits sum.splits)

lemma bind_proc_step: "m s = Some (Inr x, s') \<Longrightarrow> bind_proc m f s = f x s'"
  by (simp add: bind_proc_def)

lemma bind_proc_simps [simp]:
  "bind_proc (gets f) g s = g (f s) s"
  "bind_proc (modify h) g2 s = g2 () (h s)"
  "bind_proc (ret x) g3 s = g3 x s"
  "bind_proc (raise e) g4 s = Some (Inl (Err e), s)"
  by (simp_all add: bind_proc_def gets_def modify_def ret_def raise_def)

lemma proc_simps:
  "ret x s = Some (Inr x, s)" "raise e s = Some (Inl (Err e), s)" "gets f s = Some (Inr (f s), s)"
  "modify g s = Some (Inr (), g s)"
  by (simp_all add: ret_def raise_def gets_def modify_def)

section \<open>Stable predicates\<close>

text \<open>A predicate on states that a procedure does not falsify, however it ends.\<close>

definition stable_proc :: "('s \<Rightarrow> bool) \<Rightarrow> ('s, 'e, 'a) proc \<Rightarrow> bool" where
  "stable_proc J m \<longleftrightarrow> (\<forall>s r s'. J s \<longrightarrow> m s = Some (r, s') \<longrightarrow> J s')"

lemma stable_procD: "stable_proc J m \<Longrightarrow> J s \<Longrightarrow> m s = Some (r, s') \<Longrightarrow> J s'"
  unfolding stable_proc_def by blast

lemma stable_bind: "stable_proc J m \<Longrightarrow> (\<And>x. stable_proc J (f x)) \<Longrightarrow> stable_proc J (bind_proc m f)"
proof -
  assume m: "stable_proc J m" and f: "\<And>x. stable_proc J (f x)"
  have "J s'" if j: "J s" and b: "bind_proc m f s = Some (r, s')" for s r s'
  proof -
    obtain q s1 where q: "m s = Some (q, s1)" using b by (auto simp: bind_proc_def split: option.splits)
    have "J s1" using stable_procD[OF m j q] .
    then show ?thesis using b q stable_procD[OF f] by (cases q) (auto simp: bind_proc_def)
  qed
  then show ?thesis unfolding stable_proc_def by blast
qed

lemma stable_basic:
  "stable_proc J (ret x)" "stable_proc J (raise e)" "stable_proc J (gets g)" "stable_proc J (lift_res h)"
  "stable_proc J (lift_loop l)"
  by (auto simp: stable_proc_def ret_def raise_def gets_def lift_res_def lift_loop_def)

lemma stable_modify: "(\<And>s. J s \<Longrightarrow> J (f s)) \<Longrightarrow> stable_proc J (modify f)"
  by (simp add: stable_proc_def modify_def)

lemma stable_map_err: "stable_proc J m \<Longrightarrow> stable_proc J (map_err_proc h m)"
  by (auto simp: stable_proc_def map_err_proc_def)

end
