(* ===== verification/Daemon.thy ===== *)
theory Daemon
  imports Shortest_Path Reply_Block_Store Neigh_Table Endpoint Proc
begin

text \<open>
  The core of the daemon: \<open>src/daemon/context.rs\<close> (the shared state and the sending of messages and
  reply blocks), \<open>src/daemon/rrb_balance.rs\<close> (the count of reply blocks a peer is believed to hold),
  \<open>src/daemon/peel_forward.rs\<close> (what happens to an incoming packet) and \<open>route_to_instructs\<close> of
  \<open>src/daemon.rs\<close>.

  The fields of the \<open>DaemonContext\<close> are the fields of the record \<open>daemon\<close>; random values are drawn from
  the environment \<open>daemon_env\<close> with the counter \<open>rng\<close>.  The caches of the moka crate are maps:
  between two operations an entry may expire, which \<open>expire\<close> models.  Balances are the integral
  values the code keeps in an \<open>f64\<close>.
\<close>

section \<open>State and environment\<close>

datatype send_message_error =
    NoRoute fingerprint | PacketConstructError packet_construct_error | NoOnionPublic fingerprint
  | ReplyBlockFailed | NoAnonId

record 'l daemon_env = topo_env +
  lru :: "'l lru_ops"
  rand_eph :: "nat \<Rightarrow> nat \<Rightarrow> onion_secret"
  rand_garbage :: "nat \<Rightarrow> bytes"
  rand_u64 :: "nat \<Rightarrow> u64"
  rand_osk :: "nat \<Rightarrow> onion_secret"

record 'l daemon =
  global_identity :: identity_secret
  global_onion_sk :: onion_secret
  graph :: relay_graph
  anon_dests :: 'l
  neigh :: neigh_table
  links :: "conn \<rightharpoonup> link_connection"
  socket_recv_queues :: "endpoint \<rightharpoonup> (message \<times> fingerprint) list"
  degarblers :: "u64 \<rightharpoonup> reply_degarbler"
  balance_table :: "identity_secret \<times> fingerprint \<rightharpoonup> int"
  onion_sk_cache :: "fingerprint \<rightharpoonup> onion_secret"
  rng :: nat

text \<open>The caches with a time to live may lose any entries at any time.\<close>

definition expire :: "u64 set \<Rightarrow> (identity_secret \<times> fingerprint) set \<Rightarrow> 'l daemon \<Rightarrow> 'l daemon" where
  "expire ids keys s = s\<lparr>degarblers := degarblers s |` (- ids), balance_table := balance_table s |` (- keys)\<rparr>"

abbreviation my_fp :: "('l, 'z) daemon_env_scheme \<Rightarrow> 'l daemon \<Rightarrow> fingerprint" where
  "my_fp E s \<equiv> my_fingerprint E (global_identity s)"

section \<open>Routes\<close>

definition windows2 :: "'a list \<Rightarrow> ('a \<times> 'a) list" where
  "windows2 xs = zip xs (tl xs)"

definition route_to_instructs ::
    "fingerprint list \<Rightarrow> relay_graph \<Rightarrow> (send_message_error, forward_instruction list) res" where
  "route_to_instructs route g =
     collect_res (\<lambda>(this, next).
       bind_res (ok_or (NoOnionPublic this) (identity g this)) (\<lambda>d.
         Inr \<lparr>this_pubkey = onion_pk d, next_fingerprint = next\<rparr>)) (windows2 route)"

definition route_between ::
    "('l, 'z) daemon_env_scheme \<Rightarrow> fingerprint \<Rightarrow> fingerprint \<Rightarrow> fingerprint
       \<Rightarrow> ('l daemon, send_message_error, fingerprint list) proc" where
  "route_between E src dst dst_fp =
     lift_loop (\<lambda>s. map_option (\<lambda>r. bind_res (map_err (\<lambda>_. NoRoute dst_fp) r) (ok_or (NoRoute dst_fp)))
       (find_shortest_path E (graph s) src dst))"

definition opk_of :: "fingerprint \<Rightarrow> ('l daemon, send_message_error, onion_public) proc" where
  "opk_of fp = lift_res (\<lambda>s. bind_res (ok_or (NoOnionPublic fp) (identity (graph s) fp)) (\<lambda>d. Inr (onion_pk d)))"

definition instructs_of ::
    "fingerprint list \<Rightarrow> ('l daemon, send_message_error, forward_instruction list) proc" where
  "instructs_of route = lift_res (\<lambda>s. route_to_instructs route (graph s))"

section \<open>Sending\<close>

definition build_packet ::
    "('l, 'z) daemon_env_scheme \<Rightarrow> forward_instruction list \<Rightarrow> onion_public \<Rightarrow> inner_packet \<Rightarrow> identity_secret
       \<Rightarrow> ('l daemon, send_message_error, raw_packet) proc" where
  "build_packet E instructs opk payload isk =
     (\<lambda>s. Some (map_err PacketConstructError
            (new_normal E (rand_eph E (rng s)) (rand_garbage E (rng s)) instructs opk payload isk),
          s\<lparr>rng := Suc (rng s)\<rparr>))"

definition inject :: "raw_packet \<Rightarrow> ('l daemon, send_message_error, unit) proc" where
  "inject pkt = modify (\<lambda>s. s\<lparr>neigh := inject_asif_incoming pkt (neigh s)\<rparr>)"

definition anon_osk ::
    "('l, 'z) daemon_env_scheme \<Rightarrow> identity_secret \<Rightarrow> ('l daemon, send_message_error, onion_secret) proc" where
  "anon_osk E isk = (\<lambda>s. case onion_sk_cache s (my_fingerprint E isk) of
     Some osk \<Rightarrow> Some (Inr osk, s)
   | None \<Rightarrow> Some (Inr (rand_osk E (rng s)), s\<lparr>onion_sk_cache := (onion_sk_cache s)(my_fingerprint E isk \<mapsto> rand_osk E (rng s)),
       rng := Suc (rng s)\<rparr>))"

definition one_reply_block ::
    "('l, 'z) daemon_env_scheme \<Rightarrow> forward_instruction list \<Rightarrow> onion_secret \<Rightarrow> identity_secret
       \<Rightarrow> ('l daemon, send_message_error, reply_block) proc" where
  "one_reply_block E reverse_instructs osk isk = (\<lambda>s.
     case reply_block_new E (rand_eph E (rng s)) (rand_garbage E (rng s)) (rand_u64 E (rng s)) reverse_instructs
            (onion_public_of E (global_onion_sk s)) osk isk of
       Inl f \<Rightarrow> Some (map_err (\<lambda>_. ReplyBlockFailed) (Inl f), s\<lparr>rng := Suc (rng s)\<rparr>)
     | Inr (rb, (i, degarbler)) \<Rightarrow>
         Some (Inr rb, s\<lparr>degarblers := (degarblers s)(i \<mapsto> degarbler), rng := Suc (rng s)\<rparr>))"

primrec make_reply_blocks ::
    "('l, 'z) daemon_env_scheme \<Rightarrow> nat \<Rightarrow> forward_instruction list \<Rightarrow> onion_secret \<Rightarrow> identity_secret
       \<Rightarrow> ('l daemon, send_message_error, reply_block list) proc" where
  "make_reply_blocks E 0 reverse_instructs osk isk = ret []"
| "make_reply_blocks E (Suc n) reverse_instructs osk isk =
     bind_proc (one_reply_block E reverse_instructs osk isk) (\<lambda>rb.
     bind_proc (make_reply_blocks E n reverse_instructs osk isk) (\<lambda>rbs. ret (rb # rbs)))"

definition send_reply_blocks ::
    "('l, 'z) daemon_env_scheme \<Rightarrow> nat \<Rightarrow> identity_secret \<Rightarrow> fingerprint
       \<Rightarrow> ('l daemon, send_message_error, unit) proc" where
  "send_reply_blocks E count anon_isk dst_fp =
     bind_proc (anon_osk E anon_isk) (\<lambda>osk.
     bind_proc (gets (my_fp E)) (\<lambda>me.
     bind_proc (route_between E me dst_fp dst_fp) (\<lambda>route.
     bind_proc (opk_of dst_fp) (\<lambda>their_opk.
     bind_proc (instructs_of route) (\<lambda>instructs.
     bind_proc (route_between E dst_fp me dst_fp) (\<lambda>reverse_route.
     bind_proc (instructs_of reverse_route) (\<lambda>reverse_instructs.
     bind_proc (make_reply_blocks E count reverse_instructs osk anon_isk) (\<lambda>rbs.
     bind_proc (build_packet E instructs their_opk (ReplyBlocks rbs) anon_isk) (\<lambda>wrapped_rb_onion.
       inject wrapped_rb_onion)))))))))"

section \<open>The balance of reply blocks\<close>

definition rb_balance :: "identity_secret \<Rightarrow> fingerprint \<Rightarrow> 'l daemon \<Rightarrow> int \<times> 'l daemon" where
  "rb_balance isk reply_source s = (case balance_table s (isk, reply_source) of
     Some b \<Rightarrow> (b, s)
   | None \<Rightarrow> (0, s\<lparr>balance_table := (balance_table s)((isk, reply_source) \<mapsto> 0)\<rparr>))"

definition decrement_rrb_balance :: "identity_secret \<Rightarrow> fingerprint \<Rightarrow> 'l daemon \<Rightarrow> 'l daemon" where
  "decrement_rrb_balance isk reply_source s =
     (let (new_balance, s1) = rb_balance isk reply_source s
      in s1\<lparr>balance_table := (balance_table s1)((isk, reply_source) \<mapsto> new_balance - 1)\<rparr>)"

definition BATCH_SIZE :: nat where
  "BATCH_SIZE = 10"

text \<open>
  The loop is one step here: entries of the balance table, which live for sixty seconds, expire between
  operations (\<open>expire\<close>) and not within this one.  Balances are whole numbers (\<open>f64\<close> in the code).
\<close>

partial_function (option) replenish_rrb ::
    "('l, 'z) daemon_env_scheme \<Rightarrow> identity_secret \<Rightarrow> fingerprint \<Rightarrow> 'l daemon
       \<Rightarrow> ((send_message_error, unit) res \<times> 'l daemon) option" where
  "replenish_rrb E isk dst_fp s =
     (let (b, s1) = rb_balance isk dst_fp s
      in if b < 100 then
           (case send_reply_blocks E BATCH_SIZE isk dst_fp s1 of
              None \<Rightarrow> None
            | Some (Inl e, s2) \<Rightarrow> Some (Inl e, s2)
            | Some (Inr _, s2) \<Rightarrow>
                let (b', s3) = rb_balance isk dst_fp s2
                in replenish_rrb E isk dst_fp
                     (s3\<lparr>balance_table := (balance_table s3)((isk, dst_fp) \<mapsto> b' + int (BATCH_SIZE div 2))\<rparr>))
         else Some (Inr (), s1))"

section \<open>Messages\<close>

definition send_n2r ::
    "('l, 'z) daemon_env_scheme \<Rightarrow> identity_secret \<Rightarrow> dock \<Rightarrow> fingerprint \<Rightarrow> dock \<Rightarrow> bytes list
       \<Rightarrow> ('l daemon, send_message_error, unit) proc" where
  "send_n2r E src_idsk src_dock dst_fp dst_dock content =
     bind_proc (gets (\<lambda>s. src_idsk \<noteq> global_identity s)) (\<lambda>src_anon.
     bind_proc (gets (\<lambda>s. fst (rb_store_pop (lru E) dst_fp (anon_dests s)))) (\<lambda>maybe_reply_block.
     bind_proc (modify (\<lambda>s. s\<lparr>anon_dests := snd (rb_store_pop (lru E) dst_fp (anon_dests s))\<rparr>)) (\<lambda>_.
     case maybe_reply_block of
       Some reply_block \<Rightarrow>
         if src_anon then raise NoAnonId
         else bind_proc (lift_res (\<lambda>s. map_err PacketConstructError
                 (new_reply E reply_block (Message (message_new src_dock dst_dock content)) src_idsk))) (\<lambda>raw_packet.
              inject raw_packet)
     | None \<Rightarrow>
         bind_proc (gets (my_fp E)) (\<lambda>me.
         bind_proc (route_between E me dst_fp dst_fp) (\<lambda>route.
         bind_proc (instructs_of route) (\<lambda>instructs.
         bind_proc (opk_of dst_fp) (\<lambda>their_opk.
         bind_proc (build_packet E instructs their_opk (Message (message_new src_dock dst_dock content)) src_idsk) (\<lambda>wrapped_onion.
         bind_proc (if src_anon then replenish_rrb E src_idsk dst_fp else ret ()) (\<lambda>_.
           inject wrapped_onion)))))))))"

section \<open>Incoming packets\<close>

datatype peel_forward_error =
    PeelError packet_peel_error | NoNextHop fingerprint | NoDegarbler u64 | DegarbleError decode_error
  | ReplenishError send_message_error | SocketQueueFull endpoint | NoSocketListening endpoint

text \<open>The receive queues of sockets are channels of capacity 1000.\<close>

definition process_inner_pkt ::
    "('l, 'z) daemon_env_scheme \<Rightarrow> inner_packet \<Rightarrow> fingerprint \<Rightarrow> fingerprint
       \<Rightarrow> ('l daemon, peel_forward_error, unit) proc" where
  "process_inner_pkt E inner_pkt src_fp dest_fp = (\<lambda>s.
     case inner_pkt of
       Message msg \<Rightarrow>
         let dest = endpoint_new dest_fp (dest_dock msg)
         in (case socket_recv_queues s dest of
               Some q \<Rightarrow>
                 (case try_send 1000 (msg, src_fp) q of
                    Some q' \<Rightarrow> Some (Inr (), s\<lparr>socket_recv_queues := (socket_recv_queues s)(dest \<mapsto> q')\<rparr>)
                  | None \<Rightarrow> Some (Inl (Err (SocketQueueFull dest)), s))
             | None \<Rightarrow> Some (Inl (Err (NoSocketListening dest)), s))
     | ReplyBlocks reply_blocks \<Rightarrow>
         Some (Inr (), s\<lparr>anon_dests := fold (rb_store_insert (lru E) src_fp) reply_blocks (anon_dests s)\<rparr>))"

definition forward_packet :: "fingerprint \<Rightarrow> raw_packet \<Rightarrow> ('l daemon, peel_forward_error, unit) proc" where
  "forward_packet next_hop pkt = (\<lambda>s.
     case neigh_lookup (neigh s) next_hop of
       None \<Rightarrow> Some (Inl (Err (NoNextHop next_hop)), s)
     | Some c \<Rightarrow> Some (Inr (), s\<lparr>links := (\<lambda>k. if k = c then map_option (send_raw_packet pkt) (links s c) else links s k)\<rparr>))"

definition process_garbled ::
    "('l, 'z) daemon_env_scheme \<Rightarrow> u64 \<Rightarrow> bytes \<Rightarrow> ('l daemon, peel_forward_error, unit) proc" where
  "process_garbled E rb_id pkt =
     bind_proc (lift_res (\<lambda>s. ok_or (NoDegarbler rb_id) (degarblers s rb_id))) (\<lambda>reply_degarbler.
     bind_proc (modify (\<lambda>s. s\<lparr>degarblers := (degarblers s)(rb_id := None)\<rparr>)) (\<lambda>_.
     bind_proc (lift_res (\<lambda>s. map_err DegarbleError (degarble E reply_degarbler pkt))) (\<lambda>(inner_pkt, src_fp).
     bind_proc (modify (decrement_rrb_balance (my_anon_isk reply_degarbler) src_fp)) (\<lambda>_.
     bind_proc (map_err_proc ReplenishError (replenish_rrb E (my_anon_isk reply_degarbler) src_fp)) (\<lambda>_.
       process_inner_pkt E inner_pkt src_fp (my_fingerprint E (my_anon_isk reply_degarbler)))))))"

definition peel_forward ::
    "('l, 'z) daemon_env_scheme \<Rightarrow> raw_packet \<Rightarrow> ('l daemon, peel_forward_error, unit) proc" where
  "peel_forward E pkt =
     bind_proc (lift_res (\<lambda>s. map_err PeelError (peel E pkt (global_onion_sk s)))) (\<lambda>peeled.
     case peeled of
       Forward next_hop inner_pkt \<Rightarrow> forward_packet next_hop inner_pkt
     | Received src_fp inner_pkt \<Rightarrow> bind_proc (gets (my_fp E)) (\<lambda>me. process_inner_pkt E inner_pkt src_fp me)
     | GarbledReply rb_id b \<Rightarrow> process_garbled E rb_id b)"

text \<open>
  One turn of \<open>peel_forward_loop\<close>: \<open>None\<close> at the outside means that it waits for a packet.  An error
  ends the loop, and the loop is respawned at once with the state as it is.
\<close>

definition peel_forward_turn ::
    "('l, 'z) daemon_env_scheme \<Rightarrow> 'l daemon \<Rightarrow> ((peel_forward_error, unit) res \<times> 'l daemon) option option" where
  "peel_forward_turn E s =
     map_option (\<lambda>(pkt, t). peel_forward E pkt (s\<lparr>neigh := t\<rparr>)) (recv_raw_packet (neigh s))"

section \<open>Laws and invariant\<close>

text \<open>Deserialised reply blocks have the sizes of their types.\<close>

definition bincode_typed :: "'z packet_env_scheme \<Rightarrow> bool" where
  "bincode_typed E \<longleftrightarrow> (\<forall>b p. bincode_deserialize E b = Some p \<longrightarrow> wf_inner p)"

definition daemon_laws :: "('l, 'z) daemon_env_scheme \<Rightarrow> ('l \<Rightarrow> bool) \<Rightarrow> bool" where
  "daemon_laws E ok \<longleftrightarrow> packet_laws E \<and> iter_laws E \<and> bincode_typed E \<and> lru_laws (lru E) ok \<and>
     (\<forall>n. length (rand_garbage E n) = 621)"

lemma daemon_lawsD:
  assumes "daemon_laws E ok"
  shows "packet_laws E" "iter_laws E" "bincode_typed E" "lru_laws (lru E) ok" "length (rand_garbage E n) = 621"
  using assms by (auto simp: daemon_laws_def)

definition wf_queue :: "raw_packet list \<Rightarrow> bool" where
  "wf_queue q \<longleftrightarrow> list_all wf_packet q \<and> length q \<le> 100"

definition daemon_inv :: "('l, 'z) daemon_env_scheme \<Rightarrow> ('l \<Rightarrow> bool) \<Rightarrow> 'l daemon \<Rightarrow> bool" where
  "daemon_inv E ok s \<longleftrightarrow>
     graph_inv E (graph s) \<and> rb_store_inv (lru E) ok (anon_dests s) \<and>
     (\<forall>fp. list_all wf_reply_block (rb_stack (lru E) (anon_dests s) fp)) \<and>
     wf_queue (neigh_incoming (neigh s)) \<and>
     (\<forall>ep q. socket_recv_queues s ep = Some q \<longrightarrow> length q \<le> 1000) \<and>
     (\<forall>c l. links s c = Some l \<longrightarrow> wf_queue (send_outgoing l))"

text \<open>What every step of sending keeps.\<close>

definition keeps :: "('l, 'z) daemon_env_scheme \<Rightarrow> ('l \<Rightarrow> bool) \<Rightarrow> 'l daemon \<Rightarrow> 'l daemon \<Rightarrow> bool" where
  "keeps E ok s s' \<longleftrightarrow> daemon_inv E ok s' \<and> graph s' = graph s \<and> global_identity s' = global_identity s \<and>
     global_onion_sk s' = global_onion_sk s \<and> balance_table s' = balance_table s \<and> anon_dests s' = anon_dests s \<and>
     links s' = links s \<and> socket_recv_queues s' = socket_recv_queues s"

lemma keeps_refl: "daemon_inv E ok s \<Longrightarrow> keeps E ok s s"
  by (simp add: keeps_def)

lemma keeps_trans: "keeps E ok s s' \<Longrightarrow> keeps E ok s' s'' \<Longrightarrow> keeps E ok s s''"
  by (simp add: keeps_def)

lemma keeps_inv: "keeps E ok s s' \<Longrightarrow> daemon_inv E ok s'"
  by (simp add: keeps_def)

lemma keeps_caches:
  assumes "daemon_inv E ok s"
  shows "keeps E ok s (s\<lparr>rng := n\<rparr>)" "keeps E ok s (s\<lparr>degarblers := d, rng := n\<rparr>)"
    "keeps E ok s (s\<lparr>onion_sk_cache := c, rng := n\<rparr>)"
  using assms by (simp_all add: keeps_def daemon_inv_def)

lemma wf_queue_send: "wf_queue q \<Longrightarrow> wf_packet p \<Longrightarrow> wf_queue (send_or_drop 100 p q)"
  by (cases "length q < 100") (auto simp: wf_queue_def)

section \<open>Routes of the daemon\<close>

lemma node_fp_length:
  assumes "packet_laws E" "graph_inv E g" "fp \<in> dom (fp_to_id g)"
  shows "length (fp_bytes fp) = 20" and "\<exists>d. identity g fp = Some d"
proof -
  have ids: "ids_ok E g" using assms(2) by (simp add: graph_inv_def)
  obtain i where i: "fp_to_id g fp = Some i" using assms(3) by blast
  then have fi: "id_to_fp g i = Some fp" using ids_okD(1)[OF ids] by blast
  then obtain d where d: "id_to_descriptor g i = Some d" using ids_okD(2)[OF ids] by blast
  then show "\<exists>d. identity g fp = Some d" using i by (simp add: identity_def graph_id_def)
  have "fp = fingerprint_of E (identity_pk d)" using ids_okD(3)[OF ids d] fi by simp
  then show "length (fp_bytes fp) = 20" using assms(1) by simp
qed

lemma windows2_Cons: "windows2 (x # y # zs) = (x, y) # windows2 (y # zs)"
  by (simp add: windows2_def)

lemma windows2_mem: "(a, b) \<in> set (windows2 xs) \<Longrightarrow> a \<in> set xs \<and> b \<in> set xs"
  unfolding windows2_def by (metis list.set_sel(2) set_zip_leftD set_zip_rightD tl_Nil)

lemma route_to_instructs_ok:
  assumes "\<And>fp. fp \<in> set route \<Longrightarrow> identity g fp = Some (d fp)"
  shows "route_to_instructs route g =
    Inr (map (\<lambda>(this, next). \<lparr>this_pubkey = onion_pk (d this), next_fingerprint = next\<rparr>) (windows2 route))"
  unfolding route_to_instructs_def
  by (rule collect_res_ok) (auto simp: assms dest: windows2_mem)

lemma total_route_between:
  assumes laws: "daemon_laws E ok" and inv: "daemon_inv E ok s"
  shows "total (route_between E src dst dst_fp) s (\<lambda>r s'. s' = s \<and>
           (case r of Inl e \<Rightarrow> e = Err (NoRoute dst_fp) \<and> (\<nexists>p. is_route (graph s) src dst p)
            | Inr p \<Rightarrow> is_route (graph s) src dst p \<and> (\<forall>q. is_route (graph s) src dst q \<longrightarrow> length p \<le> length q)))"
proof -
  have g: "graph_inv E (graph s)" using inv by (simp add: daemon_inv_def)
  obtain r where r: "find_shortest_path E (graph s) src dst = Some (Inr r)"
    and spec: "case r of None \<Rightarrow> \<nexists>q. is_route (graph s) src dst q
            | Some p \<Rightarrow> is_route (graph s) src dst p \<and> (\<forall>q. is_route (graph s) src dst q \<longrightarrow> length p \<le> length q)"
    using shortest_path_spec[OF g daemon_lawsD(2)[OF laws]] by blast
  show ?thesis unfolding route_between_def
    by (rule total_lift_loop[where r = "ok_or (NoRoute dst_fp) r"]) (use r spec in \<open>auto split: option.splits\<close>)
qed

lemma route_to_instructs_next:
  "route_to_instructs route g = Inr ins \<Longrightarrow> hop \<in> set ins \<Longrightarrow> next_fingerprint hop \<in> set route"
proof -
  assume a: "route_to_instructs route g = Inr ins" and "hop \<in> set ins"
  then obtain i where i: "i < length ins" "hop = ins ! i" by (metis in_set_conv_nth)
  have l: "length ins = length (windows2 route)" using a unfolding route_to_instructs_def by (rule collect_res_length)
  obtain x y where xy: "windows2 route ! i = (x, y)" by (cases "windows2 route ! i")
  have "next_fingerprint hop = y"
    using collect_res_nth[OF a[unfolded route_to_instructs_def], of i] i l xy
    by (auto simp: res_simps dest!: arg_cong[where f = next_fingerprint])
  moreover have "(x, y) \<in> set (windows2 route)" using xy i(1) l by (metis nth_mem)
  ultimately show ?thesis using windows2_mem by metis
qed

lemma collect_res_no_panic: "(\<And>x. x \<in> set xs \<Longrightarrow> f x \<noteq> Inl Panic) \<Longrightarrow> collect_res f xs \<noteq> Inl Panic"
proof (induction xs)
  case (Cons x xs)
  then have "f x \<noteq> Inl Panic" "collect_res f xs \<noteq> Inl Panic" by auto
  then show ?case by (auto simp: res_simps)
qed simp

lemma route_to_instructs_no_panic: "route_to_instructs route g \<noteq> Inl Panic"
  unfolding route_to_instructs_def by (rule collect_res_no_panic) (auto simp: res_simps)

lemma total_build_packet:
  assumes laws: "daemon_laws E ok" and inv: "daemon_inv E ok s"
    and fps: "\<And>hop. hop \<in> set ins \<Longrightarrow> length (fp_bytes (next_fingerprint hop)) = 20"
  shows "total (build_packet E ins opk payload isk) s (\<lambda>r s'. keeps E ok s s' \<and> (\<forall>pkt. r = Inr pkt \<longrightarrow> wf_packet pkt))"
proof -
  have safe: "case raw_new E (rand_eph E (rng s)) (rand_garbage E (rng s)) ins opk payload (replicate 20 0) isk of
           Inl f \<Rightarrow> f \<noteq> Panic | Inr (pkt, secs) \<Rightarrow> wf_packet pkt"
    by (rule raw_new_safe[OF daemon_lawsD(1)[OF laws] daemon_lawsD(5)[OF laws] _ fps]) simp_all
  show ?thesis
  proof (cases "raw_new E (rand_eph E (rng s)) (rand_garbage E (rng s)) ins opk payload (replicate 20 0) isk")
    case (Inl f)
    then show ?thesis using safe keeps_caches(1)[OF inv]
      by (cases f) (auto simp: total_def build_packet_def new_normal_def)
  next
    case (Inr p)
    then show ?thesis using safe keeps_caches(1)[OF inv]
      by (cases p) (auto simp: total_def build_packet_def new_normal_def)
  qed
qed

lemma total_inject:
  assumes inv: "daemon_inv E ok s" and wf: "wf_packet pkt"
  shows "total (inject pkt) s (\<lambda>r s'. r = Inr () \<and> keeps E ok s s')"
  unfolding inject_def
  by (rule total_modify) (use assms wf_queue_send in \<open>auto simp: keeps_def daemon_inv_def inject_asif_incoming_def\<close>)

section \<open>Steps that keep the invariant\<close>

text \<open>
  \<open>keeping E ok m s P\<close>: from a good state \<open>m\<close> returns without panic, keeps the invariant and what sending
  does not change, and a value it returns satisfies \<open>P\<close>.
\<close>

definition keeping ::
    "('l, 'z) daemon_env_scheme \<Rightarrow> ('l \<Rightarrow> bool) \<Rightarrow> ('l daemon, 'e, 'a) proc \<Rightarrow> 'l daemon \<Rightarrow> ('a \<Rightarrow> bool) \<Rightarrow> bool" where
  "keeping E ok m s P \<longleftrightarrow> total m s (\<lambda>r s'. keeps E ok s s' \<and> (\<forall>x. r = Inr x \<longrightarrow> P x))"

lemma keeping_bind:
  assumes m: "keeping E ok m s P"
    and f: "\<And>x s'. P x \<Longrightarrow> daemon_inv E ok s' \<Longrightarrow> keeping E ok (f x) s' Q"
  shows "keeping E ok (bind_proc m f) s Q"
  unfolding keeping_def
proof (rule total_bind[OF m[unfolded keeping_def]])
  fix x s' assume k: "keeps E ok s s' \<and> (\<forall>y. Inr x = Inr y \<longrightarrow> P y)"
  then have "keeping E ok (f x) s' Q" using f keeps_inv by blast
  then show "total (f x) s' (\<lambda>r s''. keeps E ok s s'' \<and> (\<forall>y. r = Inr y \<longrightarrow> Q y))"
    unfolding keeping_def using k keeps_trans by (elim total_conseq) blast
qed auto

lemma keeping_ret: "daemon_inv E ok s \<Longrightarrow> P x \<Longrightarrow> keeping E ok (ret x) s P"
  unfolding keeping_def by (rule total_ret) (simp add: keeps_refl)

lemma keeping_raise: "daemon_inv E ok s \<Longrightarrow> keeping E ok (raise e) s P"
  unfolding keeping_def by (rule total_raise) (simp add: keeps_refl)

lemma keeping_gets: "daemon_inv E ok s \<Longrightarrow> keeping E ok (gets f) s (\<lambda>_. True)"
  unfolding keeping_def by (rule total_gets) (simp add: keeps_refl)

abbreviation fps20 :: "fingerprint list \<Rightarrow> bool" where
  "fps20 route \<equiv> \<forall>fp \<in> set route. length (fp_bytes fp) = 20"

abbreviation ins20 :: "forward_instruction list \<Rightarrow> bool" where
  "ins20 ins \<equiv> \<forall>hop \<in> set ins. length (fp_bytes (next_fingerprint hop)) = 20"

lemma keeping_route_between:
  assumes laws: "daemon_laws E ok" and inv: "daemon_inv E ok s"
  shows "keeping E ok (route_between E src dst dst_fp) s fps20"
proof -
  have g: "graph_inv E (graph s)" using inv by (simp add: daemon_inv_def)
  have "fps20 p" if "is_route (graph s) src dst p" for p
    using that node_fp_length(1)[OF daemon_lawsD(1)[OF laws] g] unfolding is_route_def by blast
  then show ?thesis
    unfolding keeping_def
    by (intro total_conseq[OF total_route_between[OF laws inv]]) (auto simp: keeps_refl[OF inv])
qed

lemma keeping_instructs_of:
  assumes "daemon_inv E ok s" and "fps20 route"
  shows "keeping E ok (instructs_of route) s ins20"
  unfolding keeping_def instructs_of_def
  by (rule total_lift_res, rule route_to_instructs_no_panic)
    (use assms route_to_instructs_next in \<open>auto simp: keeps_refl\<close>)

lemma keeping_opk_of: "daemon_inv E ok s \<Longrightarrow> keeping E ok (opk_of fp) s (\<lambda>_. True)"
  unfolding keeping_def opk_of_def
  by (rule total_lift_res; cases "identity (graph s) fp") (auto simp: keeps_refl)

lemma keeping_build_packet:
  assumes "daemon_laws E ok" and "daemon_inv E ok s" and "ins20 ins"
  shows "keeping E ok (build_packet E ins opk payload isk) s wf_packet"
  unfolding keeping_def using total_build_packet[OF assms(1,2)] assms(3) by blast

lemma keeping_inject: "daemon_inv E ok s \<Longrightarrow> wf_packet pkt \<Longrightarrow> keeping E ok (inject pkt) s (\<lambda>_. True)"
  unfolding keeping_def by (rule total_conseq[OF total_inject]) auto

lemma keeping_anon_osk: "daemon_inv E ok s \<Longrightarrow> keeping E ok (anon_osk E isk) s (\<lambda>_. True)"
  unfolding keeping_def
  using keeps_caches(3) keeps_refl by (fastforce simp: total_def anon_osk_def split: option.splits)

lemma keeping_one_reply_block:
  assumes laws: "daemon_laws E ok" and inv: "daemon_inv E ok s" and fps: "ins20 ins"
  shows "keeping E ok (one_reply_block E ins osk isk) s (\<lambda>_. True)"
proof -
  let ?raw = "raw_new E (rand_eph E (rng s)) (rand_garbage E (rng s)) ins (onion_public_of E (global_onion_sk s))
      (Message \<lparr>source_dock = 0, dest_dock = 0, body = [[]]\<rparr>) (rb_metadata (rand_u64 E (rng s))) isk"
  have safe: "case ?raw of Inl f \<Rightarrow> f \<noteq> Panic | Inr (pkt, secs) \<Rightarrow> wf_packet pkt"
    by (rule raw_new_safe[OF daemon_lawsD(1)[OF laws] daemon_lawsD(5)[OF laws]]) (use fps in simp_all)
  show ?thesis
  proof (cases ?raw)
    case (Inl f)
    then show ?thesis using safe keeps_caches(1)[OF inv]
      by (cases f) (auto simp: keeping_def total_def one_reply_block_def reply_block_new_def Let_def)
  next
    case (Inr p)
    then show ?thesis using keeps_caches(2)[OF inv]
      by (cases p) (auto simp: keeping_def total_def one_reply_block_def reply_block_new_def Let_def)
  qed
qed

lemma keeping_make_reply_blocks:
  assumes laws: "daemon_laws E ok" and fps: "ins20 ins"
  shows "daemon_inv E ok s \<Longrightarrow> keeping E ok (make_reply_blocks E n ins osk isk) s (\<lambda>_. True)"
proof (induction n arbitrary: s)
  case 0 then show ?case by (simp add: keeping_ret)
next
  case (Suc n)
  then show ?case unfolding make_reply_blocks.simps
    by (intro keeping_bind[OF keeping_one_reply_block[OF laws _ fps]] keeping_bind[OF Suc.IH] keeping_ret) auto
qed

lemma keeping_send_reply_blocks:
  assumes laws: "daemon_laws E ok" and inv: "daemon_inv E ok s"
  shows "keeping E ok (send_reply_blocks E count isk dst) s (\<lambda>_. True)"
  unfolding send_reply_blocks_def
  by (rule keeping_bind keeping_anon_osk keeping_gets keeping_route_between[OF laws] keeping_opk_of
      keeping_instructs_of keeping_make_reply_blocks[OF laws] keeping_build_packet[OF laws] keeping_inject inv
      | assumption)+

section \<open>Replenishing\<close>

definition balance_of :: "'l daemon \<Rightarrow> identity_secret \<Rightarrow> fingerprint \<Rightarrow> int" where
  "balance_of s isk fp = (case balance_table s (isk, fp) of Some b \<Rightarrow> b | None \<Rightarrow> 0)"

lemma rb_balance_value [simp]: "fst (rb_balance isk fp s) = balance_of s isk fp"
  by (simp add: rb_balance_def balance_of_def split: option.splits)

lemma daemon_inv_balance [simp]: "daemon_inv E ok (s\<lparr>balance_table := t\<rparr>) = daemon_inv E ok s"
  by (simp add: daemon_inv_def)

lemma rb_balance_inv [simp]: "daemon_inv E ok (snd (rb_balance isk fp s)) = daemon_inv E ok s"
  by (simp add: rb_balance_def split: option.splits)

lemma rb_balance_idem [simp]: "balance_of (snd (rb_balance isk fp s)) isk' fp' = balance_of s isk' fp'"
  by (simp add: rb_balance_def balance_of_def split: option.splits)

lemma total_replenish:
  assumes laws: "daemon_laws E ok" and inv: "daemon_inv E ok s"
  shows "total (replenish_rrb E isk dst) s (\<lambda>r s'. daemon_inv E ok s' \<and>
           (r = Inr () \<longrightarrow> max 100 (balance_of s isk dst) \<le> balance_of s' isk dst \<and>
              balance_of s' isk dst < max 105 (balance_of s isk dst + 1)))"
  using inv
proof (induction "nat (100 - balance_of s isk dst)" arbitrary: s rule: less_induct)
  case less
  obtain b s1 where b: "rb_balance isk dst s = (b, s1)" by (cases "rb_balance isk dst s")
  have b': "b = balance_of s isk dst" "daemon_inv E ok s1" "balance_of s1 isk dst = b"
    using rb_balance_value[of isk dst s] rb_balance_inv[of E ok isk dst s] rb_balance_idem[of isk dst s isk dst]
      less.prems b by auto
  show ?case
  proof (cases "b < 100")
    case False
    then show ?thesis using b b' by (auto simp: total_def replenish_rrb.simps)
  next
    case True
    obtain r s2 where r: "send_reply_blocks E BATCH_SIZE isk dst s1 = Some (r, s2)" "r \<noteq> Inl Panic" "keeps E ok s1 s2"
      using keeping_send_reply_blocks[OF laws b'(2)] unfolding keeping_def total_def by blast
    show ?thesis
    proof (cases r)
      case (Inl f)
      then show ?thesis using True b r keeps_inv by (cases f) (auto simp: total_def replenish_rrb.simps)
    next
      case (Inr u)
      obtain b2 s3 where b3: "rb_balance isk dst s2 = (b2, s3)" by (cases "rb_balance isk dst s2")
      let ?s = "s3\<lparr>balance_table := (balance_table s3)((isk, dst) \<mapsto> b2 + int (BATCH_SIZE div 2))\<rparr>"
      have "balance_of s2 isk dst = b" using r(3) b'(3) by (simp add: keeps_def balance_of_def)
      then have b2: "b2 = b" using rb_balance_value[of isk dst s2] b3 by simp
      then have bal: "balance_of ?s isk dst = b + 5" by (simp add: balance_of_def BATCH_SIZE_def)
      have inv3: "daemon_inv E ok ?s"
        using rb_balance_inv[of E ok isk dst s2] keeps_inv[OF r(3)] b3 by simp
      have step: "replenish_rrb E isk dst s = replenish_rrb E isk dst ?s"
        using True b r(1) Inr b3 by (subst replenish_rrb.simps) simp
      have dec: "nat (100 - balance_of ?s isk dst) < nat (100 - balance_of s isk dst)"
        using True bal b'(1) by simp
      show ?thesis unfolding total_def step
        using less.hyps[OF dec inv3] bal b'(1) True unfolding total_def by fastforce
    qed
  qed
qed

section \<open>Safety of every operation\<close>

definition safe ::
    "('l, 'z) daemon_env_scheme \<Rightarrow> ('l \<Rightarrow> bool) \<Rightarrow> ('l daemon, 'e, 'a) proc \<Rightarrow> 'l daemon \<Rightarrow> ('a \<Rightarrow> bool) \<Rightarrow> bool" where
  "safe E ok m s P \<longleftrightarrow> total m s (\<lambda>r s'. daemon_inv E ok s' \<and> (\<forall>x. r = Inr x \<longrightarrow> P x))"

lemma safe_keeping: "keeping E ok m s P \<Longrightarrow> safe E ok m s P"
  unfolding safe_def keeping_def by (erule total_conseq) (auto dest: keeps_inv)

lemma safe_bind:
  assumes m: "safe E ok m s P"
    and f: "\<And>x s'. P x \<Longrightarrow> daemon_inv E ok s' \<Longrightarrow> safe E ok (f x) s' Q"
  shows "safe E ok (bind_proc m f) s Q"
  unfolding safe_def using f by (intro total_bind[OF m[unfolded safe_def]]) (auto simp: safe_def)

lemma safe_map_err: "safe E ok m s P \<Longrightarrow> safe E ok (map_err_proc h m) s P"
  unfolding safe_def by (intro total_map_err) (auto elim!: total_conseq simp: res_simps)

lemma safe_modify: "daemon_inv E ok (f s) \<Longrightarrow> safe E ok (modify f) s (\<lambda>_. True)"
  unfolding safe_def by (rule total_modify) simp

lemma safe_lift_res: "daemon_inv E ok s \<Longrightarrow> f s \<noteq> Inl Panic \<Longrightarrow> (\<And>x. f s = Inr x \<Longrightarrow> P x) \<Longrightarrow> safe E ok (lift_res f) s P"
  unfolding safe_def by (rule total_lift_res) simp_all

lemma safe_replenish: "daemon_laws E ok \<Longrightarrow> daemon_inv E ok s \<Longrightarrow> safe E ok (replenish_rrb E isk dst) s (\<lambda>_. True)"
  unfolding safe_def using total_replenish by (rule total_conseq) auto

lemma safe_maybe_replenish:
  "daemon_laws E ok \<Longrightarrow> daemon_inv E ok s \<Longrightarrow> safe E ok (if c then replenish_rrb E isk dst else ret ()) s (\<lambda>_. True)"
  by (cases c) (simp_all add: safe_replenish safe_keeping keeping_ret)

lemma pop_inv:
  assumes laws: "daemon_laws E ok" and inv: "daemon_inv E ok s"
  shows "daemon_inv E ok (s\<lparr>anon_dests := snd (rb_store_pop (lru E) fp (anon_dests s))\<rparr>)"
    and "fst (rb_store_pop (lru E) fp (anon_dests s)) = Some rb \<Longrightarrow> wf_reply_block rb"
proof -
  have st: "rb_store_inv (lru E) ok (anon_dests s)" and wf: "\<And>fp. list_all wf_reply_block (rb_stack (lru E) (anon_dests s) fp)"
    using inv by (auto simp: daemon_inv_def)
  note p = rb_store_pop_effect[OF daemon_lawsD(4)[OF laws] st, of fp]
  have "list_all wf_reply_block (tl (rb_stack (lru E) (anon_dests s) fp))"
    using wf[of fp] by (cases "rb_stack (lru E) (anon_dests s) fp") simp_all
  then show "daemon_inv E ok (s\<lparr>anon_dests := snd (rb_store_pop (lru E) fp (anon_dests s))\<rparr>)"
    using inv p(1,3) by (simp add: daemon_inv_def)
  show "fst (rb_store_pop (lru E) fp (anon_dests s)) = Some rb \<Longrightarrow> wf_reply_block rb"
    using p(2) wf[of fp] by (auto split: list.splits)
qed

lemma new_reply_safe:
  assumes "packet_laws E" "wf_reply_block rb"
  shows "new_reply E rb payload isk \<noteq> Inl Panic" "new_reply E rb payload isk = Inr pkt \<Longrightarrow> wf_packet pkt"
  using assms inner_encode_length[of E payload isk]
  by (auto simp: new_reply_def res_simps wf_packet_def wf_reply_block_def)

lemma safe_send_n2r:
  assumes laws: "daemon_laws E ok" and inv: "daemon_inv E ok s"
  shows "safe E ok (send_n2r E isk sd dst dd content) s (\<lambda>_. True)"
proof -
  let ?pop = "rb_store_pop (lru E) dst (anon_dests s)"
  let ?s = "s\<lparr>anon_dests := snd ?pop\<rparr>"
  have i: "daemon_inv E ok ?s" by (rule pop_inv(1)[OF laws inv])
  show ?thesis
  proof (cases "fst ?pop")
    case (Some rb)
    have wf: "wf_reply_block rb" by (rule pop_inv(2)[OF laws inv Some])
    note r = new_reply_safe[OF daemon_lawsD(1)[OF laws] wf]
    have "safe E ok (bind_proc (lift_res (\<lambda>s. map_err PacketConstructError
        (new_reply E rb (Message (message_new sd dd content)) isk))) inject) ?s (\<lambda>_. True)"
      by (rule safe_bind[where P = wf_packet], rule safe_lift_res)
        (use i r in \<open>auto simp: res_simps intro: safe_keeping[OF keeping_inject]\<close>)
    then show ?thesis using Some i
      by (cases "isk = global_identity s") (simp_all add: safe_def total_def send_n2r_def proc_simps)
  next
    case None
    have "safe E ok (bind_proc (gets (my_fp E)) (\<lambda>me.
         bind_proc (route_between E me dst dst) (\<lambda>route.
         bind_proc (instructs_of route) (\<lambda>instructs.
         bind_proc (opk_of dst) (\<lambda>their_opk.
         bind_proc (build_packet E instructs their_opk (Message (message_new sd dd content)) isk) (\<lambda>wrapped_onion.
         bind_proc (if isk \<noteq> global_identity s then replenish_rrb E isk dst else ret ()) (\<lambda>_.
           inject wrapped_onion))))))) ?s (\<lambda>_. True)"
      by (rule safe_bind safe_keeping[OF keeping_gets] safe_keeping[OF keeping_route_between[OF laws]]
          safe_keeping[OF keeping_opk_of] safe_keeping[OF keeping_instructs_of]
          safe_keeping[OF keeping_build_packet[OF laws]] safe_maybe_replenish[OF laws]
          safe_keeping[OF keeping_inject] i | assumption)+
    then show ?thesis using None by (simp add: safe_def total_def send_n2r_def)
  qed
qed

lemma list_all_take: "list_all P xs \<Longrightarrow> list_all P (take n xs)"
  by (auto simp: list_all_iff dest: in_set_takeD)

lemma insert_all_inv:
  assumes L: "lru_laws L ok"
  shows "rb_store_inv L ok l \<Longrightarrow> (\<And>fp'. list_all wf_reply_block (rb_stack L l fp')) \<Longrightarrow> list_all wf_reply_block rbs \<Longrightarrow>
    rb_store_inv L ok (fold (rb_store_insert L fp) rbs l) \<and>
    (\<forall>fp'. list_all wf_reply_block (rb_stack L (fold (rb_store_insert L fp) rbs l) fp'))"
proof (induction rbs arbitrary: l)
  case (Cons rb rbs)
  note e = rb_store_insert_effect[OF L Cons.prems(1), where fp = fp and rb = rb]
  have "list_all wf_reply_block (rb_stack L (rb_store_insert L fp rb l) fp')" for fp'
    using e(2) e(3)[of fp'] Cons.prems(2)[of fp'] Cons.prems(3) by (cases "fp' = fp") (auto simp: list_all_take)
  then show ?case using Cons e(1) by simp
qed simp

lemma safe_process_inner_pkt:
  assumes laws: "daemon_laws E ok" and inv: "daemon_inv E ok s" and wf: "wf_inner p"
  shows "safe E ok (process_inner_pkt E p src dst) s (\<lambda>_. True)"
proof (cases p)
  case (Message m)
  then show ?thesis using inv
    by (auto simp: safe_def total_def process_inner_pkt_def Let_def try_send_def daemon_inv_def split: option.splits if_splits)
next
  case (ReplyBlocks rbs)
  then show ?thesis using insert_all_inv[OF daemon_lawsD(4)[OF laws], of "anon_dests s" rbs src] inv wf
    by (simp add: safe_def total_def process_inner_pkt_def daemon_inv_def wf_inner_def)
qed

lemma safe_forward_packet:
  assumes inv: "daemon_inv E ok s" and wf: "wf_packet p"
  shows "safe E ok (forward_packet to p) s (\<lambda>_. True)"
proof -
  have "wf_queue (send_or_drop 100 p (send_outgoing l))" if "links s c = Some l" for c l
    using inv that wf by (intro wf_queue_send) (auto simp: daemon_inv_def)
  then show ?thesis using inv
    by (auto simp: safe_def total_def forward_packet_def daemon_inv_def send_raw_packet_def
        split: option.splits if_splits)
qed

lemma inner_decode_wf:
  assumes "bincode_typed E" "inner_decode E b = Inr (p, fp)"
  shows "wf_inner p"
  using assms by (auto simp: inner_decode_def bincode_typed_def Let_def res_simps split: if_splits option.splits)

lemma safe_process_garbled:
  assumes laws: "daemon_laws E ok" and inv: "daemon_inv E ok s"
  shows "safe E ok (process_garbled E i b) s (\<lambda>_. True)"
proof -
  have wf: "wf_inner p" if "degarble E d b = Inr (p, fp)" for d p fp
    using that inner_decode_wf[OF daemon_lawsD(3)[OF laws]] by (auto simp: degarble_def)
  have np: "degarble E d b \<noteq> Inl Panic" for d by (simp add: degarble_def)
  show ?thesis unfolding process_garbled_def
  proof (rule safe_bind[where P = "\<lambda>_. True"], rule safe_lift_res)
    fix d s1 assume i1: "daemon_inv E ok s1"
    show "safe E ok (bind_proc (modify (\<lambda>s. s\<lparr>degarblers := (degarblers s)(i := None)\<rparr>)) (\<lambda>_.
     bind_proc (lift_res (\<lambda>s. map_err DegarbleError (degarble E d b))) (\<lambda>(inner_pkt, src_fp).
     bind_proc (modify (decrement_rrb_balance (my_anon_isk d) src_fp)) (\<lambda>_.
     bind_proc (map_err_proc ReplenishError (replenish_rrb E (my_anon_isk d) src_fp)) (\<lambda>_.
       process_inner_pkt E inner_pkt src_fp (my_fingerprint E (my_anon_isk d))))))) s1 (\<lambda>_. True)"
    proof (rule safe_bind, rule safe_modify)
      show "daemon_inv E ok (s1\<lparr>degarblers := (degarblers s1)(i := None)\<rparr>)" using i1 by (simp add: daemon_inv_def)
      fix s2 assume i2: "daemon_inv E ok s2"
      show "safe E ok (bind_proc (lift_res (\<lambda>s. map_err DegarbleError (degarble E d b))) (\<lambda>(inner_pkt, src_fp).
         bind_proc (modify (decrement_rrb_balance (my_anon_isk d) src_fp)) (\<lambda>_.
         bind_proc (map_err_proc ReplenishError (replenish_rrb E (my_anon_isk d) src_fp)) (\<lambda>_.
           process_inner_pkt E inner_pkt src_fp (my_fingerprint E (my_anon_isk d)))))) s2 (\<lambda>_. True)"
      proof (rule safe_bind[where P = "\<lambda>(p, fp). wf_inner p"], rule safe_lift_res)
        fix x :: "inner_packet \<times> fingerprint" and s3 assume x: "case x of (p, fp) \<Rightarrow> wf_inner p" and i3: "daemon_inv E ok s3"
        obtain p fp where p: "x = (p, fp)" "wf_inner p" using x by (cases x) auto
        have "daemon_inv E ok (decrement_rrb_balance (my_anon_isk d) fp s3)"
          using i3 rb_balance_inv[of E ok "my_anon_isk d" fp s3] by (simp add: decrement_rrb_balance_def split_beta)
        then show "safe E ok (case x of (inner_pkt, src_fp) \<Rightarrow>
         bind_proc (modify (decrement_rrb_balance (my_anon_isk d) src_fp)) (\<lambda>_.
         bind_proc (map_err_proc ReplenishError (replenish_rrb E (my_anon_isk d) src_fp)) (\<lambda>_.
           process_inner_pkt E inner_pkt src_fp (my_fingerprint E (my_anon_isk d))))) s3 (\<lambda>_. True)"
          unfolding p(1) prod.case
          by (intro safe_bind[OF safe_modify] safe_bind[OF safe_map_err[OF safe_replenish[OF laws]]]
              safe_process_inner_pkt[OF laws _ p(2)])
      qed (use i2 wf np in \<open>auto simp: res_simps\<close>)
    qed
  qed (use inv in auto)
qed

lemma safe_peel_forward:
  assumes laws: "daemon_laws E ok" and inv: "daemon_inv E ok s" and wf: "wf_packet pkt"
  shows "safe E ok (peel_forward E pkt) s (\<lambda>_. True)"
  unfolding peel_forward_def
proof (rule safe_bind, rule safe_lift_res)
  let ?P = "\<lambda>p. case p of Forward to q \<Rightarrow> wf_packet q | Received fp q \<Rightarrow> wf_inner q | GarbledReply i b \<Rightarrow> True"
  note ps = peel_sizes[OF daemon_lawsD(1)[OF laws] wf, of "global_onion_sk s"]
  show "map_err PeelError (peel E pkt (global_onion_sk s)) \<noteq> Inl Panic"
    using ps by (auto simp: res_simps)
  fix p assume "map_err PeelError (peel E pkt (global_onion_sk s)) = Inr p"
  then have p: "peel E pkt (global_onion_sk s) = Inr p" by (simp add: res_simps)
  have "wf_inner q" if "p = Received fp q" for fp q
    using p that inner_decode_wf[OF daemon_lawsD(3)[OF laws]]
    by (auto simp: peel_def Let_def res_simps split: if_splits)
  then show "?P p" using ps p by (cases p) auto
next
  fix p s' assume P: "case p of Forward to q \<Rightarrow> wf_packet q | Received fp q \<Rightarrow> wf_inner q | GarbledReply i b \<Rightarrow> True"
    and i: "daemon_inv E ok s'"
  show "safe E ok (case p of Forward next_hop inner_pkt \<Rightarrow> forward_packet next_hop inner_pkt
     | Received src_fp inner_pkt \<Rightarrow> bind_proc (gets (my_fp E)) (\<lambda>me. process_inner_pkt E inner_pkt src_fp me)
     | GarbledReply rb_id b \<Rightarrow> process_garbled E rb_id b) s' (\<lambda>_. True)"
    using P i by (cases p) (auto intro: safe_forward_packet safe_process_garbled[OF laws]
        safe_bind[OF safe_keeping[OF keeping_gets]] safe_process_inner_pkt[OF laws])
qed (rule inv)

section \<open>Delivery\<close>

lemma windows2_parts:
  assumes "p \<noteq> []"
  shows "map fst (windows2 p) = butlast p" "map snd (windows2 p) = tl p" "length (windows2 p) = length p - 1"
proof -
  show "map fst (windows2 p) = butlast p" using assms by (cases p) (simp_all add: windows2_def butlast_conv_take map_fst_zip_take min_def)
  show "map snd (windows2 p) = tl p" by (simp add: windows2_def map_snd_zip_take min_def)
  show "length (windows2 p) = length p - 1" by (simp add: windows2_def)
qed

text \<open>The instructions of a route through honest nodes.\<close>

lemma honest_instructs:
  assumes pl: "packet_laws E" and g: "graph_inv E g" and route: "is_route g src dst p"
    and honest: "\<And>fp d. identity g fp = Some d \<Longrightarrow> onion_pk d = onion_public_of E (osk fp)"
  obtains ins where "route_to_instructs p g = Inr ins" "route_for E (map osk (butlast p)) ins"
    "map next_fingerprint ins = tl p" "length ins = length p - 1"
proof -
  have k: "set p \<subseteq> dom (fp_to_id g)" and ne: "p \<noteq> []" using route by (auto simp: is_route_def)
  define d where "d fp = the (identity g fp)" for fp
  have d: "identity g fp = Some (d fp)" if "fp \<in> set p" for fp
    using node_fp_length(2)[OF pl g, of fp] k that unfolding d_def by (metis option.sel subsetD)
  define ins where "ins = map (\<lambda>(this, next). \<lparr>this_pubkey = onion_pk (d this), next_fingerprint = next\<rparr>) (windows2 p)"
  have 1: "route_to_instructs p g = Inr ins" unfolding ins_def using d by (rule route_to_instructs_ok)
  have "map this_pubkey ins = map (onion_pk \<circ> d) (map fst (windows2 p))" by (simp add: ins_def split_beta)
  also have "\<dots> = map (onion_public_of E) (map osk (butlast p))"
    unfolding windows2_parts(1)[OF ne] using honest d by (auto dest: in_set_butlastD)
  finally have pks: "map this_pubkey ins = map (onion_public_of E) (map osk (butlast p))" .
  have nxt: "map next_fingerprint ins = map snd (windows2 p)" by (simp add: ins_def split_beta)
  then have 3: "map next_fingerprint ins = tl p" by (simp add: windows2_parts(2)[OF ne])
  have "length (fp_bytes (next_fingerprint hop)) = 20" if "hop \<in> set ins" for hop
  proof -
    have "next_fingerprint hop \<in> set (tl p)" using that 3 by (metis imageI list.set_map)
    then have "next_fingerprint hop \<in> set p" using ne by (metis list.set_sel(2))
    then show ?thesis using node_fp_length(1)[OF pl g] k by blast
  qed
  then have "route_for E (map osk (butlast p)) ins" using pks by (simp add: route_for_def list_all_iff)
  then show thesis using that 1 3 windows2_parts(3)[OF ne] by (simp add: ins_def)
qed

text \<open>What a successful send under the node's own identity does to the state.\<close>

definition sent :: "('l, 'z) daemon_env_scheme \<Rightarrow> fingerprint \<Rightarrow> raw_packet \<Rightarrow> 'l daemon \<Rightarrow> 'l daemon" where
  "sent E dst pkt s = s\<lparr>anon_dests := snd (rb_store_pop (lru E) dst (anon_dests s)), rng := Suc (rng s),
     neigh := inject_asif_incoming pkt (neigh s)\<rparr>"

lemma send_n2r_own:
  assumes laws: "daemon_laws E ok" and inv: "daemon_inv E ok s"
    and honest: "\<And>fp d. identity (graph s) fp = Some d \<Longrightarrow> onion_pk d = onion_public_of E (osk fp)"
    and no_rb: "rb_stack (lru E) (anon_dests s) dst = []"
    and route: "is_route (graph s) (my_fp E s) dst q" "length q \<le> 10"
    and fits: "length (bincode_serialize E (Message (message_new sd dd content))) \<le> 8172"
  shows "\<exists>p pkt last. send_n2r E (global_identity s) sd dst dd content s = Some (Inr (), sent E dst pkt s) \<and>
           is_route (graph s) (my_fp E s) dst p \<and> length p \<le> length q \<and>
           relay_path E (map osk (butlast p)) pkt = Some (tl p, last) \<and>
           peel E last (osk dst) = Inr (Received (my_fp E s) (Message (message_new sd dd content)))"
proof -
  have g: "graph_inv E (graph s)" and st: "rb_store_inv (lru E) ok (anon_dests s)" using inv by (auto simp: daemon_inv_def)
  note pl = daemon_lawsD(1)[OF laws]
  let ?m = "Message (message_new sd dd content)"
  have pop: "fst (rb_store_pop (lru E) dst (anon_dests s)) = None"
    using rb_store_pop_effect(2)[OF daemon_lawsD(4)[OF laws] st] no_rb by simp
  obtain p where p: "find_shortest_path E (graph s) (my_fp E s) dst = Some (Inr (Some p))"
      "is_route (graph s) (my_fp E s) dst p" "length p \<le> length q"
    using shortest_path_spec[OF g daemon_lawsD(2)[OF laws], of "my_fp E s" dst] route by (fastforce split: option.splits)
  obtain ins where ins: "route_to_instructs p (graph s) = Inr ins" "route_for E (map osk (butlast p)) ins"
      "map next_fingerprint ins = tl p" "length ins = length p - 1"
    using honest_instructs[OF pl g p(2), of osk] honest by blast
  have dst: "dst \<in> dom (fp_to_id (graph s))" using p(2) unfolding is_route_def by (metis last_in_set subsetD)
  then obtain d where d: "identity (graph s) dst = Some d" using node_fp_length(2)[OF pl g] by blast
  have few: "length ins < 10" using ins(4) p(2,3) route(2) by (cases p) (auto simp: is_route_def)
  obtain sealed where enc: "inner_encode E ?m (global_identity s) = Inr sealed" using fits inner_encode_ok_iff by blast
  obtain pkt secs where "raw_new E (rand_eph E (rng s)) (rand_garbage E (rng s)) ins (onion_public_of E (osk dst)) ?m
      (replicate 20 0) (global_identity s) = Inr (pkt, secs)"
    using raw_new_total[OF pl _ enc ins(2) few, of "replicate 20 0"] by fastforce
  then have new: "new_normal E (rand_eph E (rng s)) (rand_garbage E (rng s)) ins (onion_public_of E (osk dst)) ?m
      (global_identity s) = Inr pkt"
    by (simp add: new_normal_def)
  have "send_n2r E (global_identity s) sd dst dd content s =
      Some (Inr (), sent E dst pkt s)"
    using pop p(1) ins(1) d honest[OF d] new
    by (simp add: send_n2r_def route_between_def bind_proc_def lift_loop_def instructs_of_def lift_res_def opk_of_def
        build_packet_def inject_def proc_simps sent_def)
  moreover have "\<exists>last. relay_path E (map osk (butlast p)) pkt = Some (map next_fingerprint ins, last)
           \<and> peel E last (osk dst) = Inr (Received (my_fp E s) ?m)"
    by (rule normal_packet_delivered[OF pl daemon_lawsD(5)[OF laws] _ ins(2) new]) (simp add: wf_inner_def)
  ultimately show ?thesis using p(2,3) ins(3) by auto
qed

text \<open>
  A message sent with \<open>send_n2r\<close> under the node's own identity reaches its destination.  If there
  is a route of at most ten nodes to the destination, the message fits, no reply block is held for
  the destination and the local queue has room, the send succeeds; the packet it queues is
  forwarded by each node of a shortest route to the next one, and the destination reads the
  message and the sender's fingerprint from it.  Honesty means that the onion key a node
  published is the one it peels with.
\<close>

theorem send_n2r_delivers:
  assumes laws: "daemon_laws E ok" and inv: "daemon_inv E ok s"
    and honest: "\<And>fp d. identity (graph s) fp = Some d \<Longrightarrow> onion_pk d = onion_public_of E (osk fp)"
    and no_rb: "rb_stack (lru E) (anon_dests s) dst = []"
    and room: "length (neigh_incoming (neigh s)) < 100"
    and route: "is_route (graph s) (my_fp E s) dst q" "length q \<le> 10"
    and fits: "length (bincode_serialize E (Message (message_new sd dd content))) \<le> 8172"
  shows "\<exists>s' p pkt last. send_n2r E (global_identity s) sd dst dd content s = Some (Inr (), s') \<and>
           neigh_incoming (neigh s') = neigh_incoming (neigh s) @ [pkt] \<and>
           is_route (graph s) (my_fp E s) dst p \<and> length p \<le> length q \<and>
           relay_path E (map osk (butlast p)) pkt = Some (tl p, last) \<and>
           peel E last (osk dst) = Inr (Received (my_fp E s) (Message (message_new sd dd content)))"
proof -
  obtain p pkt last where "send_n2r E (global_identity s) sd dst dd content s = Some (Inr (), sent E dst pkt s)"
      "is_route (graph s) (my_fp E s) dst p" "length p \<le> length q"
      "relay_path E (map osk (butlast p)) pkt = Some (tl p, last)"
      "peel E last (osk dst) = Inr (Received (my_fp E s) (Message (message_new sd dd content)))"
    using send_n2r_own[OF laws inv _ no_rb route fits, of osk] honest by blast
  moreover have "neigh_incoming (neigh (sent E dst pkt s)) = neigh_incoming (neigh s) @ [pkt]"
    using room by (simp add: sent_def inject_asif_incoming_def)
  ultimately show ?thesis by blast
qed

section \<open>An instance for the witnesses\<close>

definition demo_denv :: "demo_cache daemon_env" where
  "demo_denv = topo_env.extend
     (demo_topo\<lparr>bincode_deserialize := (\<lambda>b. case demo_deserialize b of
        Some p \<Rightarrow> if wf_inner p then Some p else None | None \<Rightarrow> None)\<rparr>)
     \<lparr>lru = demo_lru, rand_eph = (\<lambda>n k. OnionSecret [of_nat k]), rand_garbage = (\<lambda>n. replicate 621 0),
      rand_u64 = (\<lambda>n. 7), rand_osk = (\<lambda>n. OnionSecret [of_nat n])\<rparr>"

lemmas demo_denv_defs = demo_denv_def demo_topo_def demo_env_def topo_env.defs packet_env.defs crypto.defs

definition demo_daemon :: "demo_cache daemon" where
  "demo_daemon = \<lparr>global_identity = demo_isk 1, global_onion_sk = OnionSecret [1], graph = demo_graph,
     anon_dests = rb_store_new demo_lru, neigh = neigh_table_new, links = Map.empty,
     socket_recv_queues = [endpoint_new (demo_fp 1) 5 \<mapsto> []], degarblers = Map.empty, balance_table = Map.empty,
     onion_sk_cache = Map.empty, rng = 0\<rparr>"

lemma demo_denv_same:
  "fingerprint_of demo_denv = fingerprint_of demo_topo" "verify demo_denv = verify demo_topo"
  "identity_to_sign demo_denv = identity_to_sign demo_topo" "adjacency_to_sign demo_denv = adjacency_to_sign demo_topo"
  "identity_public_of demo_denv = identity_public_of demo_topo" "onion_public_of demo_denv = onion_public_of demo_topo"
  "bincode_serialize demo_denv = demo_serialize" "lru demo_denv = demo_lru"
  by (simp_all add: fun_eq_iff demo_denv_defs fingerprint_of_def verify_def identity_to_sign_def adjacency_to_sign_def
      identity_public_of_def onion_public_of_def)

lemma demo_bincode_read:
  "wf_inner p \<Longrightarrow> demo_deserialize (demo_serialize p @ rest) = Some p"
  using demo_bincode_laws by (simp add: bincode_laws_def demo_env_def crypto.defs)

lemma demo_daemon_laws: "daemon_laws demo_denv demo_lru_ok"
proof -
  have "bincode_laws demo_denv" using demo_bincode_read by (simp add: bincode_laws_def demo_denv_defs)
  moreover have "bincode_typed demo_denv" by (auto simp: bincode_typed_def demo_denv_defs split: option.splits if_splits)
  moreover have "iter_laws demo_denv" using demo_topo_iter by (simp add: iter_laws_def demo_denv_defs)
  moreover have "blake3_laws demo_denv" "x25519_laws demo_denv" "aead_laws demo_denv"
    using demo_laws by (simp_all add: demo_denv_defs blake3_laws_def x25519_laws_def aead_laws_def)
  moreover have "length (rand_garbage demo_denv n) = 621" for n by (simp add: demo_denv_defs)
  ultimately show ?thesis
    unfolding daemon_laws_def packet_laws_def demo_denv_same(8) using demo_lru_laws by (intro conjI allI)
qed

lemma demo_graph_inv_denv: "graph_inv demo_denv demo_graph"
  using demo_graph_facts(1)
  by (simp add: graph_inv_def ids_ok_def docs_ok_def signed_by_def demo_denv_same)

lemma demo_daemon_inv: "daemon_inv demo_denv demo_lru_ok demo_daemon"
proof -
  have "rb_stack demo_lru (rb_store_new demo_lru) fp = []" for fp
    by (simp add: rb_stack_def rb_store_new_def demo_lru_def)
  then show ?thesis
    using demo_graph_inv_denv rb_store_new_inv[OF demo_lru_laws]
    by (simp add: daemon_inv_def demo_daemon_def demo_denv_same wf_queue_def neigh_table_new_def)
qed

definition demo_osk :: "fingerprint \<Rightarrow> onion_secret" where
  "demo_osk fp = OnionSecret [fp_bytes fp ! 0]"

lemma demo_honest:
  assumes "identity demo_graph fp = Some d"
  shows "onion_pk d = onion_public_of demo_denv (demo_osk fp)"
  using demo_identities[OF assms] by (auto simp: demo_osk_def demo_fp_bytes demo_denv_same)

lemma demo_daemon_fields [simp]:
  "global_identity demo_daemon = demo_isk 1" "graph demo_daemon = demo_graph" "neigh demo_daemon = neigh_table_new"
  "anon_dests demo_daemon = rb_store_new demo_lru"
  by (simp_all add: demo_daemon_def)

lemma demo_store_empty [simp]: "rb_stack demo_lru (rb_store_new demo_lru) fp = []"
  by (simp add: rb_stack_def rb_store_new_def demo_lru_def)

lemma demo_fits: "length (bincode_serialize demo_denv (Message (message_new 5 6 [[1, 2, 3]]))) \<le> 8172"
  by (simp add: demo_denv_same demo_serialize_def put_message_def put_nat_def put_bytes_def message_new_def)

theorem send_n2r_delivers_witness:
  "\<exists>s' p pkt last. send_n2r demo_denv (demo_isk 1) 5 (demo_fp 2) 6 [[1, 2, 3]] demo_daemon = Some (Inr (), s') \<and>
     neigh_incoming (neigh s') = [pkt] \<and> is_route demo_graph (demo_fp 1) (demo_fp 2) p \<and> length p \<le> 2 \<and>
     relay_path demo_denv (map demo_osk (butlast p)) pkt = Some (tl p, last) \<and>
     peel demo_denv last (demo_osk (demo_fp 2)) = Inr (Received (demo_fp 1) (Message (message_new 5 6 [[1, 2, 3]])))"
proof -
  have me: "my_fp demo_denv demo_daemon = demo_fp 1" by (simp add: demo_daemon_def demo_denv_same demo_fp_def)
  show ?thesis
    using send_n2r_delivers[OF demo_daemon_laws demo_daemon_inv, where osk = demo_osk and dst = "demo_fp 2"
        and q = "[demo_fp 1, demo_fp 2]" and sd = 5 and dd = 6 and content = "[[1, 2, 3]]", unfolded me]
      demo_honest demo_fits demo_route_exists
    by (simp add: demo_denv_same neigh_table_new_def numeral_2_eq_2)
qed

section \<open>Properties\<close>

text \<open>
  The daemon never panics and never hangs on its own operations.  From a consistent state,
  sending a message of any content under any identity returns a value or an error, and so does
  the processing of the next incoming packet, whatever its bytes; both leave the state consistent:
  graph, reply block store, queue bounds and packet sizes.
\<close>

theorem daemon_operations_safe:
  assumes laws: "daemon_laws E ok" and inv: "daemon_inv E ok s"
  shows "(\<exists>r s'. send_n2r E isk sd dst dd content s = Some (r, s') \<and> r \<noteq> Inl Panic \<and> daemon_inv E ok s') \<and>
         (case peel_forward_turn E s of
            None \<Rightarrow> neigh_incoming (neigh s) = []
          | Some run \<Rightarrow> (\<exists>r s'. run = Some (r, s') \<and> r \<noteq> Inl Panic \<and> daemon_inv E ok s'))"
proof
  show "\<exists>r s'. send_n2r E isk sd dst dd content s = Some (r, s') \<and> r \<noteq> Inl Panic \<and> daemon_inv E ok s'"
    using safe_send_n2r[OF laws inv] by (auto simp: safe_def total_def)
  show "case peel_forward_turn E s of
            None \<Rightarrow> neigh_incoming (neigh s) = []
          | Some run \<Rightarrow> (\<exists>r s'. run = Some (r, s') \<and> r \<noteq> Inl Panic \<and> daemon_inv E ok s')"
  proof (cases "neigh_incoming (neigh s)")
    case (Cons p ps)
    have wf: "wf_packet p" and "daemon_inv E ok (s\<lparr>neigh := (neigh s)\<lparr>neigh_incoming := ps\<rparr>\<rparr>)"
      using inv Cons by (auto simp: daemon_inv_def wf_queue_def)
    from safe_peel_forward[OF laws this(2) wf] Cons show ?thesis
      by (simp add: peel_forward_turn_def recv_raw_packet_def safe_def total_def)
  qed (simp add: peel_forward_turn_def recv_raw_packet_def)
qed

theorem daemon_operations_safe_witness:
  "\<exists>r s'. send_n2r demo_denv (demo_isk 3) 1 (demo_fp 2) 2 [[7]] demo_daemon = Some (r, s') \<and> r \<noteq> Inl Panic
     \<and> daemon_inv demo_denv demo_lru_ok s'"
  using daemon_operations_safe[OF demo_daemon_laws demo_daemon_inv] by blast

text \<open>
  (C21) The replenishing loop ends.  Whatever the balance is, \<open>replenish_rrb\<close> returns; when it
  succeeds the balance for that peer is at least 100, and it stops as soon as it is: the loop adds
  less than one batch beyond 100 and nothing to a balance that was high enough.
\<close>

theorem replenish_rrb_ends:
  assumes laws: "daemon_laws E ok" and inv: "daemon_inv E ok s"
  shows "\<exists>r s'. replenish_rrb E isk dst s = Some (r, s') \<and> r \<noteq> Inl Panic \<and>
           (r = Inr () \<longrightarrow> max 100 (balance_of s isk dst) \<le> balance_of s' isk dst \<and>
              balance_of s' isk dst < max 105 (balance_of s isk dst + 1))"
  using total_replenish[OF laws inv, where isk = isk and dst = dst] unfolding total_def by blast

theorem replenish_rrb_ends_witness:
  "\<exists>r s'. replenish_rrb demo_denv (demo_isk 3) (demo_fp 2) demo_daemon = Some (r, s') \<and> r \<noteq> Inl Panic"
  using replenish_rrb_ends[OF demo_daemon_laws demo_daemon_inv] by blast

section \<open>The price of a refusal\<close>

text \<open>
  Anonymous to anonymous is refused, at a price.  Sending under an anonymous identity to a
  destination for which reply blocks are held fails with \<open>NoAnonId\<close>, and yet the newest of these
  reply blocks has been taken out of the store.
\<close>

theorem anon_to_anon_costs_reply_block:
  assumes laws: "daemon_laws E ok" and inv: "daemon_inv E ok s"
    and anon: "isk \<noteq> global_identity s" and held: "rb_stack (lru E) (anon_dests s) dst = rb # rbs"
  shows "\<exists>s'. send_n2r E isk sd dst dd content s = Some (Inl (Err NoAnonId), s') \<and>
           rb_stack (lru E) (anon_dests s') = (rb_stack (lru E) (anon_dests s))(dst := rbs) \<and>
           neigh s' = neigh s"
proof -
  have st: "rb_store_inv (lru E) ok (anon_dests s)" using inv by (simp add: daemon_inv_def)
  note p = rb_store_pop_effect(2,3)[OF daemon_lawsD(4)[OF laws] st, of dst]
  show ?thesis using p held anon by (simp add: send_n2r_def proc_simps)
qed

definition demo_rb :: reply_block where
  "demo_rb = \<lparr>rb_header = \<lparr>outer = replicate 69 0, inner = replicate 621 0\<rparr>, e2e_dest = OnionPublic (replicate 32 0)\<rparr>"

theorem anon_to_anon_costs_reply_block_witness:
  "\<exists>s'. send_n2r demo_denv (demo_isk 3) 1 (demo_fp 2) 2 [[7]]
       (demo_daemon\<lparr>anon_dests := rb_store_insert demo_lru (demo_fp 2) demo_rb (rb_store_new demo_lru)\<rparr>)
       = Some (Inl (Err NoAnonId), s') \<and> rb_stack demo_lru (anon_dests s') (demo_fp 2) = []"
proof -
  let ?l = "rb_store_insert demo_lru (demo_fp 2) demo_rb (rb_store_new demo_lru)"
  let ?s = "demo_daemon\<lparr>anon_dests := ?l\<rparr>"
  note e = rb_store_insert_effect[OF demo_lru_laws rb_store_new_inv[OF demo_lru_laws], where fp = "demo_fp 2" and rb = demo_rb]
  have wf: "wf_reply_block demo_rb" by (simp add: demo_rb_def wf_reply_block_def wf_header_def)
  have "list_all wf_reply_block (rb_stack demo_lru ?l fp)" for fp
    using e(2) e(3)[of fp] wf by (cases "fp = demo_fp 2") auto
  then have inv: "daemon_inv demo_denv demo_lru_ok ?s"
    using demo_daemon_inv e(1) by (simp add: daemon_inv_def demo_denv_same)
  have "demo_isk 3 \<noteq> global_identity ?s" by (simp add: demo_isk_def)
  from anon_to_anon_costs_reply_block[OF demo_daemon_laws inv this, where dst = "demo_fp 2" and rb = demo_rb and rbs = "[]"
      and sd = 1 and dd = 2 and content = "[[7]]"]
  show ?thesis using e(2) by (auto simp: demo_denv_same)
qed

end
