(* ===== verification/Link_Protocol.thy ===== *)
theory Link_Protocol
  imports Daemon
begin

text \<open>
  \<open>src/daemon/link_protocol.rs\<close>, the connection handling and RPC handlers of
  \<open>src/daemon/link_connection.rs\<close>, and \<open>src/daemon/gossip.rs\<close>.  The multiplex, its streams and the
  JSON-RPC transport are third-party code: a mux public key is its bytes, and the answers of the
  remote end are the functions of the record \<open>link_peer\<close>, where \<open>Inl ()\<close> is a failed call.
\<close>

section \<open>Authentication\<close>

record auth_response =
  full_pk :: identity_public
  binding_sig :: bytes

definition auth_to_sign :: "'z crypto_scheme \<Rightarrow> bytes \<Rightarrow> bytes" where
  "auth_to_sign C mux_pk = blake3_keyed_hash C (bytes_of_string ''n2n_auth________________________'') mux_pk"

definition auth_response_new :: "'z crypto_scheme \<Rightarrow> identity_secret \<Rightarrow> bytes \<Rightarrow> auth_response" where
  "auth_response_new C my_identity my_pk =
     \<lparr>full_pk = identity_public_of C my_identity, binding_sig = sign C my_identity (auth_to_sign C my_pk)\<rparr>"

definition auth_response_verify :: "'z crypto_scheme \<Rightarrow> auth_response \<Rightarrow> bytes \<Rightarrow> verify_error + unit" where
  "auth_response_verify C resp peer_pk = verify C (full_pk resp) (auth_to_sign C peer_pk) (binding_sig resp)"

datatype connect_error = NoAuthResponse | NoPeerKey | AuthFailed verify_error

text \<open>\<open>LinkConnection::connect\<close>: what the peer answered and the mux key it is known by decide.  Of the multiplex, the
  link keeps the key of its peer.\<close>

definition link_connect ::
    "'z crypto_scheme \<Rightarrow> auth_response option \<Rightarrow> bytes option \<Rightarrow> connect_error + link_connection" where
  "link_connect C resp peer_pk =
     (case resp of None \<Rightarrow> Inl NoAuthResponse
      | Some resp \<Rightarrow>
          (case peer_pk of None \<Rightarrow> Inl NoPeerKey
           | Some pk \<Rightarrow>
               (case auth_response_verify C resp pk of
                  Inl e \<Rightarrow> Inl (AuthFailed e)
                | Inr _ \<Rightarrow> Inr \<lparr>mux_peer_pk = pk, remote_idpk = full_pk resp, send_outgoing = [], recv_incoming = []\<rparr>)))"

section \<open>Onion packets on the wire\<close>

definition packet_bytes :: "raw_packet \<Rightarrow> bytes" where
  "packet_bytes p = header_bytes (header p) @ onion_body p"

definition packet_of_bytes :: "bytes \<Rightarrow> raw_packet option" where
  "packet_of_bytes b =
     (if length b = 69 + 621 + 8192
      then Some \<lparr>header = \<lparr>outer = take 69 b, inner = take 621 (drop 69 b)\<rparr>, onion_body = drop 690 b\<rparr>
      else None)"

datatype onion_stream_error = WrongPacketSize | IncomingFull

text \<open>One turn of each of the two loops of \<open>handle_onion_packets\<close>.\<close>

definition onion_up :: "link_connection \<Rightarrow> (bytes \<times> link_connection) option" where
  "onion_up l = (case send_outgoing l of [] \<Rightarrow> None | p # ps \<Rightarrow> Some (packet_bytes p, l\<lparr>send_outgoing := ps\<rparr>))"

definition onion_dn :: "bytes \<Rightarrow> link_connection \<Rightarrow> onion_stream_error + link_connection" where
  "onion_dn b l =
     (case packet_of_bytes b of
        None \<Rightarrow> Inl WrongPacketSize
      | Some p \<Rightarrow>
          (case try_send 100 p (recv_incoming l) of
             None \<Rightarrow> Inl IncomingFull
           | Some q \<Rightarrow> Inr (l\<lparr>recv_incoming := q\<rparr>)))"

text \<open>
  The pool of RPC streams: \<open>get_conn\<close> takes the first pooled stream younger than a minute and drops
  the older ones it meets; \<open>None\<close> means that a new stream is opened.
\<close>

definition POOL_TIMEOUT :: nat where
  "POOL_TIMEOUT = 60000"

fun get_conn :: "instant \<Rightarrow> ('c \<times> instant) list \<Rightarrow> 'c option \<times> ('c \<times> instant) list" where
  "get_conn now [] = (None, [])"
| "get_conn now ((c, time) # pool) = (if now - time < POOL_TIMEOUT then (Some c, pool) else get_conn now pool)"

section \<open>Handlers\<close>

definition handle_authenticate :: "('l, 'z) daemon_env_scheme \<Rightarrow> bytes \<Rightarrow> 'l daemon \<Rightarrow> auth_response" where
  "handle_authenticate E local_pk s = auth_response_new E (global_identity s) local_pk"

definition handle_sign_adjacency ::
    "('l, 'z) daemon_env_scheme \<Rightarrow> u64 \<Rightarrow> adjacency_descriptor \<Rightarrow> 'l daemon \<Rightarrow> adjacency_descriptor option \<times> 'l daemon" where
  "handle_sign_adjacency E now left_incomplete s =
     (let valid = (left left_incomplete < right left_incomplete \<and> right left_incomplete = my_fp E s \<and>
                   neigh_lookup (neigh s) (left left_incomplete) \<noteq> None)
      in if \<not> valid then (None, s)
         else let a = left_incomplete\<lparr>right_sig := sign E (global_identity s) (adjacency_to_sign E left_incomplete)\<rparr>;
                  (r, g) = insert_adjacency E now (graph s) a
              in ((case r of Inl e \<Rightarrow> None | Inr _ \<Rightarrow> Some a), s\<lparr>graph := g\<rparr>))"

definition handle_identity :: "fingerprint \<Rightarrow> 'l daemon \<Rightarrow> identity_descriptor option" where
  "handle_identity fp s = identity (graph s) fp"

definition both_relays :: "relay_graph \<Rightarrow> adjacency_descriptor \<Rightarrow> bool" where
  "both_relays g adj \<longleftrightarrow>
     (case identity g (left adj) of None \<Rightarrow> False | Some d \<Rightarrow> is_relay d) \<and>
     (case identity g (right adj) of None \<Rightarrow> False | Some d \<Rightarrow> is_relay d)"

definition handle_adjacencies ::
    "('l, 'z) daemon_env_scheme \<Rightarrow> fingerprint list \<Rightarrow> 'l daemon \<Rightarrow> (unit, adjacency_descriptor list) res" where
  "handle_adjacencies E fps s =
     bind_res (collect_res (\<lambda>fp. case adjacencies E (graph s) fp of
                  None \<Rightarrow> Inr []
                | Some r \<Rightarrow> bind_res r (\<lambda>adjs. Inr (filter (both_relays (graph s)) adjs))) fps)
       (\<lambda>adjss. Inr (remdups_adj (concat adjss)))"

section \<open>Gossip\<close>

record link_peer =
  rpc_identity :: "fingerprint \<Rightarrow> unit + identity_descriptor option"
  rpc_sign_adjacency :: "adjacency_descriptor \<Rightarrow> unit + adjacency_descriptor option"
  rpc_adjacencies :: "fingerprint list \<Rightarrow> unit + adjacency_descriptor list"

datatype gossip_error =
    RpcFailed | RefusedIdentity | IdentityRejected verify_error | RefusedToSign | AdjacencyRejected adjacency_error

definition insert_identity_proc ::
    "('l, 'z) daemon_env_scheme \<Rightarrow> identity_descriptor \<Rightarrow> ('l daemon, gossip_error, unit) proc" where
  "insert_identity_proc E d = (\<lambda>s. let (r, g) = insert_identity E (graph s) d
     in Some (case r of Inl e \<Rightarrow> Inl (Err (IdentityRejected e)) | Inr _ \<Rightarrow> Inr (), s\<lparr>graph := g\<rparr>))"

definition insert_adjacency_proc ::
    "('l, 'z) daemon_env_scheme \<Rightarrow> u64 \<Rightarrow> adjacency_descriptor \<Rightarrow> ('l daemon, gossip_error, unit) proc" where
  "insert_adjacency_proc E now a = (\<lambda>s. let (r, g) = insert_adjacency E now (graph s) a
     in Some (case r of Inl e \<Rightarrow> Inl (Err (AdjacencyRejected e)) | Inr _ \<Rightarrow> Inr (), s\<lparr>graph := g\<rparr>))"

definition rpc :: "unit + 'a \<Rightarrow> ('l daemon, gossip_error, 'a) proc" where
  "rpc answer = (case answer of Inl _ \<Rightarrow> raise RpcFailed | Inr x \<Rightarrow> ret x)"

definition fetch_identity ::
    "('l, 'z) daemon_env_scheme \<Rightarrow> link_peer \<Rightarrow> identity_public \<Rightarrow> ('l daemon, gossip_error, unit) proc" where
  "fetch_identity E peer remote =
     bind_proc (rpc (rpc_identity peer (fingerprint_of E remote))) (\<lambda>answer.
     case answer of None \<Rightarrow> raise RefusedIdentity | Some their_id \<Rightarrow> insert_identity_proc E their_id)"

definition adjacency_offer :: "('l, 'z) daemon_env_scheme \<Rightarrow> u64 \<Rightarrow> fingerprint \<Rightarrow> 'l daemon \<Rightarrow> adjacency_descriptor" where
  "adjacency_offer E now remote_fp s =
     (let a = \<lparr>left = my_fp E s, right = remote_fp, left_sig = [], right_sig = [], adj_timestamp = now\<rparr>
      in a\<lparr>left_sig := sign E (global_identity s) (adjacency_to_sign E a)\<rparr>)"

definition gossip_sign_adjacency ::
    "('l, 'z) daemon_env_scheme \<Rightarrow> u64 \<Rightarrow> link_peer \<Rightarrow> identity_public \<Rightarrow> ('l daemon, gossip_error, unit) proc" where
  "gossip_sign_adjacency E now peer remote = (\<lambda>s.
     if my_fp E s < fingerprint_of E remote then
       bind_proc (rpc (rpc_sign_adjacency peer (adjacency_offer E now (fingerprint_of E remote) s))) (\<lambda>answer.
       case answer of None \<Rightarrow> raise RefusedToSign | Some complete \<Rightarrow> insert_adjacency_proc E now complete) s
     else Some (Inr (), s))"

primrec gossip_insert_all ::
    "('l, 'z) daemon_env_scheme \<Rightarrow> u64 \<Rightarrow> link_peer \<Rightarrow> adjacency_descriptor list \<Rightarrow> ('l daemon, gossip_error, unit) proc" where
  "gossip_insert_all E now peer [] = ret ()"
| "gossip_insert_all E now peer (a # as) =
     bind_proc (rpc (rpc_identity peer (left a))) (\<lambda>left_id.
     bind_proc (case left_id of Some d \<Rightarrow> insert_identity_proc E d | None \<Rightarrow> ret ()) (\<lambda>_.
     bind_proc (rpc (rpc_identity peer (right a))) (\<lambda>right_id.
     bind_proc (case right_id of Some d \<Rightarrow> insert_identity_proc E d | None \<Rightarrow> ret ()) (\<lambda>_.
     bind_proc (insert_adjacency_proc E now a) (\<lambda>_.
       gossip_insert_all E now peer as)))))"

text \<open>\<open>sample\<close> chooses at most ten of the known nodes.\<close>

definition gossip_graph ::
    "('l, 'z) daemon_env_scheme \<Rightarrow> u64 \<Rightarrow> (fingerprint list \<Rightarrow> fingerprint list) \<Rightarrow> link_peer
       \<Rightarrow> ('l daemon, gossip_error, unit) proc" where
  "gossip_graph E now sample peer =
     bind_proc (gets (\<lambda>s. sample (all_nodes E (graph s)))) (\<lambda>random_sample.
     bind_proc (rpc (rpc_adjacencies peer random_sample)) (\<lambda>adjs. gossip_insert_all E now peer adjs))"

definition gossip_once ::
    "('l, 'z) daemon_env_scheme \<Rightarrow> u64 \<Rightarrow> (fingerprint list \<Rightarrow> fingerprint list) \<Rightarrow> link_peer \<Rightarrow> identity_public
       \<Rightarrow> ('l daemon, gossip_error, unit) proc" where
  "gossip_once E now sample peer remote =
     bind_proc (fetch_identity E peer remote) (\<lambda>_.
     bind_proc (gossip_sign_adjacency E now peer remote) (\<lambda>_.
       gossip_graph E now sample peer))"

text \<open>The first step of every turn of \<open>gossip_loop\<close>: the node inserts its own fresh descriptor.\<close>

definition gossip_self ::
    "('l, 'z) daemon_env_scheme \<Rightarrow> u64 \<Rightarrow> bool \<Rightarrow> ('l daemon, gossip_error, unit) proc" where
  "gossip_self E now am_i_relay = (\<lambda>s.
     insert_identity_proc E (identity_descriptor_new E now (global_identity s) (global_onion_sk s) am_i_relay) s)"

text \<open>
  One turn of \<open>gossip_loop\<close>: after that, one of the neighbours (drawn by \<open>pick\<close> among them in the
  order the table yields them) is chosen for a round of gossip, which runs as a task of its own.
\<close>

definition gossip_turn ::
    "('l, 'z) daemon_env_scheme \<Rightarrow> u64 \<Rightarrow> bool \<Rightarrow> fingerprint list \<Rightarrow> nat \<Rightarrow> ('l daemon, gossip_error, conn option) proc" where
  "gossip_turn E now am_i_relay order pick =
     bind_proc (gossip_self E now am_i_relay) (\<lambda>_.
     bind_proc (gets (\<lambda>s. all_neighs order (neigh s))) (\<lambda>neighs.
     if neighs = [] then ret None else ret (Some (neighs ! (pick mod length neighs)))))"

section \<open>Gossip with an arbitrary peer\<close>

text \<open>A consistent daemon whose identifier counter has room for \<open>k\<close> more nodes.\<close>

definition roomy :: "('l, 'z) daemon_env_scheme \<Rightarrow> ('l \<Rightarrow> bool) \<Rightarrow> nat \<Rightarrow> 'l daemon \<Rightarrow> bool" where
  "roomy E ok k s \<longleftrightarrow> daemon_inv E ok s \<and> unat (unalloc_id (graph s)) + k < 2 ^ 64"

lemma roomy_inv: "roomy E ok k s \<Longrightarrow> daemon_inv E ok s"
  by (simp add: roomy_def)

lemma roomy_mono: "roomy E ok k s \<Longrightarrow> j \<le> k \<Longrightarrow> roomy E ok j s"
  by (simp add: roomy_def)

lemma roomy_Suc: "roomy E ok (Suc k) s \<Longrightarrow> roomy E ok k s"
  by (simp add: roomy_def)

lemma daemon_inv_graph: "daemon_inv E ok s \<Longrightarrow> graph_inv E g \<Longrightarrow> daemon_inv E ok (s\<lparr>graph := g\<rparr>)"
  by (simp add: daemon_inv_def)

lemma insert_identity_unalloc:
  assumes "unat (unalloc_id g) < 2 ^ 64 - 1"
  shows "unat (unalloc_id (snd (insert_identity E g d))) \<le> Suc (unat (unalloc_id g))"
proof -
  have "unat (unalloc_id g + 1) \<le> Suc (unat (unalloc_id g))"
    by (metis Suc_eq_plus1 add.commute le_add1 le_refl plus_1_eq_Suc unatSuc unsigned_0 le0)
  then show ?thesis
    by (auto simp: insert_identity_def alloc_id_def Let_def split: sum.splits option.splits)
qed

lemma room_not_max: "unat (n :: u64) + Suc k < 2 ^ 64 \<Longrightarrow> n \<noteq> - 1"
proof
  assume a: "unat n + Suc k < 2 ^ 64" and "n = - 1"
  moreover have "unat (- 1 :: u64) = 2 ^ 64 - 1" by (simp add: unsigned_minus_1_eq_mask mask_eq_exp_minus_1)
  ultimately show False by simp
qed

lemma total_insert_identity_proc:
  assumes "roomy E ok (Suc k) s"
  shows "total (insert_identity_proc E d) s (\<lambda>r s'. roomy E ok k s')"
proof -
  have g: "graph_inv E (graph s)" and inv: "daemon_inv E ok s" and room: "unat (unalloc_id (graph s)) + Suc k < 2 ^ 64"
    using assms by (auto simp: roomy_def daemon_inv_def)
  have 1: "graph_inv E (snd (insert_identity E (graph s) d))"
    by (rule insert_identity_inv[OF g room_not_max[OF room]])
  have 2: "unat (unalloc_id (snd (insert_identity E (graph s) d))) \<le> Suc (unat (unalloc_id (graph s)))"
    by (rule insert_identity_unalloc) (use room in simp)
  obtain r g' where ins: "insert_identity E (graph s) d = (r, g')" by (cases "insert_identity E (graph s) d")
  have "roomy E ok k (s\<lparr>graph := g'\<rparr>)"
    using daemon_inv_graph[OF inv] 1 2 room ins by (simp add: roomy_def)
  then show ?thesis using ins
    by (cases r) (auto simp: total_def insert_identity_proc_def)
qed

lemma total_insert_adjacency_proc:
  assumes laws: "daemon_laws E ok" and "roomy E ok k s"
  shows "total (insert_adjacency_proc E now a) s (\<lambda>r s'. roomy E ok k s')"
proof -
  have g: "graph_inv E (graph s)" and inv: "daemon_inv E ok s"
    using assms by (auto simp: roomy_def daemon_inv_def)
  obtain r g' where ins: "insert_adjacency E now (graph s) a = (r, g')" by (cases "insert_adjacency E now (graph s) a")
  have "graph_inv E g'" "unalloc_id g' = unalloc_id (graph s)"
    using insert_adjacency_inv[OF g daemon_lawsD(2)[OF laws], of now a]
      insert_adjacency_unalloc[OF g daemon_lawsD(2)[OF laws], of now a] ins by auto
  then have "roomy E ok k (s\<lparr>graph := g'\<rparr>)" using daemon_inv_graph[OF inv] assms(2) by (simp add: roomy_def)
  then show ?thesis using ins by (cases r) (auto simp: total_def insert_adjacency_proc_def)
qed

lemma total_rpc: "Q (Inl (Err RpcFailed)) s \<Longrightarrow> (\<And>x. answer = Inr x \<Longrightarrow> Q (Inr x) s) \<Longrightarrow> total (rpc answer) s Q"
  by (cases answer) (auto simp: rpc_def intro: total_rules)

lemma total_maybe_identity:
  "roomy E ok (Suc k) s \<Longrightarrow>
   total (case d of Some d \<Rightarrow> insert_identity_proc E d | None \<Rightarrow> ret ()) s (\<lambda>r s'. roomy E ok k s')"
  by (cases d) (auto intro: total_insert_identity_proc total_ret roomy_Suc)

lemma total_gossip_insert_all:
  assumes laws: "daemon_laws E ok"
  shows "roomy E ok (k + 2 * length as) s \<Longrightarrow> total (gossip_insert_all E now peer as) s (\<lambda>r s'. roomy E ok k s')"
proof (induction as arbitrary: s)
  case Nil then show ?case by (auto intro: total_ret)
next
  case (Cons a as)
  let ?n = "k + 2 * length as"
  have r: "roomy E ok (Suc (Suc ?n)) s" using Cons.prems by simp
  show ?case unfolding gossip_insert_all.simps
  proof (rule total_bind[where P = "\<lambda>r s'. roomy E ok (Suc (Suc ?n)) s'"], rule total_rpc)
    fix x s1 assume r1: "roomy E ok (Suc (Suc ?n)) s1"
    show "total (bind_proc (case x of Some d \<Rightarrow> insert_identity_proc E d | None \<Rightarrow> ret ()) (\<lambda>_.
     bind_proc (rpc (rpc_identity peer (right a))) (\<lambda>right_id.
     bind_proc (case right_id of Some d \<Rightarrow> insert_identity_proc E d | None \<Rightarrow> ret ()) (\<lambda>_.
     bind_proc (insert_adjacency_proc E now a) (\<lambda>_. gossip_insert_all E now peer as))))) s1 (\<lambda>r s'. roomy E ok k s')"
    proof (rule total_bind[OF total_maybe_identity[OF r1]])
      fix u s2 assume r2: "roomy E ok (Suc ?n) s2"
      show "total (bind_proc (rpc (rpc_identity peer (right a))) (\<lambda>right_id.
         bind_proc (case right_id of Some d \<Rightarrow> insert_identity_proc E d | None \<Rightarrow> ret ()) (\<lambda>_.
         bind_proc (insert_adjacency_proc E now a) (\<lambda>_. gossip_insert_all E now peer as)))) s2 (\<lambda>r s'. roomy E ok k s')"
      proof (rule total_bind[where P = "\<lambda>r s'. roomy E ok (Suc ?n) s'"], rule total_rpc)
        fix y s3 assume r3: "roomy E ok (Suc ?n) s3"
        show "total (bind_proc (case y of Some d \<Rightarrow> insert_identity_proc E d | None \<Rightarrow> ret ()) (\<lambda>_.
           bind_proc (insert_adjacency_proc E now a) (\<lambda>_. gossip_insert_all E now peer as))) s3 (\<lambda>r s'. roomy E ok k s')"
          by (intro total_bind[OF total_maybe_identity[OF r3]] total_bind[OF total_insert_adjacency_proc[OF laws, where k = ?n]] Cons.IH)
            (auto elim: roomy_mono)
      qed (use r2 in \<open>auto elim: roomy_mono\<close>)
    qed (auto elim: roomy_mono)
  qed (use r in \<open>auto elim: roomy_mono\<close>)
qed

lemma total_fetch_identity:
  assumes "roomy E ok (Suc k) s"
  shows "total (fetch_identity E peer remote) s (\<lambda>r s'. roomy E ok k s')"
  unfolding fetch_identity_def
proof (rule total_bind[where P = "\<lambda>r s'. roomy E ok (Suc k) s'"], rule total_rpc)
  fix x s1 assume "roomy E ok (Suc k) s1"
  then show "total (case x of None \<Rightarrow> raise RefusedIdentity | Some d \<Rightarrow> insert_identity_proc E d) s1 (\<lambda>r s'. roomy E ok k s')"
    by (cases x) (auto intro: total_raise total_insert_identity_proc roomy_Suc)
qed (use assms in \<open>auto intro: roomy_Suc\<close>)

lemma total_gossip_sign:
  assumes laws: "daemon_laws E ok" and r: "roomy E ok k s"
  shows "total (gossip_sign_adjacency E now peer remote) s (\<lambda>r s'. roomy E ok k s')"
proof (cases "my_fp E s < fingerprint_of E remote")
  case True
  have "total (bind_proc (rpc (rpc_sign_adjacency peer (adjacency_offer E now (fingerprint_of E remote) s))) (\<lambda>answer.
     case answer of None \<Rightarrow> raise RefusedToSign | Some complete \<Rightarrow> insert_adjacency_proc E now complete)) s
     (\<lambda>r s'. roomy E ok k s')"
  proof (rule total_bind[where P = "\<lambda>r s'. roomy E ok k s'"], rule total_rpc)
    fix x s2 assume "roomy E ok k s2"
    then show "total (case x of None \<Rightarrow> raise RefusedToSign | Some c \<Rightarrow> insert_adjacency_proc E now c) s2 (\<lambda>r s'. roomy E ok k s')"
      by (cases x) (auto intro: total_raise total_insert_adjacency_proc[OF laws])
  qed (use r in auto)
  then show ?thesis using True by (simp add: total_def gossip_sign_adjacency_def)
next
  case False then show ?thesis using r by (simp add: total_def gossip_sign_adjacency_def)
qed

lemma total_gossip_graph:
  assumes laws: "daemon_laws E ok" and r: "roomy E ok (k + 2 * n) s"
    and few: "\<And>fps adjs. rpc_adjacencies peer fps = Inr adjs \<Longrightarrow> length adjs \<le> n"
  shows "total (gossip_graph E now sample peer) s (\<lambda>r s'. roomy E ok k s')"
  unfolding gossip_graph_def
proof (rule total_bind[OF total_gets[where Q = "\<lambda>r s'. roomy E ok (k + 2 * n) s'", OF r]])
  fix fps s3 assume r3: "roomy E ok (k + 2 * n) s3"
  show "total (bind_proc (rpc (rpc_adjacencies peer fps)) (gossip_insert_all E now peer)) s3 (\<lambda>r s'. roomy E ok k s')"
  proof (rule total_bind[where P = "\<lambda>r s'. roomy E ok (k + 2 * n) s' \<and> (\<forall>x. r = Inr x \<longrightarrow> length x \<le> n)"], rule total_rpc)
    fix x :: "adjacency_descriptor list" and s4
    assume "roomy E ok (k + 2 * n) s4 \<and> (\<forall>y. Inr x = Inr y \<longrightarrow> length y \<le> n)"
    then have "roomy E ok (k + 2 * n) s4" "length x \<le> n" by auto
    then have "roomy E ok (k + 2 * length x) s4" by (auto intro: roomy_mono)
    then show "total (gossip_insert_all E now peer x) s4 (\<lambda>r s'. roomy E ok k s')"
      by (rule total_gossip_insert_all[OF laws])
  qed (use r3 few in \<open>auto elim: roomy_mono\<close>)
qed (auto elim: roomy_mono)

lemma total_gossip_once:
  assumes laws: "daemon_laws E ok" and r: "roomy E ok (Suc (k + 2 * n)) s"
    and few: "\<And>fps adjs. rpc_adjacencies peer fps = Inr adjs \<Longrightarrow> length adjs \<le> n"
  shows "total (gossip_once E now sample peer remote) s (\<lambda>r s'. roomy E ok k s')"
  using r unfolding gossip_once_def
  by (intro total_bind[OF total_fetch_identity[where k = "k + 2 * n"]] total_bind[OF total_gossip_sign[OF laws, where k = "k + 2 * n"]]
      total_gossip_graph[OF laws _ few]) (auto elim: roomy_mono)

lemma total_gossip_turn:
  assumes r: "roomy E ok (Suc k) s"
  shows "total (gossip_turn E now am_i_relay order pick) s (\<lambda>r s'. roomy E ok k s')"
  unfolding gossip_turn_def gossip_self_def
proof (rule total_bind[where P = "\<lambda>r s'. roomy E ok k s'"])
  show "total (\<lambda>s. insert_identity_proc E (identity_descriptor_new E now (global_identity s) (global_onion_sk s) am_i_relay) s)
      s (\<lambda>r s'. roomy E ok k s')"
    using total_insert_identity_proc[OF r, of "identity_descriptor_new E now (global_identity s) (global_onion_sk s) am_i_relay"]
    by (simp add: total_def)
qed (auto simp: total_def gets_def ret_def bind_proc_def)

section \<open>An adjacency signed by two honest neighbours\<close>

lemma offer_completed:
  fixes now :: u64
  assumes sig: "ed25519_laws E" and lt: "my_fp E sl < my_fp E sr"
  defines "a \<equiv> (adjacency_offer E now (my_fp E sr) sl)\<lparr>right_sig := sign E (global_identity sr)
                  (adjacency_to_sign E (adjacency_offer E now (my_fp E sr) sl))\<rparr>"
  assumes l: "identity g (my_fp E sl) = Some dl" "identity_pk dl = identity_public_of E (global_identity sl)"
    and r: "identity g (my_fp E sr) = Some dr" "identity_pk dr = identity_public_of E (global_identity sr)"
  shows "verify_adjacency E g a = Inr ()" "left a = my_fp E sl" "right a = my_fp E sr" "adj_timestamp a = now"
proof -
  show f: "left a = my_fp E sl" "right a = my_fp E sr" "adj_timestamp a = now"
    by (simp_all add: a_def adjacency_offer_def Let_def)
  have "adjacency_to_sign E a = adjacency_to_sign E (adjacency_offer E now (my_fp E sr) sl)"
    unfolding a_def by (rule adj_right.digest_set_sig)
  moreover have "adjacency_to_sign E (adjacency_offer E now (my_fp E sr) sl) = adjacency_to_sign E
      \<lparr>left = my_fp E sl, right = my_fp E sr, left_sig = [], right_sig = [], adj_timestamp = now\<rparr>"
    unfolding adjacency_offer_def Let_def by (rule adj_left.digest_set_sig)
  ultimately show "verify_adjacency E g a = Inr ()"
    using f lt l r sig
    by (simp add: verify_adjacency_def Let_def) (simp add: a_def adjacency_offer_def Let_def)
qed

lemma insert_adjacency_stores:
  assumes g: "graph_inv E g" and iter: "iter_laws E" and ok: "verify_adjacency E g a = Inr ()"
    and fresh: "\<not> outdated now (adj_timestamp a)"
    and l: "identity g (left a) = Some dl" "\<not> outdated now (id_timestamp dl)"
    and r: "identity g (right a) = Some dr" "\<not> outdated now (id_timestamp dr)"
  shows "fst (insert_adjacency E now g a) = Inr ()" and "a \<in> ran (documents (snd (insert_adjacency E now g a)))"
proof -
  have i: "ids_ok E g" "links_ok g" "docs_ok E g" using g by (auto simp: graph_inv_def)
  obtain x y where xy: "id_to_fp g x = Some (left a)" "id_to_fp g y = Some (right a)"
    and eq: "insert_adjacency E now g a = (Inr (), cleanup E now (g\<lparr>documents := (documents g)((x, y) \<mapsto> a),
       adjacency := add_neighbor y x (add_neighbor x y (adjacency g))\<rparr>))"
    using insert_adjacency_Ok[OF i(1) ok] by metis
  have "id_to_descriptor g x = Some dl" "id_to_descriptor g y = Some dr"
    using identity_Some[OF i(1) l(1)] identity_Some[OF i(1) r(1)] fp_to_id_inject[OF i(1)] xy by metis+
  then have "documents (snd (insert_adjacency E now g a)) (x, y) = Some a"
    unfolding eq snd_conv cleanup_effect(6)[OF insert_document_ok(1,2)[OF i xy ok] iter]
    using fresh l r by (simp add: restrict_map_def stale_doc_def stale_id_def)
  then show "a \<in> ran (documents (snd (insert_adjacency E now g a)))" by (rule ranI)
  show "fst (insert_adjacency E now g a) = Inr ()" by (simp add: eq)
qed

section \<open>Properties\<close>

text \<open>
  Gossip is safe against any neighbour.  Whatever the peer answers to the RPCs (wrong, forged,
  contradictory or no descriptors at all), a turn of the gossip loop and a round of gossip return
  without panic and leave the daemon consistent; in particular nothing enters the graph that is
  not properly signed.
\<close>

theorem gossip_once_safe:
  assumes laws: "daemon_laws E ok" and inv: "daemon_inv E ok s"
    and few: "\<And>fps adjs. rpc_adjacencies peer fps = Inr adjs \<Longrightarrow> length adjs \<le> n"
    and room: "unat (unalloc_id (graph s)) + 2 * n + 1 < 2 ^ 64"
  shows "(\<exists>r s'. gossip_turn E now am_i_relay order pick s = Some (r, s') \<and> r \<noteq> Inl Panic \<and> daemon_inv E ok s') \<and>
         (\<exists>r s'. gossip_once E now sample peer remote s = Some (r, s') \<and> r \<noteq> Inl Panic \<and> daemon_inv E ok s')"
proof -
  have r: "roomy E ok (Suc (0 + 2 * n)) s" using inv room by (simp add: roomy_def)
  then have "roomy E ok (Suc 0) s" by (rule roomy_mono) simp
  then have "total (gossip_turn E now am_i_relay order pick) s (\<lambda>r s'. daemon_inv E ok s')"
    by (rule total_conseq[OF total_gossip_turn]) (rule roomy_inv)
  moreover have "total (gossip_once E now sample peer remote) s (\<lambda>r s'. daemon_inv E ok s')"
    by (rule total_conseq[OF total_gossip_once[OF laws r few]]) (auto dest: roomy_inv)
  ultimately show ?thesis by (simp add: total_def)
qed

definition demo_peer :: link_peer where
  "demo_peer = \<lparr>rpc_identity = (\<lambda>fp. Inr (Some (demo_descr 9))), rpc_sign_adjacency = (\<lambda>a. Inr (Some a)),
     rpc_adjacencies = (\<lambda>fps. Inr [demo_adj 1 2, demo_adj 2 1])\<rparr>"

lemma demo_graph_room: "unalloc_id demo_graph = 2"
proof -
  have g: "demo_graph = snd (insert_adjacency demo_topo 1000 demo_graph2 (demo_adj 1 2))"
    using demo_two_identities by (simp add: demo_graph_def demo_ops_def)
  show ?thesis unfolding g insert_adjacency_unalloc[OF demo_graph2_inv demo_topo_iter] by (simp add: demo_graph2_def)
qed

theorem gossip_once_safe_witness:
  "\<exists>r s'. gossip_once demo_denv 1000 (take 10) demo_peer (identity_public_of demo_denv (demo_isk 2)) demo_daemon
     = Some (r, s') \<and> r \<noteq> Inl Panic \<and> daemon_inv demo_denv demo_lru_ok s'"
  using gossip_once_safe[OF demo_daemon_laws demo_daemon_inv, of demo_peer 2]
  by (auto simp: demo_peer_def demo_graph_room)

text \<open>
  (C24) Two honest neighbours agree on their adjacency.  When each knows both current identity
  descriptors and the right one has the left one in its neighbour table, the offer of the left
  node is signed by the handler of the right node, and afterwards both graphs hold the same
  document naming the two, signed by both.
\<close>

theorem adjacency_handshake:
  assumes laws: "daemon_laws E ok" "ed25519_laws E"
    and inv: "daemon_inv E ok sl" "daemon_inv E ok sr"
    and lt: "my_fp E sl < my_fp E sr"
    and neighbour: "neigh_lookup (neigh sr) (my_fp E sl) \<noteq> None"
    and known: "\<forall>g \<in> {graph sl, graph sr}. identity g (my_fp E sl) = Some dl \<and> identity g (my_fp E sr) = Some dr"
    and keys: "identity_pk dl = identity_public_of E (global_identity sl)"
      "identity_pk dr = identity_public_of E (global_identity sr)"
    and fresh: "\<forall>t \<in> {nowl, nowr}. \<not> outdated t nowl \<and> \<not> outdated t (id_timestamp dl) \<and> \<not> outdated t (id_timestamp dr)"
  shows "\<exists>a sr' sl'. handle_sign_adjacency E nowr (adjacency_offer E nowl (my_fp E sr) sl) sr = (Some a, sr') \<and>
           gossip_sign_adjacency E nowl \<lparr>rpc_identity = i, rpc_sign_adjacency = (\<lambda>_. Inr (Some a)), rpc_adjacencies = j\<rparr>
             (identity_public_of E (global_identity sr)) sl = Some (Inr (), sl') \<and>
           left a = my_fp E sl \<and> right a = my_fp E sr \<and>
           a \<in> ran (documents (graph sr')) \<and> a \<in> ran (documents (graph sl')) \<and>
           graph_inv E (graph sr') \<and> graph_inv E (graph sl')"
proof -
  let ?offer = "adjacency_offer E nowl (my_fp E sr) sl"
  define a where "a = ?offer\<lparr>right_sig := sign E (global_identity sr) (adjacency_to_sign E ?offer)\<rparr>"
  have gi: "graph_inv E (graph sl)" "graph_inv E (graph sr)" using inv by (auto simp: daemon_inv_def)
  note iter = daemon_lawsD(2)[OF laws(1)]
  have af: "verify_adjacency E g a = Inr ()" "left a = my_fp E sl" "right a = my_fp E sr" "adj_timestamp a = nowl"
    if "g \<in> {graph sl, graph sr}" for g
    using offer_completed[OF laws(2) lt, of g dl dr nowl] known keys that unfolding a_def by blast+
  have st: "fst (insert_adjacency E t g a) = Inr ()" "a \<in> ran (documents (snd (insert_adjacency E t g a)))"
    if "g \<in> {graph sl, graph sr}" "t \<in> {nowl, nowr}" for g t
    using insert_adjacency_stores[OF _ iter af(1)[OF that(1)], of t dl dr] gi that known fresh af[of "graph sl"] by auto
  have offer: "left ?offer = my_fp E sl" "right ?offer = my_fp E sr"
    by (simp_all add: adjacency_offer_def Let_def)
  have R: "handle_sign_adjacency E nowr ?offer sr = (Some a, sr\<lparr>graph := snd (insert_adjacency E nowr (graph sr) a)\<rparr>)"
    using st(1)[of "graph sr" nowr] lt neighbour offer
    by (simp add: handle_sign_adjacency_def Let_def a_def split_beta)
  have L: "gossip_sign_adjacency E nowl \<lparr>rpc_identity = i, rpc_sign_adjacency = (\<lambda>_. Inr (Some a)), rpc_adjacencies = j\<rparr>
             (identity_public_of E (global_identity sr)) sl
       = Some (Inr (), sl\<lparr>graph := snd (insert_adjacency E nowl (graph sl) a)\<rparr>)"
    using st(1)[of "graph sl" nowl] lt
    by (simp add: gossip_sign_adjacency_def rpc_def insert_adjacency_proc_def split_beta Let_def)
  show ?thesis
    using R L af(2,3)[of "graph sl"] st(2)[of "graph sr" nowr] st(2)[of "graph sl" nowl]
      insert_adjacency_inv[OF gi(1) iter] insert_adjacency_inv[OF gi(2) iter]
    by (intro exI[of _ a] exI[of _ "sr\<lparr>graph := snd (insert_adjacency E nowr (graph sr) a)\<rparr>"]
        exI[of _ "sl\<lparr>graph := snd (insert_adjacency E nowl (graph sl) a)\<rparr>"]) simp
qed

lemma demo_ed25519: "ed25519_laws demo_denv"
  using demo_topo_ed25519 by (simp add: ed25519_laws_def demo_denv_defs)

theorem adjacency_handshake_witness:
  "\<exists>a sr'. handle_sign_adjacency demo_denv 1000 (adjacency_offer demo_denv 1000 (demo_fp 2) demo_daemon)
       (demo_daemon\<lparr>global_identity := demo_isk 2, neigh := neigh_insert 0 (demo_fp 1) 7 300 neigh_table_new\<rparr>) = (Some a, sr')
     \<and> a \<in> ran (documents (graph sr'))"
proof -
  let ?sr = "demo_daemon\<lparr>global_identity := demo_isk 2, neigh := neigh_insert 0 (demo_fp 1) 7 300 neigh_table_new\<rparr>"
  have inv: "daemon_inv demo_denv demo_lru_ok ?sr"
    using demo_daemon_inv by (simp add: daemon_inv_def neigh_insert_def neigh_insert_inner_def)
  have me: "my_fp demo_denv demo_daemon = demo_fp 1" "my_fp demo_denv ?sr = demo_fp 2"
    by (simp_all add: demo_denv_same demo_fp_def)
  have nb: "neigh_lookup (neigh ?sr) (my_fp demo_denv demo_daemon) \<noteq> None"
    unfolding me by (simp add: neigh_lookup_def neigh_insert_def neigh_insert_inner_def)
  have out: "\<not> outdated 1000 1000" by (simp add: outdated_def ROUTE_TIMEOUT_def)
  have keys: "identity_pk (demo_descr 1) = identity_public_of demo_denv (global_identity demo_daemon)"
    "identity_pk (demo_descr 2) = identity_public_of demo_denv (global_identity ?sr)"
    by (simp_all add: demo_denv_same)
  show ?thesis
    using adjacency_handshake[OF demo_daemon_laws demo_ed25519 demo_daemon_inv inv _ nb _ keys,
        where nowl = 1000 and nowr = 1000 and i = "\<lambda>_. Inl ()" and j = "\<lambda>_. Inl ()"]
      demo_graph_identities demo_fps out unfolding me by auto
qed

text \<open>
  Packets on the wire.  The receiver of a link accepts exactly the 8882-byte packets, and reads from them
  exactly the packet whose bytes were sent.
\<close>

theorem packet_wire_roundtrip:
  "packet_of_bytes b = Some p \<longleftrightarrow> wf_packet p \<and> packet_bytes p = b"
proof
  assume a: "packet_of_bytes b = Some p"
  then have len: "length b = 8882" and p: "p = \<lparr>header = \<lparr>outer = take 69 b, inner = take 621 (drop 69 b)\<rparr>, onion_body = drop 690 b\<rparr>"
    by (auto simp: packet_of_bytes_def split: if_splits)
  have "take 69 b @ take 621 (drop 69 b) = take 690 b" by (simp flip: take_add)
  then show "wf_packet p \<and> packet_bytes p = b"
    using len by (simp add: p wf_packet_def wf_header_def packet_bytes_def header_bytes_def flip: append_assoc)
next
  assume "wf_packet p \<and> packet_bytes p = b"
  then show "packet_of_bytes b = Some p"
    by (cases p; cases "header p") (auto simp: packet_of_bytes_def packet_bytes_def header_bytes_def wf_packet_def wf_header_def)
qed

text \<open>
  What a node tells its neighbours.  The \<open>adjacencies\<close> handler never panics on a consistent daemon
  and answers with exactly the stored adjacencies of the asked nodes between two relays: the links
  of clients are never given away.
\<close>

theorem handle_adjacencies_relays_only:
  assumes laws: "daemon_laws E ok" and inv: "daemon_inv E ok s"
  shows "\<exists>as. handle_adjacencies E fps s = Inr as \<and>
           set as = {a \<in> ran (documents (graph s)). both_relays (graph s) a \<and> (left a \<in> set fps \<or> right a \<in> set fps)}"
proof -
  have g: "graph_inv E (graph s)" using inv by (simp add: daemon_inv_def)
  note spec = adjacencies_spec[OF g daemon_lawsD(2)[OF laws]]
  let ?one = "\<lambda>fp. case adjacencies E (graph s) fp of None \<Rightarrow> Inr []
                | Some r \<Rightarrow> bind_res r (\<lambda>adjs. Inr (filter (both_relays (graph s)) adjs))"
  have "\<exists>ds. ?one fp = Inr ds \<and> set ds = {a \<in> ran (documents (graph s)). both_relays (graph s) a \<and> (left a = fp \<or> right a = fp)}"
    for fp using spec[of fp] by (cases "adjacencies E (graph s) fp") auto
  then obtain ds where ds: "\<And>fp. ?one fp = Inr (ds fp)"
    "\<And>fp. set (ds fp) = {a \<in> ran (documents (graph s)). both_relays (graph s) a \<and> (left a = fp \<or> right a = fp)}"
    by metis
  have "collect_res ?one fps = Inr (map ds fps)" using ds(1) by (intro collect_res_ok)
  then have "handle_adjacencies E fps s = Inr (remdups_adj (concat (map ds fps)))" by (simp add: handle_adjacencies_def)
  moreover have "set (remdups_adj (concat (map ds fps))) =
      {a \<in> ran (documents (graph s)). both_relays (graph s) a \<and> (left a \<in> set fps \<or> right a \<in> set fps)}"
    using ds(2) by auto
  ultimately show ?thesis by blast
qed

theorem handle_adjacencies_relays_only_witness:
  "\<exists>as. handle_adjacencies demo_denv [demo_fp 1] demo_daemon = Inr as \<and> set as = {demo_adj 1 2}"
proof -
  have "both_relays demo_graph (demo_adj 1 2)"
    using demo_graph_identities
    by (simp add: both_relays_def demo_adj_def Let_def) (simp add: demo_descr_def identity_descriptor_new_def Let_def)
  moreover have "left (demo_adj 1 2) = demo_fp 1" by (simp add: demo_adj_def Let_def)
  ultimately show ?thesis
    using handle_adjacencies_relays_only[OF demo_daemon_laws demo_daemon_inv, of "[demo_fp 1]"]
    by (auto simp: demo_graph_facts(2))
qed

text \<open>
  (C25) Links are authenticated.  A connection is made exactly when the peer's response is a signature,
  by the identity key it presents, of the mux key the connection actually runs over; the
  connection then carries that identity and that key.  The response of an honest peer passes.
\<close>

theorem link_connect_authenticates:
  assumes "ed25519_laws E"
  shows "(link_connect E resp peer_pk = Inr l \<longleftrightarrow>
            (\<exists>r pk. resp = Some r \<and> peer_pk = Some pk \<and> verify E (full_pk r) (auth_to_sign E pk) (binding_sig r) = Inr () \<and>
               l = \<lparr>mux_peer_pk = pk, remote_idpk = full_pk r, send_outgoing = [], recv_incoming = []\<rparr>)) \<and>
         link_connect E (Some (handle_authenticate E pk s)) (Some pk) =
           Inr \<lparr>mux_peer_pk = pk, remote_idpk = identity_public_of E (global_identity s), send_outgoing = [], recv_incoming = []\<rparr>"
  using assms
  by (auto simp: link_connect_def auth_response_verify_def handle_authenticate_def auth_response_new_def
      split: option.splits sum.splits)

theorem link_connect_authenticates_witness:
  "link_connect demo_denv (Some (handle_authenticate demo_denv [1, 2] demo_daemon)) (Some [1, 2]) =
     Inr \<lparr>mux_peer_pk = [1, 2], remote_idpk = identity_public_of demo_denv (demo_isk 1), send_outgoing = [], recv_incoming = []\<rparr>"
  using link_connect_authenticates[OF demo_ed25519] by simp

end
