(* ===== verification/Dht.thy ===== *)
theory Dht
  imports Topology
begin

text \<open>
  \<open>src/daemon/dht.rs\<close>, \<open>src/global_rpc/server.rs\<close> and the signed documents of \<open>src/haven_util.rs\<close>: haven
  locators and registrations, the choice of the replicas of a key, publishing and looking up a
  locator, and the server side of the global RPC.  The stdcode serialisation is a parameter.
  What a replica answers to a lookup is an argument; the network of honest servers is a
  map from fingerprints to their states, undefined where a node cannot be reached.  The moka
  caches are maps; \<open>expire_dht\<close> models the expiry of entries between two operations.
\<close>

section \<open>Signed documents\<close>

record haven_locator =
  loc_identity_pk :: identity_public
  loc_onion_pk :: onion_public
  rendezvous_point :: fingerprint
  loc_signature :: bytes

record register_haven_req =
  reg_identity_pk :: identity_public
  reg_sig :: bytes
  reg_timestamp :: u64

record dht_env = topo_env +
  stdcode_locator :: "haven_locator \<Rightarrow> bytes"
  stdcode_register :: "register_haven_req \<Rightarrow> bytes"
  stdcode_dht_key :: "string \<Rightarrow> fingerprint \<Rightarrow> bytes"

definition locator_to_sign :: "'z dht_env_scheme \<Rightarrow> haven_locator \<Rightarrow> bytes" where
  "locator_to_sign E l =
     blake3_keyed_hash E (bytes_of_string ''haven_locator___________________'') (stdcode_locator E (l\<lparr>loc_signature := []\<rparr>))"

definition locator_new ::
    "'z dht_env_scheme \<Rightarrow> identity_secret \<Rightarrow> onion_public \<Rightarrow> fingerprint \<Rightarrow> haven_locator" where
  "locator_new E identity_sk opk rendezvous_fingerprint =
     (let locator = \<lparr>loc_identity_pk = identity_public_of E identity_sk, loc_onion_pk = opk,
                     rendezvous_point = rendezvous_fingerprint, loc_signature = []\<rparr>
      in locator\<lparr>loc_signature := sign E identity_sk (locator_to_sign E locator)\<rparr>)"

definition register_to_sign :: "'z dht_env_scheme \<Rightarrow> register_haven_req \<Rightarrow> bytes" where
  "register_to_sign E r =
     blake3_keyed_hash E (bytes_of_string ''haven_registration______________'') (stdcode_register E (r\<lparr>reg_sig := []\<rparr>))"

definition register_haven_req_new :: "'z dht_env_scheme \<Rightarrow> u64 \<Rightarrow> identity_secret \<Rightarrow> register_haven_req" where
  "register_haven_req_new E now identity_sk =
     (let reg = \<lparr>reg_identity_pk = identity_public_of E identity_sk, reg_sig = [], reg_timestamp = now\<rparr>
      in reg\<lparr>reg_sig := sign E identity_sk (register_to_sign E reg)\<rparr>)"

interpretation locator_doc: signed_document
    "\<lambda>E. locator_to_sign (E :: 'z dht_env_scheme)" "\<lambda>s l. l\<lparr>loc_signature := s\<rparr>" loc_signature
  by unfold_locales (simp_all add: locator_to_sign_def)

interpretation register_doc: signed_document
    "\<lambda>E. register_to_sign (E :: 'z dht_env_scheme)" "\<lambda>s r. r\<lparr>reg_sig := s\<rparr>" reg_sig
  by unfold_locales (simp_all add: register_to_sign_def)

section \<open>Replicas\<close>

definition DHT_REDUNDANCY :: nat where
  "DHT_REDUNDANCY = 3"

definition dht_key_to_fps :: "'z dht_env_scheme \<Rightarrow> relay_graph \<Rightarrow> string \<Rightarrow> fingerprint list" where
  "dht_key_to_fps E g key =
     sort_key (\<lambda>fp. blake3_hash E (stdcode_dht_key E key fp))
       (filter (\<lambda>fp. case identity g fp of None \<Rightarrow> False | Some d \<Rightarrow> is_relay d) (all_nodes E g))"

definition dht_replicas :: "'z dht_env_scheme \<Rightarrow> relay_graph \<Rightarrow> fingerprint \<Rightarrow> fingerprint list" where
  "dht_replicas E g fp = take DHT_REDUNDANCY (dht_key_to_fps E g (fingerprint_to_string E fp))"

section \<open>Lookup\<close>

datatype dht_error = VerifyFailed | NetworkFailure string

type_synonym dht_answer = "string + (dht_error + haven_locator option)"

text \<open>The loop over the answers, in the order in which they come in.\<close>

fun dht_gather ::
    "'z dht_env_scheme \<Rightarrow> fingerprint \<Rightarrow> (dht_error + haven_locator option) \<Rightarrow> dht_answer list
       \<Rightarrow> (fingerprint \<rightharpoonup> haven_locator) \<Rightarrow> (dht_error + haven_locator option) \<times> (fingerprint \<rightharpoonup> haven_locator)" where
  "dht_gather E fp retval [] cache = (retval, cache)"
| "dht_gather E fp retval (result # results) cache =
     (case result of
        Inl err \<Rightarrow> dht_gather E fp (Inl (NetworkFailure err)) results cache
      | Inr (Inl err) \<Rightarrow> dht_gather E fp (Inl err) results cache
      | Inr (Inr None) \<Rightarrow> dht_gather E fp retval results cache
      | Inr (Inr (Some locator)) \<Rightarrow>
          if fingerprint_of E (loc_identity_pk locator) = fp then
            (case verify E (loc_identity_pk locator) (locator_to_sign E locator) (loc_signature locator) of
               Inl _ \<Rightarrow> (Inl VerifyFailed, cache)
             | Inr _ \<Rightarrow> (Inr (Some locator), cache(fp \<mapsto> locator)))
          else dht_gather E fp (Inl VerifyFailed) results cache)"

text \<open>\<open>arrival\<close> is the order in which the calls to the replicas end, \<open>ask\<close> what they return.\<close>

definition dht_get ::
    "'z dht_env_scheme \<Rightarrow> relay_graph \<Rightarrow> (fingerprint list \<Rightarrow> fingerprint list) \<Rightarrow> (fingerprint \<Rightarrow> dht_answer) \<Rightarrow> fingerprint
       \<Rightarrow> (fingerprint \<rightharpoonup> haven_locator) \<Rightarrow> (dht_error + haven_locator option) \<times> (fingerprint \<rightharpoonup> haven_locator)" where
  "dht_get E g arrival ask fp cache =
     (case cache fp of
        Some locator \<Rightarrow> (Inr (Some locator), cache)
      | None \<Rightarrow> dht_gather E fp (Inr None) (map ask (arrival (dht_replicas E g fp))) cache)"

section \<open>The server\<close>

record rpc_server =
  local_dht_shard :: "fingerprint \<rightharpoonup> haven_locator"
  registered_havens :: "fingerprint set"
  dht_cache :: "fingerprint \<rightharpoonup> haven_locator"

definition expire_dht :: "fingerprint set \<Rightarrow> fingerprint set \<Rightarrow> fingerprint set \<Rightarrow> rpc_server \<Rightarrow> rpc_server" where
  "expire_dht A B C st = \<lparr>local_dht_shard = local_dht_shard st |` (- A), registered_havens = registered_havens st - B,
     dht_cache = dht_cache st |` (- C)\<rparr>"

definition handle_ping :: "u64 \<Rightarrow> u64" where
  "handle_ping i = i"

definition shard_insert :: "'z dht_env_scheme \<Rightarrow> haven_locator \<Rightarrow> rpc_server \<Rightarrow> (dht_error + unit) \<times> rpc_server" where
  "shard_insert E locator st =
     (case verify E (loc_identity_pk locator) (locator_to_sign E locator) (loc_signature locator) of
        Inl _ \<Rightarrow> (Inl VerifyFailed, st)
      | Inr _ \<Rightarrow> (Inr (), st\<lparr>local_dht_shard :=
          (local_dht_shard st)(fingerprint_of E (loc_identity_pk locator) \<mapsto> locator)\<rparr>))"

type_synonym network = "fingerprint \<rightharpoonup> rpc_server"

text \<open>\<open>dht_insert\<close>: a failure at one replica is logged and changes nothing.\<close>

definition dht_insert :: "'z dht_env_scheme \<Rightarrow> relay_graph \<Rightarrow> haven_locator \<Rightarrow> network \<Rightarrow> network" where
  "dht_insert E g locator net =
     fold (\<lambda>replica net. case net replica of
             None \<Rightarrow> net
           | Some st \<Rightarrow> net(replica \<mapsto> snd (shard_insert E locator st)))
       (dht_replicas E g (fingerprint_of E (loc_identity_pk locator))) net"

definition handle_dht_insert ::
    "'z dht_env_scheme \<Rightarrow> relay_graph \<Rightarrow> haven_locator \<Rightarrow> bool \<Rightarrow> rpc_server \<times> network \<Rightarrow> (dht_error + unit) \<times> rpc_server \<times> network" where
  "handle_dht_insert E g locator recurse sn =
     (if recurse then (Inr (), fst sn, dht_insert E g locator (snd sn))
      else let (r, st) = shard_insert E locator (fst sn) in (r, st, snd sn))"

definition handle_dht_get ::
    "'z dht_env_scheme \<Rightarrow> relay_graph \<Rightarrow> (fingerprint list \<Rightarrow> fingerprint list) \<Rightarrow> (fingerprint \<Rightarrow> dht_answer) \<Rightarrow> fingerprint \<Rightarrow> bool
       \<Rightarrow> rpc_server \<Rightarrow> (dht_error + haven_locator option) \<times> rpc_server" where
  "handle_dht_get E g arrival ask key recurse st =
     (case local_dht_shard st key of
        Some val \<Rightarrow> (Inr (Some val), st)
      | None \<Rightarrow>
          if recurse then
            let (r, cache) = dht_get E g arrival ask key (dht_cache st) in (r, st\<lparr>dht_cache := cache\<rparr>)
          else (Inr None, st))"

definition handle_alloc_forward ::
    "'z dht_env_scheme \<Rightarrow> register_haven_req \<Rightarrow> rpc_server \<Rightarrow> (verify_error + unit) \<times> rpc_server" where
  "handle_alloc_forward E registration st =
     (case verify E (reg_identity_pk registration) (register_to_sign E registration) (reg_sig registration) of
        Inl e \<Rightarrow> (Inl e, st)
      | Inr _ \<Rightarrow> (Inr (), st\<lparr>registered_havens :=
          insert (fingerprint_of E (reg_identity_pk registration)) (registered_havens st)\<rparr>))"

text \<open>What the honest servers of a network answer to a call without recursion.\<close>

definition ask_network ::
    "'z dht_env_scheme \<Rightarrow> relay_graph \<Rightarrow> network \<Rightarrow> fingerprint \<Rightarrow> fingerprint \<Rightarrow> dht_answer" where
  "ask_network E g net key replica =
     (case net replica of
        None \<Rightarrow> Inl ''unreachable''
      | Some st \<Rightarrow> Inr (fst (handle_dht_get E g id (\<lambda>_. Inl '''') key False st)))"
section \<open>Authentic locators\<close>

definition authentic :: "'z dht_env_scheme \<Rightarrow> fingerprint \<Rightarrow> haven_locator \<Rightarrow> bool" where
  "authentic E fp l \<longleftrightarrow> fingerprint_of E (loc_identity_pk l) = fp \<and>
     verify E (loc_identity_pk l) (locator_to_sign E l) (loc_signature l) = Inr ()"

definition authentic_map :: "'z dht_env_scheme \<Rightarrow> (fingerprint \<rightharpoonup> haven_locator) \<Rightarrow> bool" where
  "authentic_map E m \<longleftrightarrow> (\<forall>fp l. m fp = Some l \<longrightarrow> authentic E fp l)"

lemma authentic_map_upd: "authentic_map E m \<Longrightarrow> authentic E fp l \<Longrightarrow> authentic_map E (m(fp \<mapsto> l))"
  by (simp add: authentic_map_def)

lemma locator_new_authentic:
  "ed25519_laws E \<Longrightarrow> authentic E (my_fingerprint E isk) (locator_new E isk opk rdv)"
  by (simp add: authentic_def locator_new_def Let_def locator_to_sign_def)

lemma dht_gather_authentic:
  assumes "dht_gather E fp retval results cache = (r, cache')" "authentic_map E cache"
    and "\<And>l. retval \<noteq> Inr (Some l)"
  shows "authentic_map E cache' \<and> (\<forall>l. r = Inr (Some l) \<longrightarrow> authentic E fp l)"
  using assms
proof (induction E fp retval results cache arbitrary: r cache' rule: dht_gather.induct)
  case (2 E fp retval result results cache)
  show ?case
  proof (cases result)
    case (Inl e)
    then show ?thesis using 2 by simp
  next
    case ok: (Inr a)
    show ?thesis
    proof (cases a)
      case (Inl e) then show ?thesis using 2 ok by simp
    next
      case (Inr o')
      show ?thesis
      proof (cases o')
        case None then show ?thesis using 2 ok Inr by simp
      next
        case (Some l)
        show ?thesis
        proof (cases "fingerprint_of E (loc_identity_pk l) = fp")
          case True
          have "verify E (loc_identity_pk l) (locator_to_sign E l) (loc_signature l) = Inr () \<Longrightarrow> authentic E fp l"
            using True by (simp add: authentic_def)
          then show ?thesis using 2(5,6) ok Inr Some True
            by (cases "verify E (loc_identity_pk l) (locator_to_sign E l) (loc_signature l)") (auto simp: authentic_map_upd)
        next
          case False
          then show ?thesis using 2 ok Inr Some by simp
        qed
      qed
    qed
  qed
qed simp

lemma dht_get_authentic:
  assumes "dht_get E g arrival ask fp cache = (r, cache')" "authentic_map E cache"
  shows "authentic_map E cache'" "r = Inr (Some l) \<Longrightarrow> authentic E fp l"
  using assms dht_gather_authentic[of E fp "Inr None" "map ask (arrival (dht_replicas E g fp))" cache r cache']
  by (auto simp: dht_get_def authentic_map_def split: option.splits)

section \<open>Runs of the server\<close>

datatype server_op =
    OpInsert haven_locator
  | OpGet "fingerprint list \<Rightarrow> fingerprint list" "fingerprint \<Rightarrow> dht_answer" fingerprint bool
  | OpAlloc register_haven_req
  | OpExpire "fingerprint set" "fingerprint set" "fingerprint set"

fun server_step :: "'z dht_env_scheme \<Rightarrow> relay_graph \<Rightarrow> server_op \<Rightarrow> rpc_server \<Rightarrow> rpc_server" where
  "server_step E g (OpInsert l) st = snd (shard_insert E l st)"
| "server_step E g (OpGet arrival ask key recurse) st = snd (handle_dht_get E g arrival ask key recurse st)"
| "server_step E g (OpAlloc req) st = snd (handle_alloc_forward E req st)"
| "server_step E g (OpExpire A B C) st = expire_dht A B C st"

definition server_inv :: "'z dht_env_scheme \<Rightarrow> rpc_server \<Rightarrow> bool" where
  "server_inv E st \<longleftrightarrow> authentic_map E (local_dht_shard st) \<and> authentic_map E (dht_cache st)"

lemma shard_insert_inv: "server_inv E st \<Longrightarrow> server_inv E (snd (shard_insert E l st))"
  by (auto simp: server_inv_def shard_insert_def authentic_map_def authentic_def split: sum.splits)

lemma handle_dht_get_inv:
  assumes "server_inv E st" "handle_dht_get E g arrival ask key recurse st = (r, st')"
  shows "server_inv E st'" "r = Inr (Some l) \<Longrightarrow> authentic E key l"
  using assms dht_get_authentic[of E g arrival ask key "dht_cache st"]
  by (auto simp: handle_dht_get_def server_inv_def split: option.splits if_splits prod.splits)
    (auto simp: authentic_map_def)

interpretation server_machine: stable_machine "server_step E g" "server_inv E" for E :: "'z dht_env_scheme" and g
proof
  fix st o' assume a: "server_inv E st"
  show "server_inv E (server_step E g o' st)"
  proof (cases o')
    case (OpGet arrival ask key recurse)
    then show ?thesis using handle_dht_get_inv(1)[OF a] by (metis prod.collapse server_step.simps(2))
  next
    case (OpInsert l)
    then show ?thesis using shard_insert_inv[OF a] by simp
  qed (use a in
    \<open>auto simp: server_inv_def handle_alloc_forward_def expire_dht_def authentic_map_def restrict_map_def split: sum.splits if_splits\<close>)
qed

text \<open>A haven is registered only by a registration signed with its identity key.\<close>

lemma registered_by_request:
  "fp \<in> registered_havens (fold (server_step E g) ops st) \<Longrightarrow>
     fp \<in> registered_havens st \<or>
     (\<exists>req. OpAlloc req \<in> set ops \<and> fp = fingerprint_of E (reg_identity_pk req) \<and>
        verify E (reg_identity_pk req) (register_to_sign E req) (reg_sig req) = Inr ())"
proof (induction ops arbitrary: st)
  case (Cons o' ops)
  have "fp \<in> registered_havens (server_step E g o' st) \<Longrightarrow> fp \<in> registered_havens st \<or>
     (\<exists>req. o' = OpAlloc req \<and> fp = fingerprint_of E (reg_identity_pk req) \<and>
        verify E (reg_identity_pk req) (register_to_sign E req) (reg_sig req) = Inr ())"
    by (cases o') (auto simp: shard_insert_def handle_dht_get_def handle_alloc_forward_def expire_dht_def
        split: sum.splits option.splits if_splits prod.splits)
  then show ?case using Cons.IH[of "server_step E g o' st"] Cons.prems by auto
qed simp

section \<open>Replicas\<close>

abbreviation relays :: "relay_graph \<Rightarrow> fingerprint set" where
  "relays g \<equiv> {fp. \<exists>d. identity g fp = Some d \<and> is_relay d}"

lemma relays_known: "identity g fp = Some d \<Longrightarrow> fp \<in> dom (fp_to_id g)"
  by (auto simp: identity_def graph_id_def bind_eq_Some_conv)

lemma dht_key_to_fps_set:
  assumes "iter_laws E" "finite (dom (fp_to_id g))"
  shows "set (dht_key_to_fps E g key) = relays g" "distinct (dht_key_to_fps E g key)"
  using assms relays_known[of g]
  by (fastforce simp: dht_key_to_fps_def all_nodes_def iter_laws_def split: option.splits)+

lemma sort_key_unique:
  assumes "set xs = set ys" "distinct xs" "distinct ys" "inj_on f (set xs)"
  shows "sort_key f xs = sort_key f ys"
proof -
  have s: "map f (sort_key f zs) = sorted_list_of_set (f ` set zs)" if "distinct zs" "inj_on f (set zs)" for zs
    using that by (intro sorted_list_of_set_unique[THEN iffD1, symmetric]) (auto simp: distinct_map strict_sorted_iff card_image distinct_card)
  have "map f (sort_key f xs) = map f (sort_key f ys)" using s assms by simp
  then show ?thesis using assms by (intro map_inj_on[of f]) (simp_all add: Un_absorb)
qed

lemma dht_replicas_agree:
  assumes "iter_laws E" "iter_laws E'" "E' = E\<lparr>fps_iter := order\<rparr>"
    and "finite (dom (fp_to_id g))" "finite (dom (fp_to_id g'))" "relays g' = relays g"
    and inj: "inj_on (\<lambda>fp. blake3_hash E (stdcode_dht_key E (fingerprint_to_string E key) fp)) (relays g)"
  shows "dht_replicas E' g' key = dht_replicas E g key"
proof -
  let ?f = "\<lambda>fp. blake3_hash E (stdcode_dht_key E (fingerprint_to_string E key) fp)"
  let ?nodes = "\<lambda>E g. filter (\<lambda>fp. case identity g fp of None \<Rightarrow> False | Some d \<Rightarrow> is_relay d) (all_nodes E g)"
  have eq: "dht_key_to_fps E' g' (fingerprint_to_string E key) = sort_key ?f (?nodes E' g')"
    "dht_key_to_fps E g (fingerprint_to_string E key) = sort_key ?f (?nodes E g)"
    by (simp_all add: dht_key_to_fps_def assms(3))
  have "sort_key ?f (?nodes E' g') = sort_key ?f (?nodes E g)"
    using dht_key_to_fps_set[OF assms(1,4), of "fingerprint_to_string E key"]
      dht_key_to_fps_set[OF assms(2,5), of "fingerprint_to_string E key"] assms(6) inj
    unfolding eq by (intro sort_key_unique) simp_all
  moreover have "fingerprint_to_string E' key = fingerprint_to_string E key" by (simp add: fingerprint_to_string_def assms(3))
  ultimately show ?thesis by (simp add: dht_replicas_def eq)
qed

section \<open>Publishing and looking up\<close>

lemma shard_insert_idem: "shard_insert E l (snd (shard_insert E l st)) = shard_insert E l st"
  by (simp add: shard_insert_def split: sum.splits)

lemma dht_insert_effect:
  "dht_insert E g l net r =
     (if r \<in> set (dht_replicas E g (fingerprint_of E (loc_identity_pk l)))
      then map_option (\<lambda>st. snd (shard_insert E l st)) (net r) else net r)"
proof -
  have "fold (\<lambda>replica net. case net replica of None \<Rightarrow> net | Some st \<Rightarrow> net(replica \<mapsto> snd (shard_insert E l st))) rs net r =
     (if r \<in> set rs then map_option (\<lambda>st. snd (shard_insert E l st)) (net r) else net r)" for rs
  proof (induction rs arbitrary: net)
    case (Cons x rs)
    then show ?case by (cases "net x") (auto simp: option.map_comp o_def shard_insert_idem intro: option.map_cong0)
  qed simp
  then show ?thesis by (simp add: dht_insert_def)
qed

lemma dht_gather_found:
  assumes "authentic E fp l" "Inr (Inr (Some l)) \<in> set results"
    and "\<And>a. a \<in> set results \<Longrightarrow> a = Inr (Inr (Some l)) \<or> (\<exists>e. a = Inl e)"
  shows "dht_gather E fp retval results cache = (Inr (Some l), cache(fp \<mapsto> l))"
  using assms(2,3)
proof (induction results arbitrary: retval)
  case (Cons a results)
  show ?case
  proof (cases "a = Inr (Inr (Some l))")
    case True then show ?thesis using assms(1) by (simp add: authentic_def fun_upd_def)
  next
    case False then show ?thesis using Cons by force
  qed
qed simp

section \<open>Properties\<close>

text \<open>
  (C13) Nothing forged is ever served.  Whatever requests a server handles, in whatever order and from
  whomever, and whatever the replicas it asks itself answer, every locator it returns for a
  fingerprint belongs to that fingerprint and is signed with its identity key; and a haven is
  registered only by a request signed with its identity key.
\<close>

theorem server_serves_authentic:
  assumes start: "st0 = \<lparr>local_dht_shard = Map.empty, registered_havens = {}, dht_cache = Map.empty\<rparr>"
    and run: "st = fold (server_step E g) ops st0"
  shows "(\<forall>arrival ask key recurse l. fst (handle_dht_get E g arrival ask key recurse st) = Inr (Some l) \<longrightarrow>
           fingerprint_of E (loc_identity_pk l) = key \<and>
           verify E (loc_identity_pk l) (locator_to_sign E l) (loc_signature l) = Inr ()) \<and>
         (\<forall>fp \<in> registered_havens st. \<exists>req. OpAlloc req \<in> set ops \<and> fp = fingerprint_of E (reg_identity_pk req) \<and>
           verify E (reg_identity_pk req) (register_to_sign E req) (reg_sig req) = Inr ())"
proof (intro conjI)
  have "server_inv E st0" by (simp add: start server_inv_def authentic_map_def)
  then have inv: "server_inv E st" unfolding run by (rule server_machine.run_inv)
  show "\<forall>arrival ask key recurse l. fst (handle_dht_get E g arrival ask key recurse st) = Inr (Some l) \<longrightarrow>
           fingerprint_of E (loc_identity_pk l) = key \<and>
           verify E (loc_identity_pk l) (locator_to_sign E l) (loc_signature l) = Inr ()"
    using handle_dht_get_inv(2)[OF inv] unfolding authentic_def by (metis prod.collapse)
  show "\<forall>fp \<in> registered_havens st. \<exists>req. OpAlloc req \<in> set ops \<and> fp = fingerprint_of E (reg_identity_pk req) \<and>
           verify E (reg_identity_pk req) (register_to_sign E req) (reg_sig req) = Inr ()"
    using registered_by_request[of _ E g ops st0] by (auto simp: run start)
qed

definition demo_dht :: dht_env where
  "demo_dht = topo_env.extend demo_topo \<lparr>stdcode_locator = (\<lambda>l. opk_bytes (loc_onion_pk l) @ loc_signature l),
     stdcode_register = (\<lambda>r. reg_sig r), stdcode_dht_key = (\<lambda>key fp. fp_bytes fp)\<rparr>"

definition demo_locator :: haven_locator where
  "demo_locator = locator_new demo_dht (demo_isk 7) (OnionPublic [9]) (demo_fp 2)"

lemma demo_dht_same:
  "fingerprint_of demo_dht = fingerprint_of demo_topo" "identity_public_of demo_dht = identity_public_of demo_topo"
  "blake3_hash demo_dht = blake3_hash demo_topo" "fps_iter demo_dht = fps_iter demo_topo"
  by (simp_all add: fun_eq_iff fingerprint_of_def identity_public_of_def demo_dht_def topo_env.defs)

lemma demo_dht_laws: "ed25519_laws demo_dht" "iter_laws demo_dht"
  using demo_topo_ed25519 demo_topo_iter by (simp_all add: ed25519_laws_def iter_laws_def demo_dht_def topo_env.defs)

lemma demo_locator_key: "fingerprint_of demo_dht (loc_identity_pk demo_locator) = demo_fp 7"
  by (simp add: demo_locator_def locator_new_def Let_def demo_fp_def demo_dht_same)

theorem server_serves_authentic_witness:
  "fst (handle_dht_get demo_dht demo_graph id (\<lambda>_. Inl '''') (demo_fp 7) False
      (fold (server_step demo_dht demo_graph) [OpInsert demo_locator]
        \<lparr>local_dht_shard = Map.empty, registered_havens = {}, dht_cache = Map.empty\<rparr>)) = Inr (Some demo_locator) \<and>
   verify demo_dht (loc_identity_pk demo_locator) (locator_to_sign demo_dht demo_locator) (loc_signature demo_locator) = Inr ()"
proof -
  have "authentic demo_dht (demo_fp 7) demo_locator"
    using locator_new_authentic[OF demo_dht_laws(1), of "demo_isk 7"] demo_locator_key by (simp add: authentic_def demo_locator_def)
  then have get: "fst (handle_dht_get demo_dht demo_graph id (\<lambda>_. Inl '''') (demo_fp 7) False
      (fold (server_step demo_dht demo_graph) [OpInsert demo_locator]
        \<lparr>local_dht_shard = Map.empty, registered_havens = {}, dht_cache = Map.empty\<rparr>)) = Inr (Some demo_locator)"
    by (simp add: handle_dht_get_def shard_insert_def authentic_def)
  then show ?thesis using server_serves_authentic[OF refl refl] by blast
qed

text \<open>Publication and lookup, in whatever order the replicas answer.\<close>

lemma dht_publish_lookup:
  assumes laws: "ed25519_laws E" "iter_laws E" "iter_laws E'" and seeker: "E' = E\<lparr>fps_iter := order\<rparr>"
    and graphs: "finite (dom (fp_to_id g))" "finite (dom (fp_to_id g'))" "relays g' = relays g"
    and ranks: "inj_on (\<lambda>fp. blake3_hash E (stdcode_dht_key E (fingerprint_to_string E (my_fingerprint E isk)) fp)) (relays g)"
    and reach: "\<exists>r \<in> set (dht_replicas E g (my_fingerprint E isk)). r \<in> dom net"
    and arrival: "\<And>rs. set (arrival rs) = set rs" and uncached: "cache (my_fingerprint E isk) = None"
  shows "dht_get E' g' arrival
           (ask_network E' g' (dht_insert E g (locator_new E isk opk rdv) net) (my_fingerprint E isk)) (my_fingerprint E isk) cache
         = (Inr (Some (locator_new E isk opk rdv)), cache(my_fingerprint E isk \<mapsto> locator_new E isk opk rdv))"
proof -
  let ?key = "my_fingerprint E isk" and ?l = "locator_new E isk opk rdv"
  let ?net = "dht_insert E g ?l net"
  have auth: "authentic E ?key ?l" by (rule locator_new_authentic[OF laws(1)])
  then have key: "fingerprint_of E (loc_identity_pk ?l) = ?key" by (simp add: authentic_def)
  have same: "locator_to_sign E' = locator_to_sign E" "fingerprint_of E' = fingerprint_of E" "verify E' = verify E"
    by (simp_all add: seeker fun_eq_iff locator_to_sign_def fingerprint_of_def verify_def)
  have auth': "authentic E' ?key ?l" using auth by (simp add: authentic_def same)
  have rs: "dht_replicas E' g' ?key = dht_replicas E g ?key"
    by (rule dht_replicas_agree[OF laws(2,3) seeker graphs ranks])
  have ask: "ask_network E' g' ?net ?key r = (if r \<in> dom net then Inr (Inr (Some ?l)) else Inl ''unreachable'')"
    if "r \<in> set (dht_replicas E g ?key)" for r
    using that auth key
    by (cases "net r") (auto simp: ask_network_def dht_insert_effect handle_dht_get_def shard_insert_def authentic_def)
  have "dht_gather E' ?key (Inr None) (map (ask_network E' g' ?net ?key) (arrival (dht_replicas E g ?key))) cache =
      (Inr (Some ?l), cache(?key \<mapsto> ?l))"
  proof (rule dht_gather_found[OF auth'])
    obtain r where "r \<in> set (dht_replicas E g ?key)" "r \<in> dom net" using reach by blast
    then show "Inr (Inr (Some ?l)) \<in> set (map (ask_network E' g' ?net ?key) (arrival (dht_replicas E g ?key)))"
      using ask[of r] arrival by (auto simp: image_iff intro!: bexI[of _ r])
    fix a assume "a \<in> set (map (ask_network E' g' ?net ?key) (arrival (dht_replicas E g ?key)))"
    then show "a = Inr (Inr (Some ?l)) \<or> (\<exists>e. a = Inl e)" using ask arrival by auto
  qed
  then show ?thesis using uncached rs by (simp add: dht_get_def)
qed

text \<open>
  (C12) A published haven is found.  Publisher and seeker may learn the nodes in different orders; if they
  know the same relays (whose ranks for the key do not collide), at least one of the three
  replicas of the key is reachable, and every reachable one is honest, then after the publication
  a lookup without a cached answer returns exactly the published locator and caches it,
  in whatever order the replicas answer.
\<close>

theorem published_locator_found:
  assumes laws: "ed25519_laws E" "iter_laws E" "iter_laws E'" and seeker: "E' = E\<lparr>fps_iter := order\<rparr>"
    and graphs: "finite (dom (fp_to_id g))" "finite (dom (fp_to_id g'))" "relays g' = relays g"
    and ranks: "inj_on (\<lambda>fp. blake3_hash E (stdcode_dht_key E (fingerprint_to_string E (my_fingerprint E isk)) fp)) (relays g)"
    and reach: "\<exists>r \<in> set (dht_replicas E g (my_fingerprint E isk)). r \<in> dom net"
    and arrival: "\<And>rs. set (arrival rs) = set rs" and uncached: "cache (my_fingerprint E isk) = None"
  shows "dht_get E' g' arrival
           (ask_network E' g' (dht_insert E g (locator_new E isk opk rdv) net) (my_fingerprint E isk)) (my_fingerprint E isk) cache
         = (Inr (Some (locator_new E isk opk rdv)), cache(my_fingerprint E isk \<mapsto> locator_new E isk opk rdv))"
  using assms by (rule dht_publish_lookup)

lemma demo_relays: "relays demo_graph = {demo_fp 1, demo_fp 2}"
proof -
  have "is_relay (demo_descr n)" for n by (simp add: demo_descr_def identity_descriptor_new_def Let_def)
  then show ?thesis using demo_identities demo_graph_identities by blast
qed

lemma demo_graph_finite: "finite (dom (fp_to_id demo_graph))"
proof -
  have ids: "ids_ok demo_topo demo_graph" using demo_graph_facts(1) by (simp add: graph_inv_def)
  have "dom (fp_to_id demo_graph) \<subseteq> {demo_fp 1, demo_fp 2}"
    using demo_graph_facts(4) ids_okD(1)[OF ids] by (auto split: if_splits)
  then show ?thesis by (rule finite_subset) simp
qed

theorem published_locator_found_witness:
  "dht_get demo_dht demo_graph rev (ask_network demo_dht demo_graph (dht_insert demo_dht demo_graph demo_locator
       [demo_fp 2 \<mapsto> \<lparr>local_dht_shard = Map.empty, registered_havens = {}, dht_cache = Map.empty\<rparr>]) (demo_fp 7)) (demo_fp 7) Map.empty
   = (Inr (Some demo_locator), [demo_fp 7 \<mapsto> demo_locator])"
proof -
  have key: "my_fingerprint demo_dht (demo_isk 7) = demo_fp 7" by (simp add: demo_dht_same demo_fp_def)
  have same: "demo_dht = demo_dht\<lparr>fps_iter := fps_iter demo_dht\<rparr>" by simp
  note set = dht_key_to_fps_set[OF demo_dht_laws(2) demo_graph_finite]
  have "length (dht_key_to_fps demo_dht demo_graph k) \<le> 3" for k
    using distinct_card[OF set(2)[of k]] demo_fps(2) by (simp add: set(1) demo_relays)
  then have "set (dht_replicas demo_dht demo_graph (demo_fp 7)) = {demo_fp 1, demo_fp 2}"
    using set demo_relays by (simp add: dht_replicas_def DHT_REDUNDANCY_def)
  moreover have "inj_on (\<lambda>fp. blake3_hash demo_dht (stdcode_dht_key demo_dht k fp)) {demo_fp 1, demo_fp 2}" for k
  proof -
    have "hd (pad_to 32 (of_nat n # xs)) = of_nat n" for n xs by (simp add: pad_to_def)
    then have "hd (blake3_hash demo_dht (stdcode_dht_key demo_dht k (demo_fp n))) = of_nat n" for n
      by (simp add: demo_dht_def demo_topo_def demo_env_def topo_env.defs packet_env.defs crypto.defs demo_crypto_def demo_fp_bytes)
    from this[of 1] this[of 2] show ?thesis by (auto simp: inj_on_def)
  qed
  ultimately show ?thesis
    using published_locator_found[OF demo_dht_laws(1,2,2) same demo_graph_finite demo_graph_finite refl, of "demo_isk 7"
        "[demo_fp 2 \<mapsto> \<lparr>local_dht_shard = Map.empty, registered_havens = {}, dht_cache = Map.empty\<rparr>]" rev Map.empty
        "OnionPublic [9]" "demo_fp 2", unfolded key demo_relays]
    by (simp add: demo_locator_def)
qed

text \<open>
  One replica suffices to spoil a lookup: an answer with the right identity key and a signature
  that does not verify ends the lookup with an error, whatever the others would answer.
\<close>

lemma bad_replica_spoils_lookup:
  assumes "cache fp = None" "arrival (dht_replicas E g fp) = r # rs" "ask r = Inr (Inr (Some l))"
    and "fingerprint_of E (loc_identity_pk l) = fp"
    and "verify E (loc_identity_pk l) (locator_to_sign E l) (loc_signature l) \<noteq> Inr ()"
  shows "dht_get E g arrival ask fp cache = (Inl VerifyFailed, cache)"
  using assms by (cases "verify E (loc_identity_pk l) (locator_to_sign E l) (loc_signature l)") (simp_all add: dht_get_def)

end
