(* ===== verification/Haven_Session.thy ===== *)
theory Haven_Session
  imports Dht Endpoint
begin

text \<open>
  \<open>src/socket/crypt_session.rs\<close>: the encrypted session between a client and a haven.  The task
  \<open>enc_task\<close> of a session is the state machine \<open>crypt_session\<close>: it starts by sending its handshake, a
  client then waits for the server's, and afterwards the two loops seal outgoing and open incoming
  messages.  \<open>session_start\<close>, \<open>session_up\<close> and \<open>session_down\<close> are its turns; a task that ended stays in
  the phase \<open>Dead\<close>.  The stdcode coder and the replay filter are third-party code and fields of
  the environment \<open>haven_env\<close>; the DHT lookup of a client, its 30-second timeout included, is
  the argument \<open>lookup\<close>.
\<close>

section \<open>Data\<close>

record handshake =
  hs_id_pk :: identity_public
  hs_eph_pk :: onion_public
  hs_sig :: bytes

datatype haven_msg = ClientHs handshake | ServerHs handshake | Regular u64 bytes

record 'r haven_env = dht_env +
  stdcode_handshake :: "handshake \<Rightarrow> bytes"
  stdcode_haven_msg :: "haven_msg \<Rightarrow> bytes"
  destdcode_haven_msg :: "bytes \<Rightarrow> haven_msg option"
  stdcode_forward :: "bytes \<times> endpoint \<Rightarrow> bytes"
  destdcode_forward :: "bytes \<Rightarrow> (bytes \<times> endpoint) option"
  rf_default :: 'r
  rf_add :: "u64 \<Rightarrow> 'r \<Rightarrow> bool \<times> 'r"

datatype session_error =
    BadHandshakeSignature verify_error | SpoofedSource | DhtFailed dht_error | DhtReturnedNone
  | MessageNotAuthentic | TaskPanicked

datatype phase = Starting "handshake option" | AwaitServerHs | Running aead_key aead_key | Dead session_error

record 'r crypt_session =
  sess_isk :: identity_secret
  sess_remote :: endpoint
  sess_rendezvous :: "fingerprint option"
  sess_osk :: onion_secret
  sess_phase :: phase
  up_nonce :: u64
  replay :: 'r
  recv_outgoing :: "bytes list"
  recv_incoming_msgs :: "haven_msg list"

definition HAVEN_FORWARD_DOCK :: dock where
  "HAVEN_FORWARD_DOCK = 100002"

section \<open>Handshakes and keys\<close>

definition handshake_to_sign :: "('r, 'z) haven_env_scheme \<Rightarrow> handshake \<Rightarrow> bytes" where
  "handshake_to_sign E hs =
     blake3_keyed_hash E (bytes_of_string ''haven_handshake_________________'') (stdcode_handshake E (hs\<lparr>hs_sig := []\<rparr>))"

definition handshake_new :: "('r, 'z) haven_env_scheme \<Rightarrow> identity_secret \<Rightarrow> onion_secret \<Rightarrow> handshake" where
  "handshake_new E id_sk onion_sk =
     (let hdsk = \<lparr>hs_id_pk = identity_public_of E id_sk, hs_eph_pk = onion_public_of E onion_sk, hs_sig = []\<rparr>
      in hdsk\<lparr>hs_sig := sign E id_sk (handshake_to_sign E hdsk)\<rparr>)"

interpretation handshake_doc: signed_document
    "\<lambda>E. handshake_to_sign (E :: ('r, 'z) haven_env_scheme)" "\<lambda>s h. h\<lparr>hs_sig := s\<rparr>" hs_sig
  by unfold_locales (simp_all add: handshake_to_sign_def)

definition pad_nonce :: "u64 \<Rightarrow> bytes" where
  "pad_nonce input = le_bytes 8 input @ replicate 4 0"

definition up_key :: "'z crypto_scheme \<Rightarrow> bytes \<Rightarrow> aead_key" where
  "up_key C shared_sec = AeadKey (blake3_keyed_hash C (blake3_hash C (bytes_of_string ''haven-up'')) shared_sec)"

definition down_key :: "'z crypto_scheme \<Rightarrow> bytes \<Rightarrow> aead_key" where
  "down_key C shared_sec = AeadKey (blake3_keyed_hash C (blake3_hash C (bytes_of_string ''haven-dn'')) shared_sec)"

text \<open>The pair of encryption and decryption key; a client has no rendezvous point of its own.\<close>

definition running :: "'z crypto_scheme \<Rightarrow> fingerprint option \<Rightarrow> bytes \<Rightarrow> phase" where
  "running C rendezvous_fp shared_sec =
     (if rendezvous_fp = None then Running (up_key C shared_sec) (down_key C shared_sec)
      else Running (down_key C shared_sec) (up_key C shared_sec))"

section \<open>Sessions\<close>

definition session_new ::
    "('r, 'z) haven_env_scheme \<Rightarrow> identity_secret \<Rightarrow> endpoint \<Rightarrow> fingerprint option \<Rightarrow> (handshake \<times> fingerprint) option
       \<Rightarrow> session_error + 'r crypt_session" where
  "session_new E my_isk remote rendezvous_fp client_info =
     (let s = \<lparr>sess_isk = my_isk, sess_remote = remote, sess_rendezvous = rendezvous_fp, sess_osk = OnionSecret [],
               sess_phase = Starting (map_option fst client_info), up_nonce = 0, replay = rf_default E,
               recv_outgoing = [], recv_incoming_msgs = []\<rparr>
      in case client_info of
           None \<Rightarrow> Inr s
         | Some (hs, fp) \<Rightarrow>
             (case verify E (hs_id_pk hs) (handshake_to_sign E hs) (hs_sig hs) of
                Inl e \<Rightarrow> Inl (BadHandshakeSignature e)
              | Inr _ \<Rightarrow> if fingerprint_of E (hs_id_pk hs) \<noteq> fp then Inl SpoofedSource else Inr s))"

definition session_send_outgoing :: "bytes \<Rightarrow> 'r crypt_session \<Rightarrow> session_error + 'r crypt_session" where
  "session_send_outgoing msg s =
     (case sess_phase s of Dead e \<Rightarrow> Inl e | _ \<Rightarrow> Inr (s\<lparr>recv_outgoing := recv_outgoing s @ [msg]\<rparr>))"

definition session_send_incoming :: "haven_msg \<Rightarrow> 'r crypt_session \<Rightarrow> session_error + 'r crypt_session" where
  "session_send_incoming msg s =
     (case sess_phase s of Dead e \<Rightarrow> Inl e | _ \<Rightarrow> Inr (s\<lparr>recv_incoming_msgs := recv_incoming_msgs s @ [msg]\<rparr>))"

definition send_to_rendezvous ::
    "('r, 'z) haven_env_scheme \<Rightarrow> (fingerprint \<Rightarrow> dht_error + haven_locator option) \<Rightarrow> 'r crypt_session \<Rightarrow> haven_msg
       \<Rightarrow> session_error + bytes \<times> endpoint" where
  "send_to_rendezvous E lookup s msg =
     (let fwd_body = stdcode_forward E (stdcode_haven_msg E msg, sess_remote s)
      in case sess_rendezvous s of
           Some rob \<Rightarrow> Inr (fwd_body, endpoint_new rob HAVEN_FORWARD_DOCK)
         | None \<Rightarrow>
             (case lookup (ep_fingerprint (sess_remote s)) of
                Inl e \<Rightarrow> Inl (DhtFailed e)
              | Inr None \<Rightarrow> Inl DhtReturnedNone
              | Inr (Some bob_locator) \<Rightarrow> Inr (fwd_body, endpoint_new (rendezvous_point bob_locator) HAVEN_FORWARD_DOCK)))"

text \<open>The first part of \<open>enc_task\<close>: the handshake is sent; \<open>my_osk\<close> is the freshly generated secret.\<close>

definition session_start ::
    "('r, 'z) haven_env_scheme \<Rightarrow> (fingerprint \<Rightarrow> dht_error + haven_locator option) \<Rightarrow> onion_secret \<Rightarrow> 'r crypt_session
       \<Rightarrow> (bytes \<times> endpoint) list \<times> 'r crypt_session" where
  "session_start E lookup my_osk s =
     (let my_hs = handshake_new E (sess_isk s) my_osk
      in case sess_phase s of
           Starting (Some hs) \<Rightarrow>
             (case send_to_rendezvous E lookup s (ServerHs my_hs) of
                Inl e \<Rightarrow> ([], s\<lparr>sess_phase := Dead e\<rparr>)
              | Inr out \<Rightarrow> ([out], s\<lparr>sess_osk := my_osk,
                  sess_phase := running E (sess_rendezvous s) (shared_secret E my_osk (hs_eph_pk hs))\<rparr>))
         | Starting None \<Rightarrow>
             (case send_to_rendezvous E lookup s (ClientHs my_hs) of
                Inl e \<Rightarrow> ([], s\<lparr>sess_phase := Dead e\<rparr>)
              | Inr out \<Rightarrow> ([out], s\<lparr>sess_osk := my_osk, sess_phase := AwaitServerHs\<rparr>))
         | _ \<Rightarrow> ([], s))"

text \<open>A turn of the loop that seals outgoing messages.\<close>

definition session_up ::
    "('r, 'z) haven_env_scheme \<Rightarrow> (fingerprint \<Rightarrow> dht_error + haven_locator option) \<Rightarrow> 'r crypt_session
       \<Rightarrow> (bytes \<times> endpoint) list \<times> 'r crypt_session" where
  "session_up E lookup s =
     (case (sess_phase s, recv_outgoing s) of
        (Running enc_key dec_key, msg # msgs) \<Rightarrow>
          (case seal E enc_key (pad_nonce (up_nonce s)) msg :: (unit, bytes) res of
             Inl _ \<Rightarrow> ([], s\<lparr>recv_outgoing := msgs, sess_phase := Dead TaskPanicked\<rparr>)
           | Inr ctext \<Rightarrow>
               (case send_to_rendezvous E lookup s (Regular (up_nonce s) ctext) of
                  Inl e \<Rightarrow> ([], s\<lparr>recv_outgoing := msgs, sess_phase := Dead e\<rparr>)
                | Inr out \<Rightarrow> ([out], s\<lparr>recv_outgoing := msgs, up_nonce := up_nonce s + 1\<rparr>)))
      | _ \<Rightarrow> ([], s))"

text \<open>
  An incoming message is taken by the client that waits for the handshake, or else by the loop that
  opens messages.  What is delivered goes to the socket's queue of decrypted messages.
\<close>

definition session_down ::
    "('r, 'z) haven_env_scheme \<Rightarrow> 'r crypt_session \<Rightarrow> (bytes \<times> endpoint) list \<times> 'r crypt_session" where
  "session_down E s =
     (case (sess_phase s, recv_incoming_msgs s) of
        (AwaitServerHs, msg # msgs) \<Rightarrow>
          (case msg of
             ServerHs hs \<Rightarrow> ([], s\<lparr>recv_incoming_msgs := msgs,
                sess_phase := running E (sess_rendezvous s) (shared_secret E (sess_osk s) (hs_eph_pk hs))\<rparr>)
           | _ \<Rightarrow> ([], s\<lparr>recv_incoming_msgs := msgs\<rparr>))
      | (Running enc_key dec_key, msg # msgs) \<Rightarrow>
          (case msg of
             Regular nonce ctext \<Rightarrow>
               let (fresh, rf) = rf_add E nonce (replay s)
               in if fresh then
                    (case open_aead E dec_key (pad_nonce nonce) ctext of
                       Inl _ \<Rightarrow> ([], s\<lparr>recv_incoming_msgs := msgs, replay := rf, sess_phase := Dead MessageNotAuthentic\<rparr>)
                     | Inr plain \<Rightarrow> ([(plain, sess_remote s)], s\<lparr>recv_incoming_msgs := msgs, replay := rf\<rparr>))
                  else ([], s\<lparr>recv_incoming_msgs := msgs, replay := rf\<rparr>)
           | _ \<Rightarrow> ([], s\<lparr>recv_incoming_msgs := msgs\<rparr>))
      | _ \<Rightarrow> ([], s))"
section \<open>Laws\<close>

text \<open>
  The coder reads back what it wrote.  The replay filter accepts no number twice, and it accepts a
  number beyond all those it has seen; \<open>seen\<close> is its abstraction.
\<close>

definition haven_code_laws :: "('r, 'z) haven_env_scheme \<Rightarrow> bool" where
  "haven_code_laws E \<longleftrightarrow> (\<forall>m. destdcode_haven_msg E (stdcode_haven_msg E m) = Some m) \<and>
     (\<forall>x. destdcode_forward E (stdcode_forward E x) = Some x)"

definition replay_laws :: "('r, 'z) haven_env_scheme \<Rightarrow> ('r \<Rightarrow> u64 set) \<Rightarrow> bool" where
  "replay_laws E seen \<longleftrightarrow> seen (rf_default E) = {} \<and>
     (\<forall>n r. n \<in> seen r \<longrightarrow> \<not> fst (rf_add E n r)) \<and>
     (\<forall>n r. (\<forall>m \<in> seen r. m < n) \<longrightarrow> fst (rf_add E n r)) \<and>
     (\<forall>n r. fst (rf_add E n r) \<longrightarrow> seen (snd (rf_add E n r)) = insert n (seen r)) \<and>
     (\<forall>n r. \<not> fst (rf_add E n r) \<longrightarrow> seen (snd (rf_add E n r)) = seen r)"

lemma replay_lawsD:
  assumes "replay_laws E seen"
  shows "seen (rf_default E) = {}" "n \<in> seen r \<Longrightarrow> \<not> fst (rf_add E n r)" "(\<forall>m \<in> seen r. m < n) \<Longrightarrow> fst (rf_add E n r)"
    "fst (rf_add E n r) \<Longrightarrow> seen (snd (rf_add E n r)) = insert n (seen r)" "seen r \<subseteq> seen (snd (rf_add E n r))"
  using assms unfolding replay_laws_def by blast+

text \<open>How the receiver of a forwarded body reads the haven message in it.\<close>

definition read_forward :: "('r, 'z) haven_env_scheme \<Rightarrow> bytes \<Rightarrow> (haven_msg \<times> endpoint) option" where
  "read_forward E b = (case destdcode_forward E b of None \<Rightarrow> None
     | Some (b', remote) \<Rightarrow> map_option (\<lambda>m. (m, remote)) (destdcode_haven_msg E b'))"

lemma read_forward_code [simp]:
  "haven_code_laws E \<Longrightarrow> read_forward E (stdcode_forward E (stdcode_haven_msg E m, ep)) = Some (m, ep)"
  by (simp add: read_forward_def haven_code_laws_def)

section \<open>Sequences of turns\<close>

primrec turns :: "('s \<Rightarrow> 'o list \<times> 's) \<Rightarrow> nat \<Rightarrow> 's \<Rightarrow> 'o list \<times> 's" where
  "turns f 0 s = ([], s)"
| "turns f (Suc n) s = (let (out, s') = f s; (outs, s'') = turns f n s' in (out @ outs, s''))"

text \<open>What a sender turns a list of messages into.\<close>

primrec sealed :: "'z crypto_scheme \<Rightarrow> aead_key \<Rightarrow> u64 \<Rightarrow> bytes list \<Rightarrow> haven_msg list" where
  "sealed C k n [] = []"
| "sealed C k n (m # ms) = Regular n (the (aead_encrypt C (aead_key_bytes k) (pad_nonce n) m)) # sealed C k (n + 1) ms"

text \<open>A session that finds its rendezvous point.\<close>

definition connected :: "('r, 'z) haven_env_scheme \<Rightarrow> (fingerprint \<Rightarrow> dht_error + haven_locator option) \<Rightarrow> 'r crypt_session \<Rightarrow> fingerprint \<Rightarrow> bool" where
  "connected E lookup s rob \<longleftrightarrow> (case sess_rendezvous s of Some r \<Rightarrow> r = rob
     | None \<Rightarrow> \<exists>l. lookup (ep_fingerprint (sess_remote s)) = Inr (Some l) \<and> rendezvous_point l = rob)"

lemma connected_send:
  "connected E lookup s rob \<Longrightarrow> send_to_rendezvous E lookup s m =
     Inr (stdcode_forward E (stdcode_haven_msg E m, sess_remote s), endpoint_new rob HAVEN_FORWARD_DOCK)"
  by (auto simp: connected_def send_to_rendezvous_def Let_def split: option.splits)

lemma connected_update [simp]:
  "connected E lookup (s\<lparr>sess_osk := a\<rparr>) rob = connected E lookup s rob"
  "connected E lookup (s\<lparr>sess_phase := b\<rparr>) rob = connected E lookup s rob"
  "connected E lookup (s\<lparr>recv_outgoing := c, up_nonce := d\<rparr>) rob = connected E lookup s rob"
  "connected E lookup (s\<lparr>recv_incoming_msgs := e, sess_phase := b2\<rparr>) rob = connected E lookup s rob"
  by (simp_all add: connected_def split: option.split)

lemma turns_up_sealed:
  assumes laws: "aead_laws E"
  shows "connected E lookup s rob \<Longrightarrow> sess_phase s = Running k d \<Longrightarrow> recv_outgoing s = ms @ rest \<Longrightarrow>
    (\<And>m. m \<in> set ms \<Longrightarrow> length m \<le> 65536) \<Longrightarrow>
    turns (session_up E lookup) (length ms) s =
      (map (\<lambda>m. (stdcode_forward E (stdcode_haven_msg E m, sess_remote s), endpoint_new rob HAVEN_FORWARD_DOCK))
         (sealed E k (up_nonce s) ms),
       s\<lparr>recv_outgoing := rest, up_nonce := up_nonce s + of_nat (length ms)\<rparr>)"
proof (induction ms arbitrary: s)
  case (Cons m ms)
  obtain c where c: "aead_encrypt E (aead_key_bytes k) (pad_nonce (up_nonce s)) m = Some c"
    using aead_open_seal[OF laws, of m k] Cons.prems(4) by (metis list.set_intros(1))
  let ?s = "s\<lparr>recv_outgoing := ms @ rest, up_nonce := up_nonce s + 1\<rparr>"
  have "session_up E lookup s =
      ([(stdcode_forward E (stdcode_haven_msg E (Regular (up_nonce s) c), sess_remote s), endpoint_new rob HAVEN_FORWARD_DOCK)], ?s)"
    using Cons.prems c by (simp add: session_up_def seal_def connected_send)
  moreover have "turns (session_up E lookup) (length ms) ?s =
      (map (\<lambda>m. (stdcode_forward E (stdcode_haven_msg E m, sess_remote s), endpoint_new rob HAVEN_FORWARD_DOCK))
         (sealed E k (up_nonce s + 1) ms), ?s\<lparr>recv_outgoing := rest, up_nonce := up_nonce s + 1 + of_nat (length ms)\<rparr>)"
    using Cons.IH[of ?s] Cons.prems by simp
  ultimately show ?case using c by (simp add: ac_simps)
qed simp

lemma word_less_Suc:
  fixes n :: u64
  assumes "unat n + Suc k < 2 ^ 64"
  shows "n < n + 1" "unat (n + 1) = Suc (unat n)"
proof -
  have "unat (n + 1) = (unat n + 1) mod 2 ^ 64" by (simp add: unat_word_ariths)
  then show u: "unat (n + 1) = Suc (unat n)" using assms by simp
  then show "n < n + 1" by (simp add: word_less_nat_alt)
qed

lemma turns_down_sealed:
  assumes laws: "aead_laws E" "replay_laws E seen"
  shows "sess_phase s = Running e k \<Longrightarrow> recv_incoming_msgs s = sealed E k n ms \<Longrightarrow>
    (\<And>m. m \<in> set ms \<Longrightarrow> length m \<le> 65536) \<Longrightarrow> unat n + length ms < 2 ^ 64 \<Longrightarrow> (\<forall>x \<in> seen (replay s). x < n) \<Longrightarrow>
    \<exists>s'. turns (session_down E) (length ms) s = (map (\<lambda>m. (m, sess_remote s)) ms, s') \<and> sess_phase s' = Running e k"
proof (induction ms arbitrary: s n)
  case (Cons m ms)
  obtain c where c: "aead_encrypt E (aead_key_bytes k) (pad_nonce n) m = Some c" "open_aead E k (pad_nonce n) c = Inr m"
    using aead_open_seal[OF laws(1), of m k "pad_nonce n"] Cons.prems(3) by (metis list.set_intros(1))
  let ?rf = "snd (rf_add E n (replay s))"
  let ?s = "s\<lparr>recv_incoming_msgs := sealed E k (n + 1) ms, replay := ?rf\<rparr>"
  have fresh: "fst (rf_add E n (replay s))" using replay_lawsD(3)[OF laws(2)] Cons.prems(5) by blast
  have step: "session_down E s = ([(m, sess_remote s)], ?s)"
    using Cons.prems c fresh by (simp add: session_down_def split_beta)
  have lt: "n < n + 1" "unat (n + 1) = Suc (unat n)" using word_less_Suc[of n "length ms"] Cons.prems(4) by auto
  have "\<forall>x \<in> seen ?rf. x < n + 1"
    using replay_lawsD(4)[OF laws(2) fresh] Cons.prems(5) lt(1) by (auto intro: less_trans)
  then obtain s' where "turns (session_down E) (length ms) ?s = (map (\<lambda>m. (m, sess_remote s)) ms, s')" "sess_phase s' = Running e k"
    using Cons.IH[of ?s "n + 1"] Cons.prems lt(2) by auto
  then show ?case using step by (simp add: exI[of _ s'])
qed simp

section \<open>Runs of a session\<close>

datatype session_op =
    OpQueue bytes | OpArrive haven_msg | OpUp "fingerprint \<Rightarrow> dht_error + haven_locator option" | OpDown

text \<open>Deliveries and successor of an operation; a dead session accepts nothing.\<close>

fun session_step ::
    "('r, 'z) haven_env_scheme \<Rightarrow> session_op \<Rightarrow> 'r crypt_session \<Rightarrow> (bytes \<times> endpoint) list \<times> 'r crypt_session" where
  "session_step E (OpQueue m) s = ([], case session_send_outgoing m s of Inl _ \<Rightarrow> s | Inr s' \<Rightarrow> s')"
| "session_step E (OpArrive m) s = ([], case session_send_incoming m s of Inl _ \<Rightarrow> s | Inr s' \<Rightarrow> s')"
| "session_step E (OpUp lookup) s = ([], snd (session_up E lookup s))"
| "session_step E OpDown s = session_down E s"

lemma replay_step:
  "replay (snd (session_step E oper s)) = replay s \<or> (\<exists>n. replay (snd (session_step E oper s)) = snd (rf_add E n (replay s)))"
proof (cases oper)
  case OpDown
  then show ?thesis
    by (auto simp: session_down_def split_beta Let_def split: phase.splits list.splits haven_msg.splits sum.splits)
qed (auto simp: session_send_outgoing_def session_send_incoming_def session_up_def Let_def
    split: phase.splits sum.splits list.splits)

text \<open>Every step keeps the numbers that the replay filter has seen.\<close>

interpretation replay_machine: stable_machine "\<lambda>oper s. snd (session_step E oper s)" "\<lambda>s. replay_laws E seen \<and> n \<in> seen (replay s)"
  for E :: "('r, 'z) haven_env_scheme" and seen and n
proof
  fix s :: "'r crypt_session" and oper assume a: "replay_laws E seen \<and> n \<in> seen (replay s)"
  then show "replay_laws E seen \<and> n \<in> seen (replay (snd (session_step E oper s)))"
    using replay_step[of E oper s] replay_lawsD(5)[of E seen "replay s"] by (metis subsetD)
qed

section \<open>Properties\<close>

text \<open>
  (C11) A session carries the client's messages to the haven.  The client's handshake is accepted by the
  haven, the haven's answer completes the client's side, and then the messages the client
  sends (each within the cipher's limit, fewer than 2 to the 64 in all) are delivered at the
  haven: all of them, unchanged, once, in order, under the client's endpoint.
\<close>

theorem haven_session_delivers:
  assumes laws: "ed25519_laws E" "x25519_laws E" "aead_laws E" "haven_code_laws E" "replay_laws E seen"
    and client: "session_new E cisk sep None None = Inr c" "ep_fingerprint cep = my_fingerprint E cisk"
    and lookup: "lookup (ep_fingerprint sep) = Inr (Some l)" "rendezvous_point l = rob"
    and ms: "\<forall>m \<in> set ms. length m \<le> 65536" "length ms < 2 ^ 64"
  shows "\<exists>out1 c1 s0 out2 s1 c2 outs c3 msgs s2.
    session_start E lookup cosk c = ([(out1, endpoint_new rob HAVEN_FORWARD_DOCK)], c1) \<and>
    read_forward E out1 = Some (ClientHs (handshake_new E cisk cosk), sep) \<and>
    session_new E sisk cep (Some rob) (Some (handshake_new E cisk cosk, ep_fingerprint cep)) = Inr s0 \<and>
    session_start E lookup' sosk s0 = ([(out2, endpoint_new rob HAVEN_FORWARD_DOCK)], s1) \<and>
    read_forward E out2 = Some (ServerHs (handshake_new E sisk sosk), cep) \<and>
    session_down E (c1\<lparr>recv_incoming_msgs := [ServerHs (handshake_new E sisk sosk)], recv_outgoing := ms\<rparr>) = ([], c2) \<and>
    turns (session_up E lookup) (length ms) c2 = (outs, c3) \<and>
    map (\<lambda>(b, ep). (read_forward E b, ep)) outs = map (\<lambda>m. (Some (m, sep), endpoint_new rob HAVEN_FORWARD_DOCK)) msgs \<and>
    turns (session_down E) (length ms) (s1\<lparr>recv_incoming_msgs := msgs\<rparr>) = (map (\<lambda>m. (m, cep)) ms, s2)"
proof -
  let ?hc = "handshake_new E cisk cosk" and ?hs = "handshake_new E sisk sosk"
  let ?ss = "shared_secret E cosk (onion_public_of E sosk)"
  let ?rdv = "endpoint_new rob HAVEN_FORWARD_DOCK"
  have c: "sess_isk c = cisk" "sess_remote c = sep" "sess_rendezvous c = None" "sess_phase c = Starting None" "up_nonce c = 0"
    using client(1) by (auto simp: session_new_def Let_def)
  have con: "connected E lookup c rob" using lookup c by (simp add: connected_def)
  define c1 where "c1 = c\<lparr>sess_osk := cosk, sess_phase := AwaitServerHs\<rparr>"
  have 1: "session_start E lookup cosk c = ([(stdcode_forward E (stdcode_haven_msg E (ClientHs ?hc), sep), ?rdv)], c1)"
    using c connected_send[OF con] by (simp add: session_start_def Let_def c1_def)
  have eph: "hs_eph_pk ?hc = onion_public_of E cosk" "hs_eph_pk ?hs = onion_public_of E sosk" "hs_id_pk ?hc = identity_public_of E cisk"
    by (simp_all add: handshake_new_def Let_def)
  have ver: "verify E (hs_id_pk ?hc) (handshake_to_sign E ?hc) (hs_sig ?hc) = Inr ()"
    using laws(1) by (simp add: handshake_new_def Let_def handshake_to_sign_def)
  define s0 where "s0 = \<lparr>sess_isk = sisk, sess_remote = cep, sess_rendezvous = Some rob, sess_osk = OnionSecret [],
     sess_phase = Starting (Some ?hc), up_nonce = 0, replay = rf_default E, recv_outgoing = [], recv_incoming_msgs = []\<rparr>"
  have 2: "session_new E sisk cep (Some rob) (Some (?hc, ep_fingerprint cep)) = Inr s0"
    using ver client(2) eph(3) by (simp add: session_new_def Let_def s0_def)
  define s1 where "s1 = s0\<lparr>sess_osk := sosk, sess_phase := Running (down_key E ?ss) (up_key E ?ss)\<rparr>"
  have 3: "session_start E lookup' sosk s0 = ([(stdcode_forward E (stdcode_haven_msg E (ServerHs ?hs), cep), ?rdv)], s1)"
    using shared_secret_agrees[OF laws(2), of sosk cosk]
    by (simp add: session_start_def Let_def s0_def s1_def send_to_rendezvous_def running_def eph)
  define c2 where "c2 = c1\<lparr>recv_incoming_msgs := [], recv_outgoing := ms, sess_phase := Running (up_key E ?ss) (down_key E ?ss)\<rparr>"
  have 4: "session_down E (c1\<lparr>recv_incoming_msgs := [ServerHs ?hs], recv_outgoing := ms\<rparr>) = ([], c2)"
    using c by (simp add: session_down_def c1_def c2_def running_def eph)
  have con2: "connected E lookup c2 rob" using lookup c by (simp add: connected_def c2_def c1_def)
  have c2: "sess_phase c2 = Running (up_key E ?ss) (down_key E ?ss)" "recv_outgoing c2 = ms @ []" "sess_remote c2 = sep" "up_nonce c2 = 0"
    using c by (simp_all add: c2_def c1_def)
  note 5 = turns_up_sealed[OF laws(3) con2 c2(1,2), unfolded c2(3,4)]
  have "\<exists>s2. turns (session_down E) (length ms) (s1\<lparr>recv_incoming_msgs := sealed E (up_key E ?ss) 0 ms\<rparr>) =
      (map (\<lambda>m. (m, sess_remote (s1\<lparr>recv_incoming_msgs := sealed E (up_key E ?ss) 0 ms\<rparr>))) ms, s2) \<and>
      sess_phase s2 = Running (down_key E ?ss) (up_key E ?ss)"
    using ms replay_lawsD(1)[OF laws(5)] by (intro turns_down_sealed[OF laws(3,5)]) (auto simp: s1_def s0_def)
  then obtain s2 where 6: "turns (session_down E) (length ms) (s1\<lparr>recv_incoming_msgs := sealed E (up_key E ?ss) 0 ms\<rparr>) =
      (map (\<lambda>m. (m, cep)) ms, s2)" by (auto simp: s1_def s0_def)
  show ?thesis
    using 1 2 3 4 5 6 ms(1) laws(4) by (intro exI conjI) (assumption | simp add: o_def)+
qed

section \<open>An instance for the witnesses\<close>

definition put_hs :: "handshake \<Rightarrow> bytes" where
  "put_hs h = put_bytes (ipk_bytes (hs_id_pk h)) @ put_bytes (opk_bytes (hs_eph_pk h)) @ put_bytes (hs_sig h)"

definition get_hs :: "bytes \<Rightarrow> handshake" where
  "get_hs b = (let (a, b) = get_bytes b; (c, d) = get_bytes b; (e, f) = get_bytes d
     in \<lparr>hs_id_pk = IdentityPublic a, hs_eph_pk = OnionPublic c, hs_sig = e\<rparr>)"

definition put_haven_msg :: "haven_msg \<Rightarrow> bytes" where
  "put_haven_msg m = (case m of ClientHs h \<Rightarrow> 0 # put_hs h | ServerHs h \<Rightarrow> 1 # put_hs h | Regular n c \<Rightarrow> 2 # le_bytes 8 n @ c)"

definition get_haven_msg :: "bytes \<Rightarrow> haven_msg option" where
  "get_haven_msg b = (case b of [] \<Rightarrow> None | t # r \<Rightarrow>
     Some (if t = 0 then ClientHs (get_hs r) else if t = 1 then ServerHs (get_hs r) else Regular (of_le_bytes (take 8 r)) (drop 8 r)))"

definition put_forward :: "bytes \<times> endpoint \<Rightarrow> bytes" where
  "put_forward x = (case x of (b, ep) \<Rightarrow> put_bytes b @ put_bytes (fp_bytes (ep_fingerprint ep)) @ le_bytes 4 (ep_dock ep))"

definition get_forward :: "bytes \<Rightarrow> (bytes \<times> endpoint) option" where
  "get_forward b = (let (a, r) = get_bytes b; (f, q) = get_bytes r in Some (a, endpoint_new (Fingerprint f) (of_le_bytes (take 4 q))))"

definition demo_henv :: "u64 set haven_env" where
  "demo_henv = dht_env.extend demo_dht \<lparr>stdcode_handshake = put_hs, stdcode_haven_msg = put_haven_msg,
     destdcode_haven_msg = get_haven_msg, stdcode_forward = put_forward, destdcode_forward = get_forward,
     rf_default = {}, rf_add = (\<lambda>n r. (n \<notin> r, insert n r))\<rparr>"

lemmas demo_henv_defs = demo_henv_def demo_dht_def demo_topo_def demo_env_def dht_env.defs topo_env.defs packet_env.defs crypto.defs

lemma get_put_hs [simp]: "get_hs (put_hs h) = h"
proof -
  have "get_bytes (put_bytes (hs_sig h)) = (hs_sig h, [])" using get_put_bytes[of "hs_sig h" "[]"] by simp
  then show ?thesis by (cases h) (simp add: get_hs_def put_hs_def Let_def)
qed

lemma demo_henv_laws:
  "ed25519_laws demo_henv" "x25519_laws demo_henv" "aead_laws demo_henv" "haven_code_laws demo_henv" "replay_laws demo_henv id"
proof -
  show "ed25519_laws demo_henv" "x25519_laws demo_henv" "aead_laws demo_henv"
    using demo_laws by (simp_all add: ed25519_laws_def x25519_laws_def aead_laws_def demo_henv_defs)
  have "get_haven_msg (put_haven_msg m) = Some m" for m
    by (cases m) (simp_all add: get_haven_msg_def put_haven_msg_def of_le_bytes_le_bytes)
  moreover have "get_forward (put_forward x) = Some x" for x
    by (cases x) (simp add: get_forward_def put_forward_def Let_def of_le_bytes_le_bytes endpoint_new_def)
  ultimately show "haven_code_laws demo_henv" by (simp add: haven_code_laws_def demo_henv_def dht_env.defs)
  show "replay_laws demo_henv id" by (auto simp: replay_laws_def demo_henv_def dht_env.defs)
qed

lemma demo_henv_same:
  "fingerprint_of demo_henv = fingerprint_of demo_topo" "identity_public_of demo_henv = identity_public_of demo_topo"
  by (simp_all add: fun_eq_iff fingerprint_of_def identity_public_of_def demo_henv_def demo_dht_def dht_env.defs topo_env.defs)

theorem haven_session_delivers_witness:
  "\<exists>c msgs s1 s2. session_new demo_henv (demo_isk 3) (endpoint_new (demo_fp 7) 5) None None = Inr c \<and>
     turns (session_down demo_henv) 2 (s1\<lparr>recv_incoming_msgs := msgs\<rparr>) =
       ([([1, 2], endpoint_new (demo_fp 3) 9), ([3], endpoint_new (demo_fp 3) 9)], s2)"
proof -
  obtain c where c: "session_new demo_henv (demo_isk 3) (endpoint_new (demo_fp 7) 5) None None = Inr c"
    by (simp add: session_new_def Let_def)
  have fp: "ep_fingerprint (endpoint_new (demo_fp 3) 9) = my_fingerprint demo_henv (demo_isk 3)"
    by (simp add: demo_henv_same demo_fp_def endpoint_new_def)
  have "\<exists>msgs s1 s2. turns (session_down demo_henv) (length [[1, 2], [3 :: byte]]) (s1\<lparr>recv_incoming_msgs := msgs\<rparr>) =
      (map (\<lambda>m. (m, endpoint_new (demo_fp 3) 9)) [[1, 2], [3]], s2)"
    using haven_session_delivers[OF demo_henv_laws c fp, where lookup = "\<lambda>_. Inr (Some demo_locator)" and l = demo_locator
        and rob = "rendezvous_point demo_locator" and ms = "[[1, 2], [3]]" and cosk = "OnionSecret [4]" and sisk = "demo_isk 7"
        and sosk = "OnionSecret [6]" and lookup' = "\<lambda>_. Inr None", OF refl refl]
    by (simp del: turns.simps) blast
  then show ?thesis using c by (auto simp: numeral_2_eq_2 simp del: turns.simps)
qed

text \<open>
  (C32) No message is delivered twice.  Once a message with some number has been delivered, then, whatever
  messages arrive, are sent or are processed in between, a message with the same number
  delivers nothing.
\<close>

theorem replayed_message_dropped:
  assumes laws: "replay_laws E seen"
    and first: "recv_incoming_msgs s = Regular n ct # rest" "session_down E s = ([d], s1)"
    and between: "s2 = fold (\<lambda>oper s. snd (session_step E oper s)) ops s1"
    and again: "recv_incoming_msgs s2 = Regular n ct' # rest'"
  shows "fst (session_down E s2) = []"
proof -
  have "n \<in> seen (replay s1)"
    using first replay_lawsD(4)[OF laws, of n "replay s"]
    by (auto simp: session_down_def split_beta Let_def split: phase.splits if_splits sum.splits)
  then have "n \<in> seen (replay s2)"
    using replay_machine.run_inv[of E seen n s1 ops] laws by (simp add: between)
  then show ?thesis using again replay_lawsD(2)[OF laws, of n "replay s2"]
    by (auto simp: session_down_def split_beta Let_def split: phase.splits)
qed

definition demo_session :: "u64 set crypt_session" where
  "demo_session = \<lparr>sess_isk = demo_isk 7, sess_remote = endpoint_new (demo_fp 3) 9, sess_rendezvous = Some (demo_fp 2),
     sess_osk = OnionSecret [4], sess_phase = Running (AeadKey [1]) (AeadKey [2]), up_nonce = 0, replay = {},
     recv_outgoing = [], recv_incoming_msgs = [Regular 5 (1 # replicate 16 0), Regular 5 (1 # replicate 16 0)]\<rparr>"

lemma demo_session_first:
  "session_down demo_henv demo_session = ([([1], endpoint_new (demo_fp 3) 9)],
     demo_session\<lparr>recv_incoming_msgs := [Regular 5 (1 # replicate 16 0)], replay := {5}\<rparr>)"
  by (simp add: session_down_def demo_session_def demo_henv_defs demo_crypto_def open_aead_def)

theorem replayed_message_dropped_witness:
  "fst (session_down demo_henv demo_session) = [([1], endpoint_new (demo_fp 3) 9)] \<and>
   fst (session_down demo_henv (fold (\<lambda>oper s. snd (session_step demo_henv oper s)) [OpQueue [8], OpUp (\<lambda>_. Inr None)]
     (snd (session_down demo_henv demo_session)))) = []"
proof -
  let ?s2 = "fold (\<lambda>oper s. snd (session_step demo_henv oper s)) [OpQueue [8], OpUp (\<lambda>_. Inr None)] (snd (session_down demo_henv demo_session))"
  have "recv_incoming_msgs ?s2 = Regular 5 (1 # replicate 16 0) # []"
    unfolding demo_session_first by (simp add: demo_session_def session_send_outgoing_def session_up_def split: sum.split)
  moreover have "recv_incoming_msgs demo_session = Regular 5 (1 # replicate 16 0) # [Regular 5 (1 # replicate 16 0)]"
    by (simp add: demo_session_def)
  ultimately have "fst (session_down demo_henv ?s2) = []"
    using replayed_message_dropped[OF demo_henv_laws(5) _ demo_session_first] by (metis demo_session_first snd_conv)
  then show ?thesis using demo_session_first by simp
qed

text \<open>
  (C33) A client does not authenticate the haven.  A handshake whose signature does not verify is refused
  by \<open>session_new\<close> when it comes from a client; as the answer of a haven it is accepted, and the
  client then runs with the keys that whoever chose the ephemeral secret computes.
\<close>

theorem haven_handshake_unauthenticated:
  assumes laws: "x25519_laws E" and client: "sess_phase c = AwaitServerHs" "sess_rendezvous c = None"
    and hs: "hs_eph_pk hs = onion_public_of E evil" "verify E (hs_id_pk hs) (handshake_to_sign E hs) (hs_sig hs) = Inl e"
  shows "session_new E isk ep rdv (Some (hs, fp)) = Inl (BadHandshakeSignature e) \<and>
         session_down E (c\<lparr>recv_incoming_msgs := ServerHs hs # msgs\<rparr>) =
           ([], c\<lparr>recv_incoming_msgs := msgs,
                  sess_phase := Running (up_key E (shared_secret E evil (onion_public_of E (sess_osk c))))
                                        (down_key E (shared_secret E evil (onion_public_of E (sess_osk c))))\<rparr>)"
  using client hs shared_secret_agrees[OF laws, of evil "sess_osk c"]
  by (simp add: session_new_def Let_def session_down_def running_def)

theorem haven_handshake_unauthenticated_witness:
  "\<exists>hs c'. session_new demo_henv (demo_isk 7) (endpoint_new (demo_fp 3) 9) None (Some (hs, demo_fp 7)) = Inl (BadHandshakeSignature SignatureCorrupt) \<and>
     session_down demo_henv (demo_session\<lparr>sess_phase := AwaitServerHs, sess_rendezvous := None, recv_incoming_msgs := [ServerHs hs]\<rparr>) = ([], c') \<and>
     sess_phase c' = Running (up_key demo_henv (shared_secret demo_henv (OnionSecret [6]) (onion_public_of demo_henv (OnionSecret [4]))))
       (down_key demo_henv (shared_secret demo_henv (OnionSecret [6]) (onion_public_of demo_henv (OnionSecret [4]))))"
proof -
  let ?hs = "\<lparr>hs_id_pk = identity_public_of demo_henv (demo_isk 7), hs_eph_pk = onion_public_of demo_henv (OnionSecret [6]), hs_sig = []\<rparr>"
  let ?c = "demo_session\<lparr>sess_phase := AwaitServerHs, sess_rendezvous := None\<rparr>"
  have "verify demo_henv (hs_id_pk ?hs) (handshake_to_sign demo_henv ?hs) (hs_sig ?hs) = Inl SignatureCorrupt"
    by (simp add: verify_def)
  then show ?thesis
    using haven_handshake_unauthenticated[OF demo_henv_laws(2), of ?c ?hs "OnionSecret [6]" SignatureCorrupt "demo_isk 7"
        "endpoint_new (demo_fp 3) 9" None "demo_fp 7" "[]"]
    by (intro exI[of _ ?hs]) (simp add: demo_session_def)
qed

lemma dead_session: "sess_phase s = Dead e \<Longrightarrow> session_step E oper s = ([], s)"
  by (cases oper) (simp_all add: session_send_outgoing_def session_send_incoming_def session_up_def session_down_def)

lemma dead_run: "sess_phase s = Dead e \<Longrightarrow> fold (\<lambda>oper s. snd (session_step E oper s)) ops s = s"
  by (induction ops) (simp_all add: dead_session)

text \<open>
  Anyone who can send to a session can end it.  A message with an unused number whose ciphertext does
  not open kills the session; nothing is delivered then or later, and every later message is
  refused.
\<close>

theorem forged_message_ends_session:
  assumes running: "sess_phase s = Running enc dec" and msg: "recv_incoming_msgs s = Regular n ct # msgs"
    and fresh: "fst (rf_add E n (replay s))" and forged: "aead_decrypt E (aead_key_bytes dec) (pad_nonce n) ct = None"
    and later: "t = fold (\<lambda>oper s. snd (session_step E oper s)) ops (snd (session_down E s))"
  shows "fst (session_down E s) = [] \<and> fst (session_step E oper t) = [] \<and>
         session_send_incoming m t = Inl MessageNotAuthentic \<and> session_send_outgoing b t = Inl MessageNotAuthentic"
proof -
  have "session_down E s = ([], s\<lparr>recv_incoming_msgs := msgs, replay := snd (rf_add E n (replay s)), sess_phase := Dead MessageNotAuthentic\<rparr>)"
    using assms by (simp add: session_down_def split_beta open_aead_def)
  moreover from this have "sess_phase (snd (session_down E s)) = Dead MessageNotAuthentic" by simp
  ultimately show ?thesis
    by (simp add: later dead_run dead_session session_send_incoming_def session_send_outgoing_def)
qed

theorem forged_message_ends_session_witness:
  "session_send_incoming (Regular 6 (1 # replicate 16 0))
     (fold (\<lambda>oper s. snd (session_step demo_henv oper s)) [OpDown, OpDown]
       (snd (session_down demo_henv (demo_session\<lparr>recv_incoming_msgs := [Regular 5 [1], Regular 6 (1 # replicate 16 0)]\<rparr>))))
   = Inl MessageNotAuthentic"
proof -
  let ?s = "demo_session\<lparr>recv_incoming_msgs := [Regular 5 [1], Regular 6 (1 # replicate 16 0)]\<rparr>"
  show ?thesis
    using forged_message_ends_session[of ?s "AeadKey [1]" "AeadKey [2]" 5 "[1]" "[Regular 6 (1 # replicate 16 0)]" demo_henv, OF _ _ _ _ refl]
    by (simp add: demo_session_def demo_henv_defs demo_crypto_def del: fold_simps fold.simps)
qed

end
