(* ===== verification/N2r_Socket.thy ===== *)
theory N2r_Socket
  imports Daemon
begin

text \<open>
  \<open>src/socket/n2r_socket.rs\<close>: sockets on docks of a node.  The receiving half of a socket is the queue
  that the daemon keeps for its endpoint in \<open>socket_recv_queues\<close>; what belongs to the socket
  alone is the record \<open>n2r_socket\<close>.  A socket sends through a batcher, which collects the waiting
  messages by destination and splits each collection into subbatches below a size limit; the
  loop over the subbatches is \<open>send_batch\<close>, where \<open>None\<close> means that it does not return.
\<close>

section \<open>Data\<close>

record n2r_socket =
  sock_isk :: identity_secret
  bound_dock :: endpoint
  incoming_queue :: "(bytes \<times> endpoint) list"
  outgoing_queue :: "(bytes \<times> endpoint) list"

datatype socket_send_error = N2rSendError send_message_error | HavenEncryptionError string
datatype socket_recv_error = N2rRecvError

section \<open>Binding\<close>

text \<open>The search for a free dock draws \<open>draw n, draw (n + 1), \<dots>\<close> until one is not in use.\<close>

partial_function (option) free_dock :: "(nat \<Rightarrow> dock) \<Rightarrow> (dock \<Rightarrow> bool) \<Rightarrow> nat \<Rightarrow> dock option" where
  "free_dock draw used n = (if used (draw n) then free_dock draw used (Suc n) else Some (draw n))"

definition n2r_bind ::
    "'z crypto_scheme \<Rightarrow> (nat \<Rightarrow> dock) \<Rightarrow> identity_secret \<Rightarrow> dock option \<Rightarrow> 'l daemon \<Rightarrow> (n2r_socket \<times> 'l daemon) option" where
  "n2r_bind C draw idsk dock s =
     (let our_fingerprint = my_fingerprint C idsk
      in map_option (\<lambda>d.
           (\<lparr>sock_isk = idsk, bound_dock = endpoint_new our_fingerprint d, incoming_queue = [], outgoing_queue = []\<rparr>,
            s\<lparr>socket_recv_queues := (socket_recv_queues s)(endpoint_new our_fingerprint d \<mapsto> [])\<rparr>))
         (case dock of
            Some d \<Rightarrow> Some d
          | None \<Rightarrow> free_dock draw (\<lambda>d. socket_recv_queues s (endpoint_new our_fingerprint d) \<noteq> None) 0))"

definition n2r_local_endpoint :: "n2r_socket \<Rightarrow> endpoint" where
  "n2r_local_endpoint k = bound_dock k"

text \<open>Dropping the last handle of a socket releases its endpoint, whoever is bound to it by then.\<close>

definition n2r_drop :: "n2r_socket \<Rightarrow> 'l daemon \<Rightarrow> 'l daemon" where
  "n2r_drop k s = s\<lparr>socket_recv_queues := (socket_recv_queues s)(bound_dock k := None)\<rparr>"

section \<open>Receiving\<close>

definition unbatch :: "message \<times> fingerprint \<Rightarrow> (bytes \<times> endpoint) list" where
  "unbatch mf = (case mf of (m, fp) \<Rightarrow> map (\<lambda>b. (b, endpoint_new fp (source_dock m))) (body m))"

text \<open>\<open>None\<close> means that the call waits for a message.\<close>

fun recv_loop ::
    "(bytes \<times> endpoint) list \<Rightarrow> (message \<times> fingerprint) list
       \<Rightarrow> ((bytes \<times> endpoint) \<times> (bytes \<times> endpoint) list \<times> (message \<times> fingerprint) list) option" where
  "recv_loop (x # inq) q = Some (x, inq, q)"
| "recv_loop [] [] = None"
| "recv_loop [] (mf # q) = recv_loop (unbatch mf) q"

text \<open>
  The socket's receiver is the queue registered for its endpoint.  (In the code the receiver is the socket's own: after its sender
  was removed from the table, or replaced by another socket of the same endpoint, it could still
  yield what was buffered, and then fails.)
\<close>

definition n2r_recv_from ::
    "n2r_socket \<Rightarrow> 'l daemon \<Rightarrow> ((socket_recv_error + bytes \<times> endpoint) \<times> n2r_socket \<times> 'l daemon) option" where
  "n2r_recv_from k s =
     (case incoming_queue k of
        x # inq \<Rightarrow> Some (Inr x, k\<lparr>incoming_queue := inq\<rparr>, s)
      | [] \<Rightarrow>
          (case socket_recv_queues s (bound_dock k) of
             None \<Rightarrow> Some (Inl N2rRecvError, k, s)
           | Some q \<Rightarrow>
               map_option (\<lambda>(x, inq, q'). (Inr x, k\<lparr>incoming_queue := inq\<rparr>,
                   s\<lparr>socket_recv_queues := (socket_recv_queues s)(bound_dock k \<mapsto> q')\<rparr>)) (recv_loop [] q)))"

section \<open>Sending\<close>

definition n2r_send_to :: "bytes \<Rightarrow> endpoint \<Rightarrow> n2r_socket \<Rightarrow> (socket_send_error + unit) \<times> n2r_socket" where
  "n2r_send_to msg ep k = (Inr (), k\<lparr>outgoing_queue := send_or_drop 10000 (msg, ep) (outgoing_queue k)\<rparr>)"

definition LIMIT :: nat where "LIMIT = 8192"
definition OVERHEAD :: nat where "OVERHEAD = 10"

text \<open>The inner loop: what goes into the next subbatch, and what is left of the batch.\<close>

fun fill_subbatch :: "nat \<Rightarrow> bytes list \<Rightarrow> bytes list \<times> bytes list" where
  "fill_subbatch current_size [] = ([], [])"
| "fill_subbatch current_size (first # batch) =
     (let next_size = current_size + length first + OVERHEAD
      in if next_size > LIMIT then ([], first # batch)
         else let (subbatch, rest) = fill_subbatch next_size batch in (first # subbatch, rest))"

partial_function (option) send_batch ::
    "('l, 'z) daemon_env_scheme \<Rightarrow> identity_secret \<Rightarrow> dock \<Rightarrow> endpoint \<Rightarrow> bytes list \<Rightarrow> 'l daemon
       \<Rightarrow> ((send_message_error, unit) res \<times> 'l daemon) option" where
  "send_batch E isk dock ep batch s =
     (if batch = [] then Some (Inr (), s)
      else
        case send_n2r E isk dock (ep_fingerprint ep) (ep_dock ep) (fst (fill_subbatch 0 batch)) s of
          None \<Rightarrow> None
        | Some (Inl e, s') \<Rightarrow> Some (Inl e, s')
        | Some (Inr _, s') \<Rightarrow> send_batch E isk dock ep (snd (fill_subbatch 0 batch)) s')"

text \<open>\<open>batches.entry(dest).or_default().push_back(msg)\<close> for every waiting message.\<close>

definition push_batch :: "bytes \<times> endpoint \<Rightarrow> (endpoint \<rightharpoonup> bytes list) \<Rightarrow> (endpoint \<rightharpoonup> bytes list)" where
  "push_batch md batches = (case md of (msg, dest) \<Rightarrow>
     batches(dest \<mapsto> (case batches dest of None \<Rightarrow> [] | Some q \<Rightarrow> q) @ [msg]))"

primrec send_batches ::
    "('l, 'z) daemon_env_scheme \<Rightarrow> identity_secret \<Rightarrow> dock \<Rightarrow> (endpoint \<rightharpoonup> bytes list) \<Rightarrow> endpoint list
       \<Rightarrow> ('l daemon, send_message_error, unit) proc" where
  "send_batches E isk dock batches [] = ret ()"
| "send_batches E isk dock batches (ep # eps) =
     bind_proc (send_batch E isk dock ep (case batches ep of None \<Rightarrow> [] | Some q \<Rightarrow> q)) (\<lambda>_.
       send_batches E isk dock batches eps)"

text \<open>
  One turn of \<open>send_batcher_loop\<close>; \<open>None\<close> at the outside means that it waits for a message.
  \<open>iter\<close> is the iteration order of the hash map.  An error ends the task, which is respawned with
  the outgoing queue as it is.
\<close>

definition send_batcher_turn ::
    "('l, 'z) daemon_env_scheme \<Rightarrow> ((endpoint \<rightharpoonup> bytes list) \<Rightarrow> endpoint list) \<Rightarrow> n2r_socket \<Rightarrow> 'l daemon
       \<Rightarrow> (((send_message_error, unit) res \<times> 'l daemon) option \<times> n2r_socket) option" where
  "send_batcher_turn E iter k s =
     (if outgoing_queue k = [] then None
      else
        let batches = fold push_batch (outgoing_queue k) Map.empty
        in Some (send_batches E (sock_isk k) (ep_dock (bound_dock k)) batches (iter batches) s, k\<lparr>outgoing_queue := []\<rparr>))"
section \<open>Splitting a batch\<close>

definition batch_size :: "bytes list \<Rightarrow> nat" where
  "batch_size ms = (\<Sum>m\<leftarrow>ms. length m + OVERHEAD)"

lemma batch_size_simps [simp]: "batch_size [] = 0" "batch_size (m # ms) = length m + OVERHEAD + batch_size ms"
  by (simp_all add: batch_size_def)

lemma fill_subbatch_parts:
  "fst (fill_subbatch n ms) @ snd (fill_subbatch n ms) = ms"
  "n \<le> LIMIT \<Longrightarrow> n + batch_size (fst (fill_subbatch n ms)) \<le> LIMIT"
proof -
  show "fst (fill_subbatch n ms) @ snd (fill_subbatch n ms) = ms"
    by (induction n ms rule: fill_subbatch.induct) (auto simp: Let_def split_beta)
  show "n \<le> LIMIT \<Longrightarrow> n + batch_size (fst (fill_subbatch n ms)) \<le> LIMIT"
    by (induction n ms rule: fill_subbatch.induct) (auto simp: Let_def split_beta)
qed

lemma fill_subbatch_progress:
  assumes "length m \<le> 8182"
  shows "fst (fill_subbatch 0 (m # ms)) \<noteq> []" "length (snd (fill_subbatch 0 (m # ms))) < length (m # ms)"
proof -
  show ne: "fst (fill_subbatch 0 (m # ms)) \<noteq> []"
    using assms by (simp add: Let_def split_beta LIMIT_def OVERHEAD_def)
  have "length (m # ms) = length (fst (fill_subbatch 0 (m # ms))) + length (snd (fill_subbatch 0 (m # ms)))"
    using fill_subbatch_parts(1)[of 0 "m # ms"] by (metis length_append)
  then show "length (snd (fill_subbatch 0 (m # ms))) < length (m # ms)"
    using ne by (cases "fst (fill_subbatch 0 (m # ms))") simp_all
qed

text \<open>Sending a list of subbatches one after the other.\<close>

definition send_chunks ::
    "('l, 'z) daemon_env_scheme \<Rightarrow> identity_secret \<Rightarrow> dock \<Rightarrow> endpoint \<Rightarrow> bytes list list
       \<Rightarrow> ('l daemon, send_message_error, unit) proc" where
  "send_chunks E isk dock ep cs =
     foldr (\<lambda>c m. bind_proc (send_n2r E isk dock (ep_fingerprint ep) (ep_dock ep) c) (\<lambda>_. m)) cs (ret ())"

lemma send_batch_Cons:
  assumes "batch \<noteq> []"
  shows "send_batch E isk dock ep batch s =
    bind_proc (send_n2r E isk dock (ep_fingerprint ep) (ep_dock ep) (fst (fill_subbatch 0 batch)))
      (\<lambda>_. send_batch E isk dock ep (snd (fill_subbatch 0 batch))) s"
  using assms by (subst send_batch.simps) (auto simp: bind_proc_def split: option.splits sum.splits)

lemma send_batch_chunks:
  "(\<And>m. m \<in> set batch \<Longrightarrow> length m \<le> 8182) \<Longrightarrow>
     \<exists>cs. concat cs = batch \<and> (\<forall>c \<in> set cs. c \<noteq> [] \<and> batch_size c \<le> LIMIT) \<and>
          send_batch E isk dock ep batch = send_chunks E isk dock ep cs"
proof (induction "length batch" arbitrary: batch rule: less_induct)
  case less
  show ?case
  proof (cases batch)
    case Nil
    then show ?thesis by (intro exI[of _ "[]"]) (auto simp: send_chunks_def send_batch.simps ret_def fun_eq_iff)
  next
    case (Cons m ms)
    let ?sub = "fst (fill_subbatch 0 batch)" and ?rest = "snd (fill_subbatch 0 batch)"
    have split: "?sub @ ?rest = batch" and size: "batch_size ?sub \<le> LIMIT"
      using fill_subbatch_parts(1)[of 0 batch] fill_subbatch_parts(2)[of 0 batch] by simp_all
    have ne: "?sub \<noteq> []" and lt: "length ?rest < length batch"
      using fill_subbatch_progress[of m ms] less.prems[of m] Cons by auto
    have "set ?rest \<subseteq> set batch" using split by (metis Un_upper2 set_append)
    then obtain cs where cs: "concat cs = ?rest" "\<forall>c \<in> set cs. c \<noteq> [] \<and> batch_size c \<le> LIMIT"
        "send_batch E isk dock ep ?rest = send_chunks E isk dock ep cs"
      using less.hyps[OF lt] less.prems by blast
    have "batch \<noteq> []" using Cons by simp
    then have "send_batch E isk dock ep batch = send_chunks E isk dock ep (?sub # cs)"
      by (intro ext, subst send_batch_Cons) (simp_all only: cs(3) send_chunks_def foldr.simps o_apply)
    moreover have "concat (?sub # cs) = batch" using cs(1) split by simp
    ultimately show ?thesis using cs(2) ne size by (intro exI[of _ "?sub # cs"]) simp
  qed
qed

lemma safe_send_chunks:
  assumes laws: "daemon_laws E ok"
  shows "daemon_inv E ok s \<Longrightarrow> safe E ok (send_chunks E isk dock ep cs) s (\<lambda>_. True)"
  unfolding send_chunks_def
  by (induction cs arbitrary: s)
    (auto intro: safe_keeping[OF keeping_ret] safe_bind[OF safe_send_n2r[OF laws]])

section \<open>A turn of the batcher\<close>

lemma push_batches:
  "fold push_batch q b dest =
     (if dest \<notin> snd ` set q then b dest
      else Some ((case b dest of None \<Rightarrow> [] | Some ms \<Rightarrow> ms) @ map fst (filter (\<lambda>x. snd x = dest) q)))"
proof (induction q arbitrary: b)
  case (Cons x q)
  obtain m d where x: "x = (m, d)" by (cases x)
  have none: "filter (\<lambda>x. snd x = dest) q = []" if "dest \<notin> snd ` set q" using that by (force simp: filter_empty_conv)
  have "push_batch x b dest = (if d = dest then Some ((case b dest of None \<Rightarrow> [] | Some q \<Rightarrow> q) @ [m]) else b dest)"
    by (simp add: x push_batch_def)
  then show ?case using none Cons.IH[of "push_batch x b"] by (auto simp: x)
qed simp

lemma batches_spec:
  "fold push_batch q Map.empty dest =
     (if dest \<in> snd ` set q then Some (map fst (filter (\<lambda>x. snd x = dest) q)) else None)"
  by (simp add: push_batches)

lemma safe_send_batches:
  assumes laws: "daemon_laws E ok" and small: "\<And>ep ms m. batches ep = Some ms \<Longrightarrow> m \<in> set ms \<Longrightarrow> length m \<le> 8182"
  shows "daemon_inv E ok s \<Longrightarrow> safe E ok (send_batches E isk dock batches eps) s (\<lambda>_. True)"
proof (induction eps arbitrary: s)
  case Nil then show ?case by (auto intro: safe_keeping[OF keeping_ret])
next
  case (Cons ep eps)
  obtain cs where "send_batch E isk dock ep (case batches ep of None \<Rightarrow> [] | Some q \<Rightarrow> q) = send_chunks E isk dock ep cs"
    using send_batch_chunks[of "case batches ep of None \<Rightarrow> [] | Some q \<Rightarrow> q" E isk dock ep] small[of ep]
    by (cases "batches ep") fastforce+
  then show ?case using Cons by (auto intro: safe_bind[OF safe_send_chunks[OF laws]])
qed

section \<open>Sockets as sources of messages\<close>

primrec takes :: "('s \<Rightarrow> ('a \<times> 's) option) \<Rightarrow> nat \<Rightarrow> 's \<Rightarrow> ('a list \<times> 's) option" where
  "takes fetch 0 s = Some ([], s)"
| "takes fetch (Suc n) s = (case fetch s of None \<Rightarrow> None
     | Some (x, s') \<Rightarrow> map_option (\<lambda>(xs, s''). (x # xs, s'')) (takes fetch n s'))"

text \<open>
  A source refines a first-in-first-out queue: it yields the pending elements in order and waits
  exactly when none is pending.
\<close>

locale fifo_source =
  fixes pending :: "'s \<Rightarrow> 'a list" and live :: "'s \<Rightarrow> bool" and fetch :: "'s \<Rightarrow> ('a \<times> 's) option"
  assumes waits: "live s \<Longrightarrow> pending s = [] \<Longrightarrow> fetch s = None"
    and yields: "live s \<Longrightarrow> pending s = x # xs \<Longrightarrow> \<exists>s'. fetch s = Some (x, s') \<and> pending s' = xs \<and> live s'"
begin

lemma takes_pending:
  "live s \<Longrightarrow> n \<le> length (pending s) \<Longrightarrow>
     \<exists>s'. takes fetch n s = Some (take n (pending s), s') \<and> pending s' = drop n (pending s) \<and> live s'"
proof (induction n arbitrary: s)
  case (Suc n)
  then obtain x xs where p: "pending s = x # xs" by (cases "pending s") auto
  then obtain s1 where s1: "fetch s = Some (x, s1)" "pending s1 = xs" "live s1" using yields Suc.prems(1) by blast
  then show ?case using Suc.IH[of s1] Suc.prems p by auto
qed simp

lemma takes_all: "live s \<Longrightarrow> \<exists>s'. takes fetch (length (pending s)) s = Some (pending s, s') \<and> fetch s' = None \<and> live s'"
  using takes_pending[of s "length (pending s)"] waits by auto

end

lemma recv_loop_waits: "inq @ concat (map unbatch q) = [] \<Longrightarrow> recv_loop inq q = None"
  by (induction inq q rule: recv_loop.induct) auto

lemma recv_loop_yields:
  "inq @ concat (map unbatch q) = x # xs \<Longrightarrow>
     \<exists>inq' q'. recv_loop inq q = Some (x, inq', q') \<and> inq' @ concat (map unbatch q') = xs"
  by (induction inq q rule: recv_loop.induct) auto

definition n2r_next :: "n2r_socket \<times> 'l daemon \<Rightarrow> ((bytes \<times> endpoint) \<times> n2r_socket \<times> 'l daemon) option" where
  "n2r_next ks = (case ks of (k, s) \<Rightarrow>
     (case n2r_recv_from k s of Some (Inr x, k', s') \<Rightarrow> Some (x, k', s') | _ \<Rightarrow> None))"

definition n2r_pending :: "n2r_socket \<times> 'l daemon \<Rightarrow> (bytes \<times> endpoint) list" where
  "n2r_pending ks = (case ks of (k, s) \<Rightarrow>
     incoming_queue k @ (case socket_recv_queues s (bound_dock k) of None \<Rightarrow> [] | Some q \<Rightarrow> concat (map unbatch q)))"

definition n2r_live :: "n2r_socket \<times> 'l daemon \<Rightarrow> bool" where
  "n2r_live ks = (case ks of (k, s) \<Rightarrow> socket_recv_queues s (bound_dock k) \<noteq> None)"

lemma n2r_recv_spec:
  assumes "n2r_live (k, s)"
  shows "case n2r_pending (k, s) of
      [] \<Rightarrow> n2r_recv_from k s = None
    | x # xs \<Rightarrow> \<exists>k' s'. n2r_recv_from k s = Some (Inr x, k', s') \<and> n2r_pending (k', s') = xs \<and> n2r_live (k', s')"
proof -
  obtain q where q: "socket_recv_queues s (bound_dock k) = Some q" using assms by (auto simp: n2r_live_def)
  show ?thesis
  proof (cases "incoming_queue k")
    case (Cons x inq)
    then show ?thesis using q by (simp add: n2r_pending_def n2r_recv_from_def n2r_live_def)
  next
    case Nil
    have p: "n2r_pending (k, s) = concat (map unbatch q)" using Nil q by (simp add: n2r_pending_def)
    show ?thesis
    proof (cases "concat (map unbatch q)")
      case empty: Nil
      then show ?thesis using Nil q p recv_loop_waits[of "[]" q] by (simp add: n2r_recv_from_def del: concat_eq_Nil_conv)
    next
      case (Cons x xs)
      then obtain inq' q' where r: "recv_loop [] q = Some (x, inq', q')" "inq' @ concat (map unbatch q') = xs"
        using recv_loop_yields[of "[]" q] by auto
      let ?k = "k\<lparr>incoming_queue := inq'\<rparr>" and ?s = "s\<lparr>socket_recv_queues := (socket_recv_queues s)(bound_dock k \<mapsto> q')\<rparr>"
      have "n2r_recv_from k s = Some (Inr x, ?k, ?s)" using Nil q r by (simp add: n2r_recv_from_def)
      moreover have "n2r_pending (?k, ?s) = xs" "n2r_live (?k, ?s)" using r by (simp_all add: n2r_pending_def n2r_live_def)
      ultimately show ?thesis using p Cons by auto
    qed
  qed
qed

interpretation n2r_source: fifo_source n2r_pending n2r_live n2r_next
proof
  fix ks :: "n2r_socket \<times> 'l daemon" and x xs
  assume "n2r_live ks"
  then have r: "case n2r_pending ks of
      [] \<Rightarrow> n2r_recv_from (fst ks) (snd ks) = None
    | x # xs \<Rightarrow> \<exists>k' s'. n2r_recv_from (fst ks) (snd ks) = Some (Inr x, k', s') \<and> n2r_pending (k', s') = xs \<and> n2r_live (k', s')"
    using n2r_recv_spec[of "fst ks" "snd ks"] by simp
  show "n2r_pending ks = [] \<Longrightarrow> n2r_next ks = None" using r by (auto simp: n2r_next_def split_beta)
  show "n2r_pending ks = x # xs \<Longrightarrow> \<exists>s'. n2r_next ks = Some (x, s') \<and> n2r_pending s' = xs \<and> n2r_live s'"
    using r by (force simp: n2r_next_def split_beta)
qed
section \<open>Messages that do not fit\<close>

text \<open>A serialised message contains the bytes of its body.\<close>

definition bincode_contains :: "'z packet_env_scheme \<Rightarrow> bool" where
  "bincode_contains E \<longleftrightarrow> (\<forall>m. sum_list (map length (body m)) \<le> length (bincode_serialize E (Message m)))"

lemma raw_new_oversize:
  assumes "8172 < length (bincode_serialize E payload)"
  shows "\<exists>e. raw_new E eph garbage route dest payload metadata isk = Inl (Err e)"
  using raw_new_too_big[OF assms, of route] raw_new_too_many[of route E eph garbage dest payload metadata isk]
  by (cases "length route < 10") simp_all

lemma send_n2r_too_big:
  assumes laws: "daemon_laws E ok" and inv: "daemon_inv E ok s"
    and big: "8172 < length (bincode_serialize E (Message (message_new sd dd content)))"
  shows "total (send_n2r E isk sd dst dd content) s (\<lambda>r s'. (\<exists>e. r = Inl (Err e)) \<and> neigh s' = neigh s)"
proof -
  let ?m = "Message (message_new sd dd content)" and ?pop = "rb_store_pop (lru E) dst (anon_dests s)"
  let ?s = "s\<lparr>anon_dests := snd ?pop\<rparr>"
  let ?Q = "\<lambda>r s'. (\<exists>e. r = Inl (Err e)) \<and> neigh s' = neigh s"
  have i: "daemon_inv E ok ?s" by (rule pop_inv(1)[OF laws inv])
  show ?thesis
  proof (cases "fst ?pop")
    case (Some rb)
    have "new_reply E rb ?m isk = Inl (Err MessageTooBig)" for isk
      using big by (simp add: new_reply_def inner_encode_def Let_def)
    then show ?thesis using Some
      by (cases "isk = global_identity s") (simp_all add: total_def send_n2r_def bind_proc_def lift_res_def proc_simps)
  next
    case None
    have build: "total (build_packet E ins opk ?m isk) ?s ?Q" for ins opk
      using raw_new_oversize[OF big, of "rand_eph E (rng s)" "rand_garbage E (rng s)" ins opk "replicate 20 0" isk]
      by (auto simp: total_def build_packet_def new_normal_def)
    have "total (bind_proc (route_between E (my_fp E s) dst dst) (\<lambda>route.
         bind_proc (instructs_of route) (\<lambda>instructs.
         bind_proc (opk_of dst) (\<lambda>their_opk.
         bind_proc (build_packet E instructs their_opk ?m isk) (\<lambda>wrapped_onion.
         bind_proc (if isk \<noteq> global_identity s then replenish_rrb E isk dst else ret ()) (\<lambda>_.
           inject wrapped_onion)))))) ?s ?Q"
    proof (rule total_bind_same)
      show "total (route_between E (my_fp E s) dst dst) ?s (\<lambda>r s'. s' = ?s)"
        using total_route_between[OF laws i] by (rule total_conseq) auto
      have ins: "total (instructs_of route) ?s (\<lambda>r s'. s' = ?s)" for route
        using route_to_instructs_no_panic by (simp add: instructs_of_def total_def lift_res_def)
      have opk: "total (opk_of dst) ?s (\<lambda>r s'. s' = ?s)"
        by (auto simp: opk_of_def total_def lift_res_def res_simps)
      show "total (bind_proc (instructs_of route) (\<lambda>instructs. bind_proc (opk_of dst) (\<lambda>their_opk.
         bind_proc (build_packet E instructs their_opk ?m isk) (\<lambda>wrapped_onion.
         bind_proc (if isk \<noteq> global_identity s then replenish_rrb E isk dst else ret ()) (\<lambda>_.
           inject wrapped_onion))))) ?s ?Q" for route
        by (rule total_bind_same[OF ins], rule total_bind_same[OF opk], rule total_bind[OF build]) auto
    qed simp
    then show ?thesis using None by (simp add: total_def send_n2r_def)
  qed
qed

section \<open>Properties\<close>

text \<open>
  (C19) The batcher splits correctly.  When no message is longer than 8182 bytes, sending a batch is the
  same as sending, one after the other, nonempty subbatches of at most 8192 bytes (10 bytes per
  message included) whose concatenation is the batch: no message is lost, repeated or reordered.
\<close>

theorem send_batch_splits:
  assumes "\<forall>m \<in> set batch. length m \<le> 8182"
  shows "\<exists>cs. concat cs = batch \<and> (\<forall>c \<in> set cs. c \<noteq> [] \<and> (\<Sum>m\<leftarrow>c. length m + OVERHEAD) \<le> LIMIT) \<and>
           send_batch E isk dock ep batch =
             foldr (\<lambda>c m. bind_proc (send_n2r E isk dock (ep_fingerprint ep) (ep_dock ep) c) (\<lambda>_. m)) cs (ret ())"
  using send_batch_chunks[of batch] assms unfolding batch_size_def send_chunks_def by blast

theorem send_batch_splits_witness:
  "\<exists>cs. concat cs = [[1], [2, 3]] \<and> (\<forall>c \<in> set cs. c \<noteq> [] \<and> (\<Sum>m\<leftarrow>c. length m + OVERHEAD) \<le> LIMIT) \<and>
     send_batch demo_denv (demo_isk 1) 5 \<lparr>ep_fingerprint = demo_fp 2, ep_dock = 6\<rparr> [[1], [2, 3]] =
       foldr (\<lambda>c m. bind_proc (send_n2r demo_denv (demo_isk 1) 5 (demo_fp 2) 6 c) (\<lambda>_. m)) cs (ret ())"
  using send_batch_splits[of "[[1], [2, 3]]" demo_denv "demo_isk 1" 5 "\<lparr>ep_fingerprint = demo_fp 2, ep_dock = 6\<rparr>"]
  by simp

text \<open>
  A turn of the batcher ends.  When no waiting message is longer than 8182 bytes, a turn with
  waiting messages takes all of them from the queue, returns without panic, and leaves the daemon
  consistent.
\<close>

theorem send_batcher_turn_returns:
  assumes laws: "daemon_laws E ok" and inv: "daemon_inv E ok s"
    and waiting: "outgoing_queue k \<noteq> []" and small: "\<forall>x \<in> set (outgoing_queue k). length (fst x) \<le> 8182"
  shows "\<exists>r s'. send_batcher_turn E iter k s = Some (Some (r, s'), k\<lparr>outgoing_queue := []\<rparr>) \<and>
           r \<noteq> Inl Panic \<and> daemon_inv E ok s'"
proof -
  let ?b = "fold push_batch (outgoing_queue k) Map.empty"
  have "length m \<le> 8182" if "?b ep = Some ms" "m \<in> set ms" for ep ms m
    using that small by (auto simp: batches_spec split: if_splits)
  then have "safe E ok (send_batches E (sock_isk k) (ep_dock (bound_dock k)) ?b (iter ?b)) s (\<lambda>_. True)"
    using safe_send_batches[OF laws _ inv, of ?b] by blast
  then show ?thesis using waiting by (auto simp: send_batcher_turn_def safe_def total_def)
qed

definition demo_socket :: n2r_socket where
  "demo_socket = \<lparr>sock_isk = demo_isk 1, bound_dock = endpoint_new (demo_fp 1) 5, incoming_queue = [],
     outgoing_queue = [([1, 2], endpoint_new (demo_fp 2) 6), ([3], endpoint_new (demo_fp 2) 6)]\<rparr>"

theorem send_batcher_turn_returns_witness:
  "\<exists>r s'. send_batcher_turn demo_denv (\<lambda>_. [endpoint_new (demo_fp 2) 6]) demo_socket demo_daemon =
     Some (Some (r, s'), demo_socket\<lparr>outgoing_queue := []\<rparr>) \<and> r \<noteq> Inl Panic \<and> daemon_inv demo_denv demo_lru_ok s'"
  by (rule send_batcher_turn_returns[OF demo_daemon_laws demo_daemon_inv]) (simp_all add: demo_socket_def)

text \<open>
  A message between 8173 and 8182 bytes passes the batcher's limit but fits no packet: the send
  fails, nothing is queued, and every later message of the batch is dropped with it.
\<close>

theorem message_above_payload_lost:
  assumes laws: "daemon_laws E ok" and inv: "daemon_inv E ok s" and sizes: "bincode_contains E"
    and m: "8172 < length m" "length m \<le> 8182"
  shows "\<exists>e s'. send_batch E isk dock ep (m # ms) s = Some (Inl (Err e), s') \<and> neigh s' = neigh s"
proof -
  have sub: "fst (fill_subbatch 0 (m # ms)) = [m]"
    using m by (cases ms) (auto simp: Let_def split_beta LIMIT_def OVERHEAD_def)
  have "8172 < length (bincode_serialize E (Message (message_new dock (ep_dock ep) [m])))"
    using sizes m(1) unfolding bincode_contains_def message_new_def
    by (metis (no_types, lifting) add_0_right le_less_trans list.simps(8,9) message.select_convs(3) not_le sum_list.Cons sum_list.Nil)
  from send_n2r_too_big[OF laws inv this, of isk "ep_fingerprint ep"]
  obtain e s' where "send_n2r E isk dock (ep_fingerprint ep) (ep_dock ep) [m] s = Some (Inl (Err e), s')" "neigh s' = neigh s"
    by (auto simp: total_def)
  then show ?thesis using sub by (subst send_batch_Cons) (auto simp: bind_proc_def)
qed

lemma demo_bincode_contains: "bincode_contains demo_denv"
proof -
  have "sum_list (map length bs) \<le> length (concat (map put_bytes bs))" for bs
    by (induction bs) (simp_all add: put_bytes_def put_nat_def)
  then have "sum_list (map length (body m)) \<le> length (demo_serialize (Message m))" for m
    by (simp add: demo_serialize_def put_message_def trans_le_add2)
  then show ?thesis by (simp add: bincode_contains_def demo_denv_same)
qed

theorem message_above_payload_lost_witness:
  "\<exists>e s'. send_batch demo_denv (demo_isk 1) 5 (endpoint_new (demo_fp 2) 6) [replicate 8180 0, [1]] demo_daemon =
     Some (Inl (Err e), s') \<and> neigh s' = neigh_table_new"
  using message_above_payload_lost[OF demo_daemon_laws demo_daemon_inv demo_bincode_contains, of "replicate 8180 0"]
  by (simp add: demo_daemon_def)

section \<open>A message no subbatch takes\<close>

lemma sent_again:
  assumes laws: "daemon_laws E ok" and inv: "daemon_inv E ok s"
    and no_rb: "rb_stack (lru E) (anon_dests s) dst = []"
    and send: "send_n2r E (global_identity s) sd dst dd c s = Some (Inr (), sent E dst pkt s)"
  shows "daemon_inv E ok (sent E dst pkt s)" "rb_stack (lru E) (anon_dests (sent E dst pkt s)) dst = []"
    "graph (sent E dst pkt s) = graph s" "global_identity (sent E dst pkt s) = global_identity s"
proof -
  have st: "rb_store_inv (lru E) ok (anon_dests s)" using inv by (simp add: daemon_inv_def)
  show "daemon_inv E ok (sent E dst pkt s)"
    using safe_send_n2r[OF laws inv, of "global_identity s" sd dst dd c] send by (simp add: safe_def total_def)
  show "rb_stack (lru E) (anon_dests (sent E dst pkt s)) dst = []"
    using rb_store_pop_effect(3)[OF daemon_lawsD(4)[OF laws] st] no_rb by (simp add: sent_def)
qed (simp_all add: sent_def)

text \<open>
  (C31) A message longer than 8182 bytes stops the batcher.  It is never put into a subbatch; as long as
  the destination is reachable, the loop sends empty messages for ever and no later message,
  to whatever destination, is sent.
\<close>

theorem oversize_message_livelock:
  assumes laws: "daemon_laws E ok" and inv: "daemon_inv E ok s"
    and honest: "\<And>fp d. identity (graph s) fp = Some d \<Longrightarrow> onion_pk d = onion_public_of E (osk fp)"
    and no_rb: "rb_stack (lru E) (anon_dests s) (ep_fingerprint ep) = []"
    and route: "is_route (graph s) (my_fp E s) (ep_fingerprint ep) q" "length q \<le> 10"
    and fits: "length (bincode_serialize E (Message (message_new dock (ep_dock ep) []))) \<le> 8172"
    and m: "8182 < length m"
  shows "send_batch E (global_identity s) dock ep (m # ms) s = None"
proof -
  define J where "J t \<longleftrightarrow> daemon_inv E ok t \<and> rb_stack (lru E) (anon_dests t) (ep_fingerprint ep) = [] \<and>
    graph t = graph s \<and> global_identity t = global_identity s" for t
  have fill: "fill_subbatch 0 (m # ms) = ([], m # ms)" using m by (simp add: LIMIT_def OVERHEAD_def)
  have step: "\<exists>t'. send_n2r E (global_identity s) dock (ep_fingerprint ep) (ep_dock ep) [] t = Some (Inr (), t') \<and> J t'"
    if "J t" for t
  proof -
    from that have t: "daemon_inv E ok t" "rb_stack (lru E) (anon_dests t) (ep_fingerprint ep) = []"
      "graph t = graph s" "global_identity t = global_identity s" by (auto simp: J_def)
    obtain pkt where "send_n2r E (global_identity t) dock (ep_fingerprint ep) (ep_dock ep) [] t =
        Some (Inr (), sent E (ep_fingerprint ep) pkt t)"
      using send_n2r_own[OF laws t(1) _ t(2) _ route(2) fits, of osk] honest route(1) t(3,4) by auto
    then show ?thesis using sent_again[OF laws t(1,2), of dock "ep_dock ep" "[]" pkt] t(3,4) by (auto simp: J_def)
  qed
  let ?P = "\<lambda>F isk d e b t. F = E \<and> isk = global_identity s \<and> d = dock \<and> e = ep \<and> b = m # ms \<and> J t"
  have no: "\<not> ?P F isk d e b t" if "send_batch F isk d e b t = Some y" for F isk d e b t y
  proof (rule send_batch.raw_induct[where P = "\<lambda>F isk d e b t y. \<not> ?P F isk d e b t", OF _ that])
    fix f F isk d e b t y
    assume IH: "\<And>F isk d e b t y. f F isk d e b t = Some y \<Longrightarrow> \<not> ?P F isk d e b t"
      and eq: "(if b = [] then Some (Inr (), t) else
        case send_n2r F isk d (ep_fingerprint e) (ep_dock e) (fst (fill_subbatch 0 b)) t of None \<Rightarrow> None
        | Some (Inl e, s') \<Rightarrow> Some (Inl e, s') | Some (Inr _, s') \<Rightarrow> f F isk d e (snd (fill_subbatch 0 b)) s') = Some y"
    show "\<not> ?P F isk d e b t"
    proof
      assume P: "?P F isk d e b t"
      then obtain t' where t': "send_n2r E (global_identity s) dock (ep_fingerprint ep) (ep_dock ep) [] t = Some (Inr (), t')" "J t'"
        using step by blast
      then have "f E (global_identity s) dock ep (m # ms) t' = Some y" using eq P fill by (simp del: fill_subbatch.simps)
      then show False using IH t'(2) by blast
    qed
  qed
  have "J s" using inv no_rb by (simp add: J_def)
  then show ?thesis using no[of E "global_identity s" dock ep "m # ms" s]
    by (cases "send_batch E (global_identity s) dock ep (m # ms) s") auto
qed

theorem oversize_message_livelock_witness:
  "send_batch demo_denv (demo_isk 1) 5 \<lparr>ep_fingerprint = demo_fp 2, ep_dock = 6\<rparr> [replicate 8183 0, [1]] demo_daemon = None"
proof -
  have me: "my_fp demo_denv demo_daemon = demo_fp 1" by (simp add: demo_daemon_def demo_denv_same demo_fp_def)
  have fits: "length (bincode_serialize demo_denv (Message (message_new 5 6 []))) \<le> 8172"
    by (simp add: demo_denv_same demo_serialize_def put_message_def put_nat_def message_new_def)
  show ?thesis
    using oversize_message_livelock[OF demo_daemon_laws demo_daemon_inv, where osk = demo_osk
        and ep = "\<lparr>ep_fingerprint = demo_fp 2, ep_dock = 6\<rparr>" and q = "[demo_fp 1, demo_fp 2]" and dock = 5
        and m = "replicate 8183 0" and ms = "[[1]]", unfolded me]
      demo_honest fits demo_route_exists by (simp add: demo_denv_same)
qed

section \<open>Arrival and receipt\<close>

text \<open>The arrival of messages for the node, one after the other.\<close>

primrec arrive ::
    "('l, 'z) daemon_env_scheme \<Rightarrow> fingerprint \<Rightarrow> (message \<times> fingerprint) list \<Rightarrow> ('l daemon, peel_forward_error, unit) proc" where
  "arrive E me [] = ret ()"
| "arrive E me (mf # mfs) =
     bind_proc (process_inner_pkt E (Message (fst mf)) (snd mf) me) (\<lambda>_. arrive E me mfs)"

lemma arrive_queues:
  assumes "\<And>mf. mf \<in> set mfs \<Longrightarrow> dest_dock (fst mf) = d" "socket_recv_queues s (endpoint_new me d) = Some q"
    "length q + length mfs \<le> 1000"
  shows "arrive E me mfs s = Some (Inr (), s\<lparr>socket_recv_queues := (socket_recv_queues s)(endpoint_new me d \<mapsto> q @ mfs)\<rparr>)"
  using assms
proof (induction mfs arbitrary: s q)
  case Nil
  then have "(socket_recv_queues s)(endpoint_new me d \<mapsto> q) = socket_recv_queues s" by (intro fun_upd_idem)
  then show ?case by (simp add: ret_def)
next
  case (Cons mf mfs)
  let ?s = "s\<lparr>socket_recv_queues := (socket_recv_queues s)(endpoint_new me d \<mapsto> q @ [mf])\<rparr>"
  have "process_inner_pkt E (Message (fst mf)) (snd mf) me s = Some (Inr (), ?s)"
    using Cons.prems by (simp add: process_inner_pkt_def Let_def try_send_def)
  moreover have "arrive E me mfs ?s = Some (Inr (), s\<lparr>socket_recv_queues :=
      (socket_recv_queues s)(endpoint_new me d \<mapsto> q @ mf # mfs)\<rparr>)"
    using Cons.IH[of ?s "q @ [mf]"] Cons.prems by (simp add: fun_upd_def if_distrib cong: if_cong)
  ultimately show ?case by (simp add: bind_proc_step fun_upd_def)
qed

text \<open>
  (C18) A socket receives what arrives at its dock.  A socket with nothing pending, bound and not
  replaced since, at which at most a thousand messages arrive, yields exactly their parts, in the
  order of arrival and of the parts within each message, each with the fingerprint and source
  dock of its sender, and then waits.
\<close>

theorem n2r_socket_receives:
  assumes bound: "bound_dock k = endpoint_new me d" "socket_recv_queues s (endpoint_new me d) = Some []"
    and idle: "incoming_queue k = []"
    and ms: "\<forall>mf \<in> set mfs. dest_dock (fst mf) = d" "length mfs \<le> 1000"
  shows "\<exists>s1 k' s'. arrive E me mfs s = Some (Inr (), s1) \<and>
           takes n2r_next (length (concat (map unbatch mfs))) (k, s1) = Some (concat (map unbatch mfs), (k', s')) \<and>
           n2r_recv_from k' s' = None"
proof -
  let ?s = "s\<lparr>socket_recv_queues := (socket_recv_queues s)(endpoint_new me d \<mapsto> mfs)\<rparr>"
  have 1: "arrive E me mfs s = Some (Inr (), ?s)"
    using arrive_queues[of mfs d s me "[]" E] bound ms by simp
  have live: "n2r_live (k, ?s)" and pend: "n2r_pending (k, ?s) = concat (map unbatch mfs)"
    using bound(1) idle by (simp_all add: n2r_live_def n2r_pending_def)
  obtain k' s' where 2: "takes n2r_next (length (concat (map unbatch mfs))) (k, ?s) = Some (concat (map unbatch mfs), (k', s'))"
      "n2r_pending (k', s') = []" "n2r_live (k', s')"
    using n2r_source.takes_pending[OF live, of "length (concat (map unbatch mfs))"] pend by auto
  have "n2r_recv_from k' s' = None" using n2r_recv_spec[OF 2(3)] 2(2) by simp
  then show ?thesis using 1 2(1) by blast
qed

theorem n2r_socket_receives_witness:
  "\<exists>s1 k' s'. arrive demo_denv (demo_fp 1) [(message_new 9 5 [[1], [2]], demo_fp 2), (message_new 8 5 [[3]], demo_fp 3)] demo_daemon
       = Some (Inr (), s1) \<and>
     takes n2r_next 3 (demo_socket, s1) = Some ([([1], endpoint_new (demo_fp 2) 9), ([2], endpoint_new (demo_fp 2) 9),
       ([3], endpoint_new (demo_fp 3) 8)], (k', s')) \<and> n2r_recv_from k' s' = None"
  using n2r_socket_receives[of demo_socket "demo_fp 1" 5 demo_daemon
      "[(message_new 9 5 [[1], [2]], demo_fp 2), (message_new 8 5 [[3]], demo_fp 3)]" demo_denv]
  by (simp add: demo_socket_def demo_daemon_def unbatch_def message_new_def numeral_eq_Suc)

section \<open>Binding and dropping\<close>

text \<open>
  The draw of a dock ends as soon as a free dock is drawn, and yields a free one.
\<close>

lemma free_dock_free:
  "\<not> used (draw (n + k)) \<Longrightarrow> \<exists>d. free_dock draw used n = Some d \<and> \<not> used d"
proof (induction k arbitrary: n)
  case 0 then show ?case by (simp add: free_dock.simps)
next
  case (Suc k)
  then have "\<exists>d. free_dock draw used (Suc n) = Some d \<and> \<not> used d" by simp
  then show ?case by (cases "used (draw n)") (simp_all add: free_dock.simps[of draw used n])
qed

text \<open>
  The queue of an endpoint belongs to whoever bound it last, but dropping any socket of that
  endpoint removes it: a socket bound again before its predecessor is dropped goes deaf.
\<close>

lemma drop_deafens_successor:
  assumes "n2r_bind C draw isk (Some d) s = Some (k1, s1)" "n2r_bind C draw isk (Some d) s1 = Some (k2, s2)"
    and "dest_dock m = d"
  shows "n2r_recv_from k2 (n2r_drop k1 s2) = Some (Inl N2rRecvError, k2, n2r_drop k1 s2)"
    and "process_inner_pkt E (Message m) fp (my_fingerprint C isk) (n2r_drop k1 s2) =
      Some (Inl (Err (NoSocketListening (n2r_local_endpoint k2))), n2r_drop k1 s2)"
  using assms by (auto simp: n2r_bind_def Let_def n2r_drop_def n2r_recv_from_def process_inner_pkt_def n2r_local_endpoint_def)

end
