(* ===== verification/Haven_Socket.thy ===== *)
theory Haven_Socket
  imports Haven_Session N2r_Socket
begin

text \<open>
  \<open>src/socket/haven_socket.rs\<close>, the rendezvous loop of \<open>src/daemon.rs\<close> and the socket type of
  \<open>src/socket.rs\<close>.  A haven socket keeps one session per remote endpoint on top of an N2R socket;
  the tasks of the sessions run between the operations of the socket, so each of their
  turns is an operation of its own here.  The text of errors is produced by \<open>show_err\<close>, which stands for the
  formatting of the anyhow crate.
\<close>

section \<open>Haven sockets\<close>

record 'r haven_socket =
  hv_n2r :: n2r_socket
  hv_isk :: identity_secret
  hv_rendezvous :: "fingerprint option"
  crypt_sessions :: "endpoint \<rightharpoonup> 'r crypt_session"
  incoming_decrypted :: "(bytes \<times> endpoint) list"

definition haven_bind ::
    "'z crypto_scheme \<Rightarrow> (nat \<Rightarrow> dock) \<Rightarrow> identity_secret \<Rightarrow> dock option \<Rightarrow> fingerprint option \<Rightarrow> 'l daemon
       \<Rightarrow> ('r haven_socket \<times> 'l daemon) option" where
  "haven_bind C draw isk dock rendezvous s =
     map_option (\<lambda>(k, s'). (\<lparr>hv_n2r = k, hv_isk = isk, hv_rendezvous = rendezvous, crypt_sessions = Map.empty,
                           incoming_decrypted = []\<rparr>, s')) (n2r_bind C draw isk dock s)"

definition haven_send_to ::
    "('r, 'z) haven_env_scheme \<Rightarrow> (session_error \<Rightarrow> string) \<Rightarrow> bytes \<Rightarrow> endpoint \<Rightarrow> 'r haven_socket
       \<Rightarrow> (socket_send_error + unit) \<times> 'r haven_socket" where
  "haven_send_to E show_err msg ep h =
     (case (case crypt_sessions h ep of
              Some enc \<Rightarrow> Inr enc
            | None \<Rightarrow> session_new E (hv_isk h) ep (hv_rendezvous h) None) of
        Inl e \<Rightarrow> (Inl (HavenEncryptionError (show_err e)), h)
      | Inr enc \<Rightarrow>
          (case session_send_outgoing msg enc of
             Inl e \<Rightarrow> (Inl (HavenEncryptionError (show_err e)), h\<lparr>crypt_sessions := (crypt_sessions h)(ep := None)\<rparr>)
           | Inr enc' \<Rightarrow> (Inr (), h\<lparr>crypt_sessions := (crypt_sessions h)(ep \<mapsto> enc')\<rparr>)))"

text \<open>\<open>None\<close> means that the call waits.\<close>

definition haven_recv_from :: "'r haven_socket \<Rightarrow> ((bytes \<times> endpoint) \<times> 'r haven_socket) option" where
  "haven_recv_from h = (case incoming_decrypted h of [] \<Rightarrow> None | x # xs \<Rightarrow> Some (x, h\<lparr>incoming_decrypted := xs\<rparr>))"

definition haven_local_endpoint :: "'r haven_socket \<Rightarrow> endpoint" where
  "haven_local_endpoint h = n2r_local_endpoint (hv_n2r h)"

text \<open>Sessions that outlive half an hour are dropped.\<close>

definition expire_sessions :: "endpoint set \<Rightarrow> 'r haven_socket \<Rightarrow> 'r haven_socket" where
  "expire_sessions eps h = h\<lparr>crypt_sessions := crypt_sessions h |` (- eps)\<rparr>"

section \<open>Dispatching incoming messages\<close>

datatype recv_task_error =
    RecvFailed socket_recv_error | BadForwardBody | BadHavenMsg | StrayMessage | SessionEnded session_error
  | HandshakeRefused session_error

definition haven_dispatch ::
    "('r, 'z) haven_env_scheme \<Rightarrow> bytes \<Rightarrow> 'r haven_socket \<Rightarrow> (recv_task_error + unit) \<times> 'r haven_socket" where
  "haven_dispatch E n2r_msg h =
     (case destdcode_forward E n2r_msg of
        None \<Rightarrow> (Inl BadForwardBody, h)
      | Some (content, remote) \<Rightarrow>
          (case destdcode_haven_msg E content of
             None \<Rightarrow> (Inl BadHavenMsg, h)
           | Some hm \<Rightarrow>
               (case hm of
                  ClientHs hs \<Rightarrow>
                    (case session_new E (hv_isk h) remote (hv_rendezvous h) (Some (hs, ep_fingerprint remote)) of
                       Inl e \<Rightarrow> (Inl (HandshakeRefused e), h)
                     | Inr new \<Rightarrow> (Inr (), h\<lparr>crypt_sessions := (crypt_sessions h)(remote \<mapsto> new)\<rparr>))
                | _ \<Rightarrow>
                    (case crypt_sessions h remote of
                       None \<Rightarrow> (Inl StrayMessage, h)
                     | Some enc \<Rightarrow>
                         (case session_send_incoming hm enc of
                            Inl e \<Rightarrow> (Inl (SessionEnded e), h)
                          | Inr enc' \<Rightarrow> (Inr (), h\<lparr>crypt_sessions := (crypt_sessions h)(remote \<mapsto> enc')\<rparr>))))))"

text \<open>One turn of \<open>recv_task\<close>, which is respawned after an error; \<open>None\<close> means that it waits.\<close>

definition recv_task_turn ::
    "('r, 'z) haven_env_scheme \<Rightarrow> 'r haven_socket \<Rightarrow> 'l daemon
       \<Rightarrow> ((recv_task_error + unit) \<times> 'r haven_socket \<times> 'l daemon) option" where
  "recv_task_turn E h s =
     map_option (\<lambda>(r, k, s'). case r of
         Inl e \<Rightarrow> (Inl (RecvFailed e), h\<lparr>hv_n2r := k\<rparr>, s')
       | Inr (n2r_msg, _) \<Rightarrow> let (r', h') = haven_dispatch E n2r_msg (h\<lparr>hv_n2r := k\<rparr>) in (r', h', s'))
       (n2r_recv_from (hv_n2r h) s)"

section \<open>Turns of the sessions\<close>

definition put_out :: "(bytes \<times> endpoint) list \<Rightarrow> n2r_socket \<Rightarrow> n2r_socket" where
  "put_out outs k = fold (\<lambda>(b, ep) k. snd (n2r_send_to b ep k)) outs k"

definition put_in :: "(bytes \<times> endpoint) list \<Rightarrow> (bytes \<times> endpoint) list \<Rightarrow> (bytes \<times> endpoint) list" where
  "put_in ds q = fold (send_or_drop 1000) ds q"

definition run_start ::
    "('r, 'z) haven_env_scheme \<Rightarrow> (fingerprint \<Rightarrow> dht_error + haven_locator option) \<Rightarrow> onion_secret \<Rightarrow> endpoint
       \<Rightarrow> 'r haven_socket \<Rightarrow> 'r haven_socket" where
  "run_start E lookup osk ep h = (case crypt_sessions h ep of None \<Rightarrow> h
     | Some enc \<Rightarrow> let (outs, enc') = session_start E lookup osk enc
         in h\<lparr>crypt_sessions := (crypt_sessions h)(ep \<mapsto> enc'), hv_n2r := put_out outs (hv_n2r h)\<rparr>)"

definition run_up ::
    "('r, 'z) haven_env_scheme \<Rightarrow> (fingerprint \<Rightarrow> dht_error + haven_locator option) \<Rightarrow> endpoint \<Rightarrow> 'r haven_socket \<Rightarrow> 'r haven_socket" where
  "run_up E lookup ep h = (case crypt_sessions h ep of None \<Rightarrow> h
     | Some enc \<Rightarrow> let (outs, enc') = session_up E lookup enc
         in h\<lparr>crypt_sessions := (crypt_sessions h)(ep \<mapsto> enc'), hv_n2r := put_out outs (hv_n2r h)\<rparr>)"

definition run_down :: "('r, 'z) haven_env_scheme \<Rightarrow> endpoint \<Rightarrow> 'r haven_socket \<Rightarrow> 'r haven_socket" where
  "run_down E ep h = (case crypt_sessions h ep of None \<Rightarrow> h
     | Some enc \<Rightarrow> let (ds, enc') = session_down E enc
         in h\<lparr>crypt_sessions := (crypt_sessions h)(ep \<mapsto> enc'), incoming_decrypted := put_in ds (incoming_decrypted h)\<rparr>)"

section \<open>Registration\<close>

text \<open>
  One round of the task by which a haven keeps itself known: the registration is sent to the
  rendezvous node (\<open>None\<close> a timeout, \<open>Some (Inl _)\<close> an error), and after a success the
  locator is published.
\<close>

definition register_round ::
    "('r, 'z) haven_env_scheme \<Rightarrow> (register_haven_req \<Rightarrow> (string + (verify_error + unit)) option) \<Rightarrow> relay_graph
       \<Rightarrow> register_haven_req \<Rightarrow> identity_secret \<Rightarrow> onion_public \<Rightarrow> fingerprint \<Rightarrow> network \<Rightarrow> network" where
  "register_round E alloc g forward_req isk opk rob net =
     (case alloc forward_req of
        Some (Inl _) \<Rightarrow> net
      | None \<Rightarrow> net
      | _ \<Rightarrow> dht_insert E g (locator_new E isk opk rob) net)"

section \<open>The rendezvous node\<close>

text \<open>
  The body of \<open>rendezvous_forward_loop\<close> for a message received at the time \<open>now\<close>, in milliseconds: what is
  sent on, and the pairs of sources and destinations it remembers.  They are kept in a cache that
  holds an entry for an hour after it was last inserted (\<open>contains_key\<close> does not keep it alive) and at most
  100000 entries; the entries it evicts to stay below that limit are chosen by the cache, so evictions are
  operations of their own, of any entries at any time.  An undecodable message ends the loop, which is
  respawned with no memory.
\<close>

type_synonym seen_cache = "endpoint \<times> endpoint \<rightharpoonup> instant"

definition SEEN_IDLE :: instant where
  "SEEN_IDLE = 60 * 60 * 1000"

definition seen_contains_key :: "instant \<Rightarrow> endpoint \<times> endpoint \<Rightarrow> seen_cache \<Rightarrow> bool" where
  "seen_contains_key now key seen_srcs = (case seen_srcs key of None \<Rightarrow> False | Some t \<Rightarrow> now < t + SEEN_IDLE)"

definition rendezvous_forward ::
    "('r, 'z) haven_env_scheme \<Rightarrow> fingerprint set \<Rightarrow> instant \<Rightarrow> bytes \<times> endpoint \<Rightarrow> seen_cache
       \<Rightarrow> (unit + (bytes \<times> endpoint) option) \<times> seen_cache" where
  "rendezvous_forward E registered now rcvd seen_srcs =
     (case rcvd of (msg, src_ep) \<Rightarrow>
        (case destdcode_forward E msg of
           None \<Rightarrow> (Inl (), seen_srcs)
         | Some (content, dest_ep) \<Rightarrow>
             let is_valid_dest = ep_fingerprint dest_ep \<in> registered;
                 is_seen_src = seen_contains_key now (dest_ep, src_ep) seen_srcs;
                 seen_srcs' = (if is_valid_dest then seen_srcs((src_ep, dest_ep) \<mapsto> now) else seen_srcs)
             in if is_valid_dest \<or> is_seen_src
                then (Inr (Some (stdcode_forward E (content, src_ep), dest_ep)), seen_srcs')
                else (Inr None, seen_srcs')))"

datatype rendezvous_op =
    RvMessage "fingerprint set" instant "bytes \<times> endpoint"
  | RvEvict "(endpoint \<times> endpoint) set"

fun rendezvous_turn :: "('r, 'z) haven_env_scheme \<Rightarrow> rendezvous_op \<Rightarrow> seen_cache \<Rightarrow> seen_cache" where
  "rendezvous_turn E (RvMessage registered now rcvd) seen_srcs =
     (case rendezvous_forward E registered now rcvd seen_srcs of (Inl _, _) \<Rightarrow> Map.empty | (Inr _, seen) \<Rightarrow> seen)"
| "rendezvous_turn E (RvEvict keys) seen_srcs = seen_srcs |` (- keys)"

section \<open>Sockets\<close>

datatype 'r inner_socket = Haven "'r haven_socket" | N2r n2r_socket

definition socket_send_to ::
    "('r, 'z) haven_env_scheme \<Rightarrow> (session_error \<Rightarrow> string) \<Rightarrow> bytes \<Rightarrow> endpoint \<Rightarrow> 'r inner_socket
       \<Rightarrow> (socket_send_error + unit) \<times> 'r inner_socket" where
  "socket_send_to E show_err msg ep skt = (case skt of
     N2r k \<Rightarrow> let (r, k') = n2r_send_to msg ep k in (r, N2r k')
   | Haven h \<Rightarrow> let (r, h') = haven_send_to E show_err msg ep h in (r, Haven h'))"

definition socket_recv_from ::
    "'r inner_socket \<Rightarrow> 'l daemon \<Rightarrow> ((socket_recv_error + bytes \<times> endpoint) \<times> 'r inner_socket \<times> 'l daemon) option" where
  "socket_recv_from skt s = (case skt of
     N2r k \<Rightarrow> map_option (\<lambda>(r, k', s'). (r, N2r k', s')) (n2r_recv_from k s)
   | Haven h \<Rightarrow> map_option (\<lambda>(x, h'). (Inr x, Haven h', s)) (haven_recv_from h))"

definition socket_local_endpoint :: "'r inner_socket \<Rightarrow> endpoint" where
  "socket_local_endpoint skt = (case skt of Haven h \<Rightarrow> haven_local_endpoint h | N2r k \<Rightarrow> n2r_local_endpoint k)"
section \<open>The memory of the rendezvous node\<close>

text \<open>
  At the time \<open>t\<close>, the first endpoint of a pair sent a message to the second, a haven registered then; the
  messages that can be decoded; the times of messages.
\<close>

definition writes :: "('r, 'z) haven_env_scheme \<Rightarrow> endpoint \<times> endpoint \<Rightarrow> instant \<Rightarrow> rendezvous_op \<Rightarrow> bool" where
  "writes E key t x \<longleftrightarrow> (\<exists>registered msg content. x = RvMessage registered t (msg, fst key) \<and>
     destdcode_forward E msg = Some (content, snd key) \<and> ep_fingerprint (snd key) \<in> registered)"

definition decodable :: "('r, 'z) haven_env_scheme \<Rightarrow> rendezvous_op \<Rightarrow> bool" where
  "decodable E x = (case x of RvMessage _ _ rcvd \<Rightarrow> destdcode_forward E (fst rcvd) \<noteq> None | RvEvict _ \<Rightarrow> True)"

definition evicts :: "endpoint \<times> endpoint \<Rightarrow> rendezvous_op \<Rightarrow> bool" where
  "evicts key x = (case x of RvMessage _ _ _ \<Rightarrow> False | RvEvict keys \<Rightarrow> key \<in> keys)"

fun message_times :: "rendezvous_op list \<Rightarrow> instant list" where
  "message_times [] = []"
| "message_times (RvMessage _ t _ # ops) = t # message_times ops"
| "message_times (RvEvict _ # ops) = message_times ops"

text \<open>A message of the pair at the time \<open>t\<close>, since which the pair was not evicted.\<close>

definition remembered :: "('r, 'z) haven_env_scheme \<Rightarrow> endpoint \<times> endpoint \<Rightarrow> rendezvous_op list \<Rightarrow> instant \<Rightarrow> bool" where
  "remembered E key ops t \<longleftrightarrow> (\<exists>xs x ys. ops = xs @ x # ys \<and> writes E key t x \<and> (\<forall>y \<in> set ys. \<not> evicts key y))"

lemma rendezvous_turn_cases:
  assumes "decodable E x"
  obtains t where "writes E key t x" "rendezvous_turn E x seen key = Some t" "message_times [x] = [t]" "\<not> evicts key x"
    | "\<And>t. \<not> writes E key t x" "evicts key x" "rendezvous_turn E x seen key = None"
    | "\<And>t. \<not> writes E key t x" "\<not> evicts key x" "rendezvous_turn E x seen key = seen key"
proof (cases x)
  case (RvMessage reg t rcvd)
  obtain msg src content dest where m: "rcvd = (msg, src)" "destdcode_forward E msg = Some (content, dest)"
    using assms RvMessage by (cases rcvd) (auto simp: decodable_def)
  show thesis
  proof (cases "key = (src, dest) \<and> ep_fingerprint dest \<in> reg")
    case True
    then show thesis using RvMessage m
      by (intro that(1)[of t]) (auto simp: writes_def evicts_def rendezvous_forward_def Let_def split: if_splits)
  next
    case False
    then show thesis using RvMessage m
      by (intro that(3)) (auto simp: writes_def evicts_def rendezvous_forward_def Let_def split: if_splits)
  qed
next
  case (RvEvict keys)
  then show thesis using that(2,3) by (cases "key \<in> keys") (auto simp: writes_def evicts_def)
qed

lemma remembered_Nil [simp]: "\<not> remembered E key [] t"
  by (simp add: remembered_def)

lemma remembered_Cons:
  "remembered E key (x # ops) t \<longleftrightarrow> remembered E key ops t \<or> writes E key t x \<and> (\<forall>y \<in> set ops. \<not> evicts key y)"
proof
  assume "remembered E key (x # ops) t"
  then obtain xs z ys where s: "x # ops = xs @ z # ys" "writes E key t z" "\<forall>y \<in> set ys. \<not> evicts key y" by (auto simp: remembered_def)
  then show "remembered E key ops t \<or> writes E key t x \<and> (\<forall>y \<in> set ops. \<not> evicts key y)"
    by (cases xs) (auto simp: remembered_def)
next
  assume "remembered E key ops t \<or> writes E key t x \<and> (\<forall>y \<in> set ops. \<not> evicts key y)"
  then show "remembered E key (x # ops) t"
  proof
    assume "remembered E key ops t"
    then obtain xs z ys where "ops = xs @ z # ys" "writes E key t z" "\<forall>y \<in> set ys. \<not> evicts key y" by (auto simp: remembered_def)
    then show ?thesis unfolding remembered_def by (intro exI[of _ "x # xs"] exI[of _ z] exI[of _ ys]) simp
  next
    assume "writes E key t x \<and> (\<forall>y \<in> set ops. \<not> evicts key y)"
    then show ?thesis unfolding remembered_def by (intro exI[of _ "[]"] exI[of _ x] exI[of _ ops]) simp
  qed
qed

text \<open>What the cache holds of a pair, and that it holds the last message.\<close>

lemma seen_remembered:
  assumes "\<forall>x \<in> set ops. decodable E x"
  shows "fold (rendezvous_turn E) ops seen key = Some t \<Longrightarrow> remembered E key ops t \<or> seen key = Some t \<and> (\<forall>y \<in> set ops. \<not> evicts key y)"
  using assms
proof (induction ops arbitrary: seen)
  case (Cons x ops)
  have x: "decodable E x" using Cons.prems(2) by simp
  have "remembered E key ops t \<or> rendezvous_turn E x seen key = Some t \<and> (\<forall>y \<in> set ops. \<not> evicts key y)"
    using Cons.IH[of "rendezvous_turn E x seen"] Cons.prems by simp
  then show ?case by (cases rule: rendezvous_turn_cases[OF x, where key = key and seen = seen]) (auto simp: remembered_Cons)
qed simp

lemma remembered_seen:
  assumes "\<forall>x \<in> set ops. decodable E x" "sorted (message_times ops)"
    and "remembered E key ops t \<or> seen key = Some t \<and> (\<forall>y \<in> set ops. \<not> evicts key y) \<and> (\<forall>u \<in> set (message_times ops). t \<le> u)"
  shows "\<exists>u \<ge> t. fold (rendezvous_turn E) ops seen key = Some u"
  using assms
proof (induction ops arbitrary: seen t)
  case (Cons x ops)
  have x: "decodable E x" and ops: "\<forall>x \<in> set ops. decodable E x" using Cons.prems(1) by simp_all
  have times: "message_times (x # ops) = message_times [x] @ message_times ops" by (cases x) simp_all
  have sorted: "sorted (message_times ops)" using Cons.prems(2) unfolding times by (simp add: sorted_append)
  show ?case
  proof (cases "remembered E key ops t")
    case True
    then show ?thesis using Cons.IH[OF ops sorted, of t "rendezvous_turn E x seen"] by simp
  next
    case False
    show ?thesis
    proof (cases rule: rendezvous_turn_cases[OF x, where key = key and seen = seen])
      case (1 t')
      have w: "\<forall>y \<in> set ops. \<not> evicts key y" using Cons.prems(3) False by (auto simp: remembered_Cons)
      have "t \<le> t'"
      proof (cases "writes E key t x")
        case True then show ?thesis using 1 by (auto simp: writes_def)
      next
        case no: False
        then show ?thesis using Cons.prems(3) False 1(3) unfolding times by (auto simp: remembered_Cons)
      qed
      moreover have "\<forall>u \<in> set (message_times ops). t' \<le> u" using Cons.prems(2) 1(3) unfolding times by (simp add: sorted_append)
      ultimately show ?thesis using Cons.IH[OF ops sorted, of t' "rendezvous_turn E x seen"] 1(2) w by (auto intro: order_trans)
    next
      case 2
      then show ?thesis using Cons.prems(3) False by (auto simp: remembered_Cons)
    next
      case 3
      then have "seen key = Some t" "\<forall>y \<in> set ops. \<not> evicts key y" "\<forall>u \<in> set (message_times ops). t \<le> u"
        using Cons.prems(3) False unfolding times by (auto simp: remembered_Cons)
      then show ?thesis using Cons.IH[OF ops sorted, of t "rendezvous_turn E x seen"] 3(3) by simp
    qed
  qed
qed simp

lemma rendezvous_run_reset:
  assumes "pre = [] \<or> \<not> decodable E (last pre)"
  shows "fold (rendezvous_turn E) pre Map.empty = Map.empty"
proof (cases pre rule: rev_cases)
  case (snoc ys y)
  then obtain reg t rcvd where y: "y = RvMessage reg t rcvd" "destdcode_forward E (fst rcvd) = None"
    using assms by (cases y) (auto simp: decodable_def simp del: not_None_eq)
  have "rendezvous_turn E y seen = Map.empty" for seen using y by (cases rcvd) (simp add: rendezvous_forward_def)
  then show ?thesis using snoc by simp
qed simp

section \<open>The invariant of haven sockets\<close>

definition session_ok :: "('r, 'z) haven_env_scheme \<Rightarrow> 'r haven_socket \<Rightarrow> endpoint \<Rightarrow> 'r crypt_session \<Rightarrow> bool" where
  "session_ok E h ep s \<longleftrightarrow> sess_remote s = ep \<and> sess_isk s = hv_isk h \<and> sess_rendezvous s = hv_rendezvous h \<and>
     (\<forall>hs. sess_phase s = Starting (Some hs) \<longrightarrow> fingerprint_of E (hs_id_pk hs) = ep_fingerprint ep \<and>
        verify E (hs_id_pk hs) (handshake_to_sign E hs) (hs_sig hs) = Inr ())"

definition haven_inv :: "('r, 'z) haven_env_scheme \<Rightarrow> 'r haven_socket \<Rightarrow> bool" where
  "haven_inv E h \<longleftrightarrow> (\<forall>ep s. crypt_sessions h ep = Some s \<longrightarrow> session_ok E h ep s) \<and> length (incoming_decrypted h) \<le> 1000"

datatype haven_op =
    HSend bytes endpoint | HRecv | HDispatch bytes | HExpire "endpoint set"
  | HStart "fingerprint \<Rightarrow> dht_error + haven_locator option" onion_secret endpoint
  | HUp "fingerprint \<Rightarrow> dht_error + haven_locator option" endpoint | HDown endpoint

fun haven_step :: "('r, 'z) haven_env_scheme \<Rightarrow> haven_op \<Rightarrow> 'r haven_socket \<Rightarrow> 'r haven_socket" where
  "haven_step E (HSend m ep) h = snd (haven_send_to E (\<lambda>_. []) m ep h)"
| "haven_step E HRecv h = (case haven_recv_from h of None \<Rightarrow> h | Some (x, h') \<Rightarrow> h')"
| "haven_step E (HDispatch b) h = snd (haven_dispatch E b h)"
| "haven_step E (HExpire eps) h = expire_sessions eps h"
| "haven_step E (HStart lookup osk ep) h = run_start E lookup osk ep h"
| "haven_step E (HUp lookup ep) h = run_up E lookup ep h"
| "haven_step E (HDown ep) h = run_down E ep h"

lemma session_ok_cong: "hv_isk h' = hv_isk h \<Longrightarrow> hv_rendezvous h' = hv_rendezvous h \<Longrightarrow> session_ok E h' ep s = session_ok E h ep s"
  by (simp add: session_ok_def)

lemma haven_inv_upd:
  assumes inv: "haven_inv E h" and ok: "session_ok E h ep s"
    and h': "crypt_sessions h' = (crypt_sessions h)(ep \<mapsto> s)" "hv_isk h' = hv_isk h" "hv_rendezvous h' = hv_rendezvous h"
      "length (incoming_decrypted h') \<le> 1000"
  shows "haven_inv E h'"
  using assms session_ok_cong[of h' h] by (auto simp: haven_inv_def)

lemma session_new_ok:
  assumes "session_new E (hv_isk h) ep (hv_rendezvous h) ci = Inr s" "\<And>hs fp. ci = Some (hs, fp) \<Longrightarrow> fp = ep_fingerprint ep"
  shows "session_ok E h ep s"
  using assms by (auto simp: session_new_def Let_def session_ok_def split: option.splits prod.splits sum.splits if_splits)

lemma session_ok_queues:
  "session_send_outgoing m s = Inr s' \<Longrightarrow> session_ok E h ep s \<Longrightarrow> session_ok E h ep s'"
  "session_send_incoming hm s = Inr s' \<Longrightarrow> session_ok E h ep s \<Longrightarrow> session_ok E h ep s'"
  by (auto simp: session_send_outgoing_def session_send_incoming_def session_ok_def split: phase.splits)

text \<open>No turn of a session goes back to the start.\<close>

lemma session_ok_turns:
  assumes "session_ok E h ep s"
  shows "session_ok E h ep (snd (session_start E lookup osk s))" "session_ok E h ep (snd (session_up E lookup s))"
    "session_ok E h ep (snd (session_down E s))"
  using assms
  by (auto simp: session_ok_def session_start_def session_up_def session_down_def running_def Let_def split_beta
      split: phase.splits option.splits sum.splits list.splits haven_msg.splits)

lemma length_put_in: "length q \<le> 1000 \<Longrightarrow> length (put_in ds q) \<le> 1000"
  unfolding put_in_def by (induction ds arbitrary: q) (simp_all add: length_send_or_drop)

lemma haven_inv_stored: "haven_inv E h \<Longrightarrow> crypt_sessions h ep = Some x \<Longrightarrow> session_ok E h ep x"
  by (simp add: haven_inv_def)

lemma haven_inv_put:
  assumes inv: "haven_inv E h" and ok: "session_ok E h ep y"
  shows "haven_inv E (h\<lparr>crypt_sessions := (crypt_sessions h)(ep \<mapsto> y)\<rparr>)"
    "haven_inv E (h\<lparr>crypt_sessions := (crypt_sessions h)(ep \<mapsto> y), hv_n2r := k\<rparr>)"
    "haven_inv E (h\<lparr>crypt_sessions := (crypt_sessions h)(ep \<mapsto> y), incoming_decrypted := put_in ds (incoming_decrypted h)\<rparr>)"
proof -
  have len: "length (incoming_decrypted h) \<le> 1000" using inv by (simp add: haven_inv_def)
  show "haven_inv E (h\<lparr>crypt_sessions := (crypt_sessions h)(ep \<mapsto> y)\<rparr>)"
    "haven_inv E (h\<lparr>crypt_sessions := (crypt_sessions h)(ep \<mapsto> y), hv_n2r := k\<rparr>)"
    "haven_inv E (h\<lparr>crypt_sessions := (crypt_sessions h)(ep \<mapsto> y), incoming_decrypted := put_in ds (incoming_decrypted h)\<rparr>)"
    by (rule haven_inv_upd[OF inv ok]; simp add: len length_put_in)+
qed

lemma haven_send_inv:
  assumes inv: "haven_inv E h"
  shows "haven_inv E (snd (haven_send_to E show_err m ep h))"
proof (cases "case crypt_sessions h ep of Some enc \<Rightarrow> Inr enc | None \<Rightarrow> session_new E (hv_isk h) ep (hv_rendezvous h) None")
  case (Inl e) then show ?thesis using inv by (simp add: haven_send_to_def)
next
  case (Inr enc)
  then have ok: "session_ok E h ep enc"
    using haven_inv_stored[OF inv, of ep] session_new_ok[of E h ep None enc] by (auto split: option.splits)
  show ?thesis
  proof (cases "session_send_outgoing m enc")
    case (Inl e)
    then show ?thesis using Inr inv by (auto simp: haven_send_to_def haven_inv_def session_ok_def)
  next
    case ok': (Inr enc')
    show ?thesis using Inr ok' haven_inv_put(1)[OF inv session_ok_queues(1)[OF ok' ok]] by (simp add: haven_send_to_def)
  qed
qed

lemma haven_dispatch_inv:
  assumes inv: "haven_inv E h"
  shows "haven_inv E (snd (haven_dispatch E b h))"
proof (cases "destdcode_forward E b")
  case None then show ?thesis using inv by (simp add: haven_dispatch_def)
next
  case (Some cr)
  obtain c r where cr: "cr = (c, r)" by (cases cr)
  have old: "session_ok E h r x'" if "crypt_sessions h r = Some x" "session_send_incoming m x = Inr x'" for m x x'
    using session_ok_queues(2)[OF that(2) haven_inv_stored[OF inv that(1)]] .
  have new: "session_ok E h r x" if "session_new E (hv_isk h) r (hv_rendezvous h) (Some (hs, ep_fingerprint r)) = Inr x" for hs x
    using session_new_ok[OF that] by simp
  show ?thesis using Some cr inv
    by (auto simp: haven_dispatch_def split: option.splits haven_msg.splits sum.splits intro: haven_inv_put(1)[OF inv] old new)
qed

lemma haven_turns_inv:
  assumes inv: "haven_inv E h"
  shows "haven_inv E (run_start E lookup osk ep h)" "haven_inv E (run_up E lookup ep h)" "haven_inv E (run_down E ep h)"
proof -
  show "haven_inv E (run_start E lookup osk ep h)"
    using inv haven_inv_put(2)[OF inv session_ok_turns(1)[OF haven_inv_stored[OF inv]]]
    by (cases "crypt_sessions h ep") (simp_all add: run_start_def split_beta Let_def)
  show "haven_inv E (run_up E lookup ep h)"
    using inv haven_inv_put(2)[OF inv session_ok_turns(2)[OF haven_inv_stored[OF inv]]]
    by (cases "crypt_sessions h ep") (simp_all add: run_up_def split_beta Let_def)
  show "haven_inv E (run_down E ep h)"
    using inv haven_inv_put(3)[OF inv session_ok_turns(3)[OF haven_inv_stored[OF inv]]]
    by (cases "crypt_sessions h ep") (simp_all add: run_down_def split_beta Let_def)
qed

lemma haven_step_inv:
  assumes inv: "haven_inv E h"
  shows "haven_inv E (haven_step E oper h)"
proof (cases oper)
  case HRecv then show ?thesis using inv
    by (auto simp: haven_recv_from_def haven_inv_def session_ok_def split: list.splits)
next
  case (HExpire eps) then show ?thesis using inv
    by (auto simp: expire_sessions_def haven_inv_def session_ok_def restrict_map_def split: if_splits)
qed (simp_all add: inv haven_send_inv haven_dispatch_inv haven_turns_inv)

interpretation haven_machine: stable_machine "haven_step E" "haven_inv E" for E :: "('r, 'z) haven_env_scheme"
  by unfold_locales (rule haven_step_inv)

section \<open>Properties\<close>

text \<open>
  (C17) What a rendezvous node forwards.  After any messages and any evictions from its memory, what happened since the
  last undecodable message being \<open>suf\<close>, a message is forwarded exactly if its destination is a
  registered haven, or if less than an hour ago the destination itself sent a message to the sender, a haven
  registered at that time, and the cache did not evict this since; what is
  forwarded is the content with the true source, to the named destination.  An undecodable
  message makes the node forget all clients that wait for replies.
\<close>

theorem rendezvous_forwards_exactly:
  assumes run: "seen = fold (rendezvous_turn E) (pre @ suf) Map.empty"
    and pre: "pre = [] \<or> \<not> decodable E (last pre)" and suf: "\<forall>x \<in> set suf. decodable E x"
    and clock: "sorted (message_times suf)"
    and msg: "destdcode_forward E msg = Some (content, dest)"
  shows "fst (rendezvous_forward E registered now (msg, src) seen) = Inr
      (if ep_fingerprint dest \<in> registered \<or> (\<exists>t. remembered E (dest, src) suf t \<and> now < t + SEEN_IDLE)
       then Some (stdcode_forward E (content, src), dest) else None)"
proof -
  have seen: "seen = fold (rendezvous_turn E) suf Map.empty" using rendezvous_run_reset[OF pre] run by simp
  have "seen_contains_key now (dest, src) seen \<longleftrightarrow> (\<exists>t. remembered E (dest, src) suf t \<and> now < t + SEEN_IDLE)"
  proof
    assume "seen_contains_key now (dest, src) seen"
    then obtain t where "seen (dest, src) = Some t" "now < t + SEEN_IDLE" by (auto simp: seen_contains_key_def split: option.splits)
    then show "\<exists>t. remembered E (dest, src) suf t \<and> now < t + SEEN_IDLE"
      using seen_remembered[OF suf, of Map.empty "(dest, src)" t] by (auto simp: seen)
  next
    assume "\<exists>t. remembered E (dest, src) suf t \<and> now < t + SEEN_IDLE"
    then obtain t where t: "remembered E (dest, src) suf t" "now < t + SEEN_IDLE" by blast
    then obtain u where "u \<ge> t" "seen (dest, src) = Some u"
      using remembered_seen[OF suf clock, of "(dest, src)" t Map.empty] by (auto simp: seen)
    then show "seen_contains_key now (dest, src) seen" using t(2) by (simp add: seen_contains_key_def)
  qed
  then show ?thesis using msg by (auto simp: rendezvous_forward_def Let_def)
qed

theorem rendezvous_forwards_exactly_witness:
  "fst (rendezvous_forward demo_henv {} 2000 (put_forward ([5], endpoint_new (demo_fp 3) 9), endpoint_new (demo_fp 7) 5)
      (fold (rendezvous_turn demo_henv) ([] @ [RvMessage {demo_fp 7} 1000 (put_forward ([4], endpoint_new (demo_fp 7) 5), endpoint_new (demo_fp 3) 9),
         RvEvict {(endpoint_new (demo_fp 2) 9, endpoint_new (demo_fp 7) 5)}]) Map.empty))
   = Inr (Some (put_forward ([5], endpoint_new (demo_fp 7) 5), endpoint_new (demo_fp 3) 9)) \<and>
   fst (rendezvous_forward demo_henv {} 3601000 (put_forward ([5], endpoint_new (demo_fp 3) 9), endpoint_new (demo_fp 7) 5)
      (fold (rendezvous_turn demo_henv) ([] @ [RvMessage {demo_fp 7} 1000 (put_forward ([4], endpoint_new (demo_fp 7) 5), endpoint_new (demo_fp 3) 9),
         RvEvict {(endpoint_new (demo_fp 2) 9, endpoint_new (demo_fp 7) 5)}]) Map.empty))
   = Inr None"
proof -
  have code: "destdcode_forward demo_henv (put_forward x) = Some x" for x
    using demo_henv_laws(4) by (cases x) (simp add: haven_code_laws_def demo_henv_def dht_env.defs)
  have std: "stdcode_forward demo_henv = put_forward" by (simp add: demo_henv_def dht_env.defs)
  let ?client = "endpoint_new (demo_fp 3) 9" and ?haven = "endpoint_new (demo_fp 7) 5"
  let ?ops = "[RvMessage {demo_fp 7} 1000 (put_forward ([4], ?haven), ?client), RvEvict {(endpoint_new (demo_fp 2) 9, ?haven)}]"
  have ne: "?client \<noteq> endpoint_new (demo_fp 2) 9" by (simp add: demo_fp_bytes endpoint_new_def)
  have rem: "remembered demo_henv (?client, ?haven) ?ops t \<longleftrightarrow> t = 1000" for t
    using ne by (auto simp: remembered_Cons writes_def evicts_def code endpoint_new_def)
  have pre: "[] = [] \<or> \<not> decodable demo_henv (last [])" and suf: "\<forall>x \<in> set ?ops. decodable demo_henv x" "sorted (message_times ?ops)"
    by (simp_all add: decodable_def code)
  show ?thesis
    using rendezvous_forwards_exactly[where registered = "{}" and now = 2000 and src = ?haven, OF refl pre suf code[of "([5], ?client)"], unfolded rem]
      rendezvous_forwards_exactly[where registered = "{}" and now = 3601000 and src = ?haven, OF refl pre suf code[of "([5], ?client)"], unfolded rem]
    by (simp only: std) (simp add: SEEN_IDLE_def del: fold_simps fold.simps)
qed

text \<open>
  (C16) The sessions of a haven socket.  Whatever is sent, received and dispatched, and however the turns
  of the sessions interleave, every session belongs to the endpoint it is stored under and
  to the socket's identity and rendezvous point; a session that is about to answer a handshake
  answers one that is signed by the identity whose fingerprint the endpoint carries; and at
  most a thousand decrypted messages wait.
\<close>

theorem haven_socket_sessions:
  assumes bind: "haven_bind C draw isk dock rdv s0 = Some (h0, s1)" and run: "h = fold (haven_step E) ops h0"
  shows "(\<forall>ep s. crypt_sessions h ep = Some s \<longrightarrow> sess_remote s = ep \<and> sess_isk s = hv_isk h \<and> sess_rendezvous s = hv_rendezvous h \<and>
            (\<forall>hs. sess_phase s = Starting (Some hs) \<longrightarrow> fingerprint_of E (hs_id_pk hs) = ep_fingerprint ep \<and>
               verify E (hs_id_pk hs) (handshake_to_sign E hs) (hs_sig hs) = Inr ())) \<and>
         length (incoming_decrypted h) \<le> 1000"
proof -
  have "haven_inv E h0" using bind by (auto simp: haven_bind_def haven_inv_def)
  then have "haven_inv E h" unfolding run by (rule haven_machine.run_inv)
  then show ?thesis by (simp add: haven_inv_def session_ok_def)
qed

theorem haven_socket_sessions_witness:
  "\<exists>h0 s1. haven_bind demo_denv (\<lambda>_. 0) (demo_isk 7) (Some 5) (Some (demo_fp 2)) demo_daemon = Some (h0, s1) \<and>
     length (incoming_decrypted (fold (haven_step demo_henv) [HSend [1] (endpoint_new (demo_fp 3) 9), HDispatch [0], HRecv] h0)) \<le> 1000"
proof -
  obtain h0 :: "u64 set haven_socket" and s1 where
    b: "haven_bind demo_denv (\<lambda>_. 0) (demo_isk 7) (Some 5) (Some (demo_fp 2)) demo_daemon = Some (h0, s1)"
    by (simp add: haven_bind_def n2r_bind_def Let_def)
  then show ?thesis
    using haven_socket_sessions[OF b refl, of demo_henv "[HSend [1] (endpoint_new (demo_fp 3) 9), HDispatch [0], HRecv]"] by blast
qed

text \<open>
  A client handshake carries nothing fresh: dispatching one, even a recorded one, replaces the
  session of that client by a new one, and what the old one had queued is lost.
\<close>

lemma client_handshake_resets_session:
  assumes "haven_code_laws E" "verify E (hs_id_pk hs) (handshake_to_sign E hs) (hs_sig hs) = Inr ()"
    and "fingerprint_of E (hs_id_pk hs) = ep_fingerprint remote"
  shows "\<exists>s. fst (haven_dispatch E (stdcode_forward E (stdcode_haven_msg E (ClientHs hs), remote)) h) = Inr () \<and>
    crypt_sessions (snd (haven_dispatch E (stdcode_forward E (stdcode_haven_msg E (ClientHs hs), remote)) h)) remote = Some s \<and>
    sess_phase s = Starting (Some hs) \<and> recv_outgoing s = [] \<and> recv_incoming_msgs s = []"
  using assms by (simp add: haven_dispatch_def haven_code_laws_def session_new_def Let_def)

text \<open>A registration that the rendezvous node refused is taken for a success.\<close>

lemma refused_registration_published:
  "register_round E (\<lambda>_. Some (Inr (Inl e))) g req isk opk rob net = dht_insert E g (locator_new E isk opk rob) net"
  by (simp add: register_round_def)

text \<open>A haven message put into a forward request reaches the dispatcher of the destination as it was, with its source.\<close>

lemma relayed_message_dispatched:
  assumes "haven_code_laws E" "ep_fingerprint dest \<in> registered"
    and "fst (rendezvous_forward E registered now (stdcode_forward E (stdcode_haven_msg E m, dest), src) seen) = Inr (Some (b, ep))"
  shows "ep = dest" "read_forward E b = Some (m, src)"
  using assms by (auto simp: rendezvous_forward_def haven_code_laws_def read_forward_def Let_def)

end
