(* ===== verification/Control.thy ===== *)
theory Control
  imports Haven_Socket
begin

text \<open>
  \<open>src/daemon/control_protocol_impl.rs\<close> and the identities of \<open>src/config.rs\<close>: the handlers of the
  control protocol that manage sockets, identities and locators, and the initialisation of an identity from
  a seed or a file.  A file system is a map from paths to files; a path that is not in it
  can be created if \<open>creatable\<close> says so.
\<close>

section \<open>Identities from the configuration\<close>

record disk_file =
  contents :: bytes
  readable :: bool
  writable :: bool

record file_system =
  files :: "string \<rightharpoonup> disk_file"
  creatable :: "string \<Rightarrow> bool"

datatype identity_cfg = IdentitySeed string | IdentityFile string

datatype config_error = WrongIdentityLength | CannotCreateIdentity

definition fs_read :: "string \<Rightarrow> file_system \<Rightarrow> bytes option" where
  "fs_read path fs = (case files fs path of None \<Rightarrow> None | Some f \<Rightarrow> if readable f then Some (contents f) else None)"

text \<open>\<open>create(true).write(true)\<close> does not truncate; a new file is readable and writable for its owner.\<close>

definition fs_write :: "string \<Rightarrow> bytes \<Rightarrow> file_system \<Rightarrow> file_system option" where
  "fs_write path b fs =
     (case files fs path of
        None \<Rightarrow> if creatable fs path
          then Some (fs\<lparr>files := (files fs)(path \<mapsto> \<lparr>contents = b, readable = True, writable = True\<rparr>)\<rparr>) else None
      | Some f \<Rightarrow> if writable f
          then Some (fs\<lparr>files := (files fs)(path \<mapsto> f\<lparr>contents := b @ drop (length b) (contents f)\<rparr>)\<rparr>) else None)"

text \<open>The loop over an identity file; \<open>gen n\<close> is the identity generated in its \<open>n\<close>-th turn.\<close>

partial_function (option) identity_file_loop ::
    "(nat \<Rightarrow> identity_secret) \<Rightarrow> nat \<Rightarrow> string \<Rightarrow> file_system \<Rightarrow> ((config_error, identity_secret) res \<times> file_system) option" where
  "identity_file_loop gen n path fs =
     (case fs_read path fs of
        Some bts \<Rightarrow>
          Some (if length bts = 32 then Inr (identity_from_bytes bts) else Inl (Err WrongIdentityLength), fs)
      | None \<Rightarrow>
          (case fs_write path (isk_bytes (gen n)) fs of
             None \<Rightarrow> Some (Inl (Err CannotCreateIdentity), fs)
           | Some fs' \<Rightarrow> identity_file_loop gen (Suc n) path fs'))"

definition actualize ::
    "'z crypto_scheme \<Rightarrow> (nat \<Rightarrow> identity_secret) \<Rightarrow> identity_cfg \<Rightarrow> file_system
       \<Rightarrow> ((config_error, identity_secret) res \<times> file_system) option" where
  "actualize C gen i fs = (case i of
     IdentitySeed seed \<Rightarrow> Some (map_err (\<lambda>_. WrongIdentityLength) (identity_from_seed C seed), fs)
   | IdentityFile path \<Rightarrow> identity_file_loop gen 0 path fs)"

section \<open>Anonymous identities\<close>

record 'r control =
  ctl_sockets :: "string \<rightharpoonup> 'r inner_socket"
  anon_identities :: "string \<rightharpoonup> identity_secret"

definition control_new :: "'r control" where
  "control_new = \<lparr>ctl_sockets = Map.empty, anon_identities = Map.empty\<rparr>"

definition anon_get :: "'z crypto_scheme \<Rightarrow> string \<Rightarrow> 'r control \<Rightarrow> identity_secret \<times> 'r control" where
  "anon_get C i c =
     (let pseudo_secret = blake3_hash C (bytes_of_string i)
      in case anon_identities c i of
           Some isk \<Rightarrow> (isk, c)
         | None \<Rightarrow> (identity_from_bytes pseudo_secret,
                   c\<lparr>anon_identities := (anon_identities c)(i \<mapsto> identity_from_bytes pseudo_secret)\<rparr>))"

definition bind_identity :: "'z crypto_scheme \<Rightarrow> string option \<Rightarrow> 'r control \<Rightarrow> 'l daemon \<Rightarrow> identity_secret \<times> 'r control" where
  "bind_identity C anon_id c s = (case anon_id of Some i \<Rightarrow> anon_get C i c | None \<Rightarrow> (global_identity s, c))"

section \<open>Handlers\<close>

datatype control_err = SocketSendErr socket_send_error | SocketRecvErr socket_recv_error | NoSocket

definition socket_drop :: "'r inner_socket \<Rightarrow> 'l daemon \<Rightarrow> 'l daemon" where
  "socket_drop skt s = (case skt of N2r k \<Rightarrow> n2r_drop k s | Haven h \<Rightarrow> n2r_drop (hv_n2r h) s)"

text \<open>\<open>self.sockets.insert(socket_id, socket)\<close>: a socket that had the name is dropped.\<close>

definition store_socket :: "string \<Rightarrow> 'r inner_socket \<Rightarrow> 'r control \<times> 'l daemon \<Rightarrow> 'r control \<times> 'l daemon" where
  "store_socket i skt cs = (case cs of (c, s) \<Rightarrow>
     (c\<lparr>ctl_sockets := (ctl_sockets c)(i \<mapsto> skt)\<rparr>,
      case ctl_sockets c i of None \<Rightarrow> s | Some old \<Rightarrow> socket_drop old s))"

definition handle_bind_n2r ::
    "'z crypto_scheme \<Rightarrow> (nat \<Rightarrow> dock) \<Rightarrow> string \<Rightarrow> string option \<Rightarrow> dock option \<Rightarrow> 'r control \<Rightarrow> 'l daemon
       \<Rightarrow> ('r control \<times> 'l daemon) option" where
  "handle_bind_n2r C draw socket_id anon_id dock c s =
     (let (isk, c1) = bind_identity C anon_id c s
      in map_option (\<lambda>(k, s1). store_socket socket_id (N2r k) (c1, s1)) (n2r_bind C draw isk dock s))"

definition handle_bind_haven ::
    "'z crypto_scheme \<Rightarrow> (nat \<Rightarrow> dock) \<Rightarrow> string \<Rightarrow> string option \<Rightarrow> dock option \<Rightarrow> fingerprint option \<Rightarrow> 'r control \<Rightarrow> 'l daemon
       \<Rightarrow> ('r control \<times> 'l daemon) option" where
  "handle_bind_haven C draw socket_id anon_id dock rendezvous c s =
     (let (isk, c1) = bind_identity C anon_id c s
      in map_option (\<lambda>(h, s1). store_socket socket_id (Haven h) (c1, s1)) (haven_bind C draw isk dock rendezvous s))"

definition handle_skt_info :: "string \<Rightarrow> 'r control \<Rightarrow> control_err + endpoint" where
  "handle_skt_info skt_id c =
     (case ctl_sockets c skt_id of Some skt \<Rightarrow> Inr (socket_local_endpoint skt) | None \<Rightarrow> Inl NoSocket)"

definition handle_send_message ::
    "('r, 'z) haven_env_scheme \<Rightarrow> (session_error \<Rightarrow> string) \<Rightarrow> string \<Rightarrow> endpoint \<Rightarrow> bytes \<Rightarrow> 'r control
       \<Rightarrow> (control_err + unit) \<times> 'r control" where
  "handle_send_message E show_err socket_id destination content c =
     (case ctl_sockets c socket_id of
        None \<Rightarrow> (Inl NoSocket, c)
      | Some skt \<Rightarrow>
          let (r, skt') = socket_send_to E show_err content destination skt
          in (case r of Inl e \<Rightarrow> Inl (SocketSendErr e) | Inr _ \<Rightarrow> Inr (), c\<lparr>ctl_sockets := (ctl_sockets c)(socket_id \<mapsto> skt')\<rparr>))"

text \<open>\<open>None\<close> means that the call waits.\<close>

definition handle_recv_message ::
    "string \<Rightarrow> 'r control \<Rightarrow> 'l daemon \<Rightarrow> ((control_err + bytes \<times> endpoint) \<times> 'r control \<times> 'l daemon) option" where
  "handle_recv_message socket_id c s =
     (case ctl_sockets c socket_id of
        None \<Rightarrow> Some (Inl NoSocket, c, s)
      | Some skt \<Rightarrow>
          map_option (\<lambda>(r, skt', s'). (case r of Inl e \<Rightarrow> Inl (SocketRecvErr e) | Inr x \<Rightarrow> Inr x,
              c\<lparr>ctl_sockets := (ctl_sockets c)(socket_id \<mapsto> skt')\<rparr>, s')) (socket_recv_from skt s))"

definition handle_insert_rendezvous :: "'z dht_env_scheme \<Rightarrow> relay_graph \<Rightarrow> haven_locator \<Rightarrow> network \<Rightarrow> (dht_error + unit) \<times> network" where
  "handle_insert_rendezvous E g locator net = (Inr (), dht_insert E g locator net)"

text \<open>\<open>timely\<close> tells whether the lookup ends within 30 seconds.\<close>

definition handle_get_rendezvous ::
    "'z dht_env_scheme \<Rightarrow> bool \<Rightarrow> relay_graph \<Rightarrow> (fingerprint list \<Rightarrow> fingerprint list) \<Rightarrow> (fingerprint \<Rightarrow> dht_answer) \<Rightarrow> fingerprint
       \<Rightarrow> (fingerprint \<rightharpoonup> haven_locator) \<Rightarrow> (dht_error + haven_locator option) \<times> (fingerprint \<rightharpoonup> haven_locator)" where
  "handle_get_rendezvous E timely g arrival ask fp cache =
     (if timely then dht_get E g arrival ask fp cache
      else (Inl (NetworkFailure ''dht_get({key}) timed out''), cache))"

section \<open>Information on havens\<close>

datatype forward_handler = UdpService dock string | TcpService dock string | SimpleProxy dock

record haven_forward_config =
  hf_identity :: identity_cfg
  hf_rendezvous :: fingerprint
  hf_handler :: forward_handler

definition describe_handler :: "forward_handler \<Rightarrow> string \<times> dock" where
  "describe_handler h = (case h of
     UdpService listen_dock upstream \<Rightarrow> (''UdpService'', listen_dock)
   | TcpService listen_dock upstream \<Rightarrow> (''TcpService'', listen_dock)
   | SimpleProxy listen_dock \<Rightarrow> (''SimpleProxy'', listen_dock))"

text \<open>An identity that cannot be initialised is unwrapped, a panic.\<close>

fun handle_havens_info ::
    "'z crypto_scheme \<Rightarrow> (nat \<Rightarrow> identity_secret) \<Rightarrow> haven_forward_config list \<Rightarrow> file_system
       \<Rightarrow> ((unit, (string \<times> string) list) res \<times> file_system) option" where
  "handle_havens_info C gen [] fs = Some (Inr [], fs)"
| "handle_havens_info C gen (cfg # cfgs) fs =
     (case actualize C gen (hf_identity cfg) fs of
        None \<Rightarrow> None
      | Some (Inl _, fs') \<Rightarrow> Some (Inl Panic, fs')
      | Some (Inr isk, fs') \<Rightarrow>
          let (name, dk) = describe_handler (hf_handler cfg);
              entry = (name, fingerprint_to_string C (my_fingerprint C isk) @ '':'' @ show_nat (unat dk))
          in map_option (\<lambda>(r, fs''). (bind_res r (\<lambda>rest. Inr (entry # rest)), fs'')) (handle_havens_info C gen cfgs fs'))"

section \<open>Identity files\<close>

lemma actualize_existing:
  assumes "files fs path = Some f" "readable f" "length (contents f) = 32"
  shows "actualize C gen (IdentityFile path) fs = Some (Inr (IdentitySecret (contents f)), fs)"
  using assms by (simp add: actualize_def identity_file_loop.simps fs_read_def identity_from_bytes_def)

lemma actualize_creates:
  assumes "files fs path = None" "creatable fs path" "length (isk_bytes (gen 0)) = 32"
  shows "\<exists>fs'. actualize C gen (IdentityFile path) fs = Some (Inr (gen 0), fs') \<and>
    files fs' = (files fs)(path \<mapsto> \<lparr>contents = isk_bytes (gen 0), readable = True, writable = True\<rparr>)"
  using assms
  by (simp add: actualize_def identity_file_loop.simps fs_read_def fs_write_def identity_from_bytes_def)

text \<open>A file that may be written but not read is overwritten for ever.\<close>

lemma unreadable_identity_loops:
  assumes "files fs path = Some f" "\<not> readable f" "writable f"
  shows "actualize C gen (IdentityFile path) fs = None"
proof -
  have loops: "\<nexists>f. files fs' p = Some f \<and> \<not> readable f \<and> writable f" if "identity_file_loop gen n p fs' = Some y" for n p fs' y
  proof (rule identity_file_loop.raw_induct[where P = "\<lambda>gen n p fs' y. \<nexists>f. files fs' p = Some f \<and> \<not> readable f \<and> writable f", OF _ that])
    fix loop gen n p fs' y
    assume IH: "\<And>gen n p fs' y. loop gen n p fs' = Some y \<Longrightarrow> \<nexists>f. files fs' p = Some f \<and> \<not> readable f \<and> writable f"
      and eq: "(case fs_read p fs' of
        Some bts \<Rightarrow> Some (if length bts = 32 then Inr (identity_from_bytes bts) else Inl (Err WrongIdentityLength), fs')
      | None \<Rightarrow> (case fs_write p (isk_bytes (gen n)) fs' of None \<Rightarrow> Some (Inl (Err CannotCreateIdentity), fs')
           | Some fs'' \<Rightarrow> loop gen (Suc n) p fs'')) = Some y"
    show "\<nexists>f. files fs' p = Some f \<and> \<not> readable f \<and> writable f"
    proof
      assume "\<exists>f. files fs' p = Some f \<and> \<not> readable f \<and> writable f"
      then obtain g where g: "files fs' p = Some g" "\<not> readable g" "writable g" by blast
      let ?g = "g\<lparr>contents := isk_bytes (gen n) @ drop (length (isk_bytes (gen n))) (contents g)\<rparr>"
      have "loop gen (Suc n) p (fs'\<lparr>files := (files fs')(p \<mapsto> ?g)\<rparr>) = Some y"
        using eq g by (simp add: fs_read_def fs_write_def)
      from IH[OF this] show False using g by simp
    qed
  qed
  show ?thesis
  proof (cases "identity_file_loop gen 0 path fs")
    case (Some y)
    from loops[OF this] assms show ?thesis by blast
  qed (simp add: actualize_def)
qed
section \<open>Binding a name again\<close>

lemma bind_n2r_over_same_dock:
  assumes "bind_identity C anon_id c s = (isk, c1)" "ctl_sockets c socket_id = Some (N2r old)"
    and "bound_dock old = endpoint_new (my_fingerprint C isk) d"
  shows "\<exists>k c' s'. handle_bind_n2r C draw socket_id anon_id (Some d) c s = Some (c', s') \<and>
           ctl_sockets c' socket_id = Some (N2r k) \<and> bound_dock k = endpoint_new (my_fingerprint C isk) d \<and>
           incoming_queue k = [] \<and> socket_recv_queues s' (endpoint_new (my_fingerprint C isk) d) = None"
proof -
  have "ctl_sockets c1 = ctl_sockets c"
    using assms(1) by (auto simp: bind_identity_def anon_get_def Let_def split: option.splits)
  then show ?thesis using assms
    by (simp add: handle_bind_n2r_def n2r_bind_def Let_def store_socket_def socket_drop_def n2r_drop_def)
qed

text \<open>
  (C34) Binding a name again to the dock it is bound to leaves the socket deaf.  The new socket is
  registered first and the old one dropped when it is replaced in the table, which takes the
  endpoint out of the daemon's queues: the bind succeeds and \<open>skt_info\<close> shows the endpoint,
  but every message for it is refused as having no listener, and every receive fails.
\<close>

theorem rebind_same_dock_deaf:
  assumes "bind_identity C anon_id c s = (isk, c1)" "ctl_sockets c socket_id = Some (N2r old)"
    and "bound_dock old = endpoint_new (my_fingerprint C isk) d"
  shows "\<exists>c' s'. handle_bind_n2r C draw socket_id anon_id (Some d) c s = Some (c', s') \<and>
           handle_skt_info socket_id c' = Inr (endpoint_new (my_fingerprint C isk) d) \<and>
           (\<forall>E m src. process_inner_pkt E (Message (m\<lparr>dest_dock := d\<rparr>)) src (my_fingerprint C isk) s' =
              Some (Inl (Err (NoSocketListening (endpoint_new (my_fingerprint C isk) d))), s')) \<and>
           map_option fst (handle_recv_message socket_id c' s') = Some (Inl (SocketRecvErr N2rRecvError))"
proof -
  obtain k c' s' where b: "handle_bind_n2r C draw socket_id anon_id (Some d) c s = Some (c', s')"
      "ctl_sockets c' socket_id = Some (N2r k)" "bound_dock k = endpoint_new (my_fingerprint C isk) d"
      "incoming_queue k = []" "socket_recv_queues s' (endpoint_new (my_fingerprint C isk) d) = None"
    using bind_n2r_over_same_dock[OF assms] by blast
  have "handle_skt_info socket_id c' = Inr (endpoint_new (my_fingerprint C isk) d)"
    using b by (simp add: handle_skt_info_def socket_local_endpoint_def n2r_local_endpoint_def)
  moreover have "process_inner_pkt E (Message (m\<lparr>dest_dock := d\<rparr>)) src (my_fingerprint C isk) s' =
      Some (Inl (Err (NoSocketListening (endpoint_new (my_fingerprint C isk) d))), s')" for E m src
    using b by (simp add: process_inner_pkt_def Let_def)
  moreover have "map_option fst (handle_recv_message socket_id c' s') = Some (Inl (SocketRecvErr N2rRecvError))"
    using b by (simp add: handle_recv_message_def socket_recv_from_def n2r_recv_from_def)
  ultimately show ?thesis using b(1) by blast
qed

theorem rebind_same_dock_deaf_witness:
  "\<exists>c' s'. handle_bind_n2r demo_denv (\<lambda>_. 0) ''chat'' None (Some 5)
       (control_new\<lparr>ctl_sockets := [''chat'' \<mapsto> N2r demo_socket]\<rparr>) demo_daemon = Some (c', s') \<and>
     map_option fst (handle_recv_message ''chat'' c' s') = Some (Inl (SocketRecvErr N2rRecvError))"
proof -
  have "bind_identity demo_denv None (control_new\<lparr>ctl_sockets := [''chat'' \<mapsto> N2r demo_socket]\<rparr>) demo_daemon =
      (demo_isk 1, control_new\<lparr>ctl_sockets := [''chat'' \<mapsto> N2r demo_socket]\<rparr>)"
    by (simp add: bind_identity_def demo_daemon_def)
  moreover have "my_fingerprint demo_denv (demo_isk 1) = demo_fp 1" by (simp add: demo_denv_same demo_fp_def)
  ultimately show ?thesis
    using rebind_same_dock_deaf[of demo_denv None _ demo_daemon "demo_isk 1" _ "''chat''" demo_socket 5 "\<lambda>_. 0"]
    by (fastforce simp: demo_socket_def)
qed

end
