(* ===== verification/Global_Rpc.thy ===== *)
theory Global_Rpc
  imports Control
begin

text \<open>
  \<open>src/global_rpc/transport.rs\<close>, the global RPC loop of \<open>src/daemon.rs\<close> and \<open>send_global_rpc\<close>: remote
  calls over N2R sockets.  A call repeats its request with doubling timeouts until a message
  comes back.  JSON-RPC, its encoding and the dispatch generated by \<open>nanorpc_derive\<close> are fields of the record
  \<open>jrpc\<close>; the dispatch of the daemon's own service is \<open>serve_call\<close>, one handler per method.
\<close>

section \<open>Requests and answers\<close>

definition GLOBAL_RPC_DOCK :: dock where
  "GLOBAL_RPC_DOCK = 100001"

text \<open>\<open>'q\<close> are the requests, \<open>'p\<close> the answers, \<open>'s\<close> the state of the service.\<close>

record ('q, 'p, 's) jrpc =
  encode_req :: "'q \<Rightarrow> bytes"
  decode_req :: "bytes \<Rightarrow> 'q option"
  encode_resp :: "'p \<Rightarrow> bytes"
  decode_resp :: "bytes \<Rightarrow> 'p option"
  respond_raw :: "'q \<Rightarrow> 's \<Rightarrow> 'p \<times> 's"

section \<open>The caller\<close>

datatype call_error = BadResponse | ReceiveFailed

text \<open>How a round ends: with a message or a failed receive, or with the timer.\<close>

datatype round = Received_First "socket_recv_error + bytes \<times> endpoint" | Timer_First

text \<open>\<open>Duration::from_secs(2u64.pow(retries + 1))\<close>, with the wrap-around of a release build.\<close>

definition call_timeout :: "nat \<Rightarrow> u64" where
  "call_timeout retries = 2 ^ (retries + 1)"

text \<open>\<open>None\<close> means that the call still waits after the rounds given.\<close>

fun call_loop ::
    "('q, 'p, 's) jrpc \<Rightarrow> 'q \<Rightarrow> endpoint \<Rightarrow> round list \<Rightarrow> nat \<Rightarrow> n2r_socket \<Rightarrow> ((call_error + 'p) \<times> nat) option \<times> n2r_socket" where
  "call_loop J req ep [] retries k = (None, snd (n2r_send_to (encode_req J req) ep k))"
| "call_loop J req ep (r # rs) retries k =
     (let k1 = snd (n2r_send_to (encode_req J req) ep k)
      in case r of
           Received_First (Inr (res, _)) \<Rightarrow>
             (Some (case decode_resp J res of Some p \<Rightarrow> Inr p | None \<Rightarrow> Inl BadResponse, retries), k1)
         | Received_First (Inl _) \<Rightarrow> (Some (Inl ReceiveFailed, retries), k1)
         | Timer_First \<Rightarrow> call_loop J req ep rs (Suc retries) k1)"


datatype global_rpc_error = SendError

text \<open>\<open>send_global_rpc\<close>; the argument is what \<open>client.call\<close> returns.\<close>

definition handle_send_global_rpc :: "call_error + ('e + 'v) option \<Rightarrow> global_rpc_error + 'v" where
  "handle_send_global_rpc res = (case res of
     Inl _ \<Rightarrow> Inl SendError
   | Inr None \<Rightarrow> Inl SendError
   | Inr (Some (Inl _)) \<Rightarrow> Inl SendError
   | Inr (Some (Inr v)) \<Rightarrow> Inr v)"

section \<open>The server\<close>

definition rpc_bind :: "'z crypto_scheme \<Rightarrow> (nat \<Rightarrow> dock) \<Rightarrow> 'l daemon \<Rightarrow> (n2r_socket \<times> 'l daemon) option" where
  "rpc_bind C draw s = n2r_bind C draw (global_identity s) (Some GLOBAL_RPC_DOCK) s"

text \<open>The task spawned for a request; one that cannot be read gets no answer.\<close>

definition rpc_serve :: "('q, 'p, 's) jrpc \<Rightarrow> bytes \<times> endpoint \<Rightarrow> n2r_socket \<times> 's \<Rightarrow> n2r_socket \<times> 's" where
  "rpc_serve J rcvd ks =
     (case decode_req J (fst rcvd) of
        None \<Rightarrow> ks
      | Some req \<Rightarrow>
          let (resp, st) = respond_raw J req (snd ks)
          in (snd (n2r_send_to (encode_resp J resp) (snd rcvd) (fst ks)), st))"

text \<open>A turn of the loop; \<open>None\<close> means that it waits.\<close>

definition global_rpc_turn ::
    "('q, 'p, 's) jrpc \<Rightarrow> n2r_socket \<times> 's \<Rightarrow> 'l daemon \<Rightarrow> ((n2r_socket \<times> 's) \<times> 'l daemon) option" where
  "global_rpc_turn J ks s =
     map_option (\<lambda>(r, k, s'). (case r of Inl _ \<Rightarrow> (k, snd ks) | Inr rcvd \<Rightarrow> rpc_serve J rcvd (k, snd ks), s'))
       (n2r_recv_from (fst ks) s)"




section \<open>Timeouts\<close>

text \<open>
  The first 63 timeouts double from two seconds, so that \<open>n\<close> of them last \<open>2 ^ (n + 1) - 2\<close> seconds; the
  next would wrap around to zero, after more seconds than a \<open>u64\<close> counts.
\<close>

lemma call_timeouts_total: "n \<le> 63 \<Longrightarrow> (\<Sum>r<n. unat (call_timeout r)) = 2 ^ (n + 1) - 2"
proof (induction n)
  case (Suc n)
  have "unat ((2 :: u64) ^ (n + 1)) = 2 ^ (n + 1)"
  proof -
    have "(2 :: nat) ^ (n + 1) < 2 ^ 64" using Suc.prems by (intro power_strict_increasing) simp_all
    then have "unat (of_nat (2 ^ (n + 1)) :: u64) = 2 ^ (n + 1)"
      using take_bit_nat_eq_self[of "2 ^ (n + 1)" 64] by (simp only: unsigned_of_nat) simp
    then show ?thesis by simp
  qed
  then have "(\<Sum>r<Suc n. unat (call_timeout r)) = 2 ^ (n + 1) - 2 + 2 ^ (n + 1)"
    using Suc by (simp add: call_timeout_def)
  also have "\<dots> = 2 ^ (Suc n + 1) - 2" by (simp add: power_Suc)
  finally show ?case .
qed simp

lemma call_timeout_wraps: "call_timeout 63 = 0"
  by (simp add: call_timeout_def)

section \<open>Repeated requests\<close>



section \<open>A call and its service\<close>








text \<open>
  The caller believes the first message that reaches its socket: neither its sender nor the
  identifier of the request is compared.
\<close>

lemma first_message_answers:
  "decode_resp J b = Some p \<Longrightarrow> fst (call_loop J req ep (Received_First (Inr (b, from)) # rs) m k) = Some (Inr p, m)"
  by simp

end
