(* ===== verification/Link_Rpc.thy ===== *)
theory Link_Rpc
  imports Link_Protocol Global_Rpc
begin

text \<open>
  \<open>src/daemon/link_connection.rs\<close>: remote calls between neighbours.  A stream of the multiplex is
  dispatched by its label; on a control stream every request and every answer is one line of JSON.
  The multiplex, its streams and JSON-RPC are third-party code: a stream is the bytes that went
  through it, and the encoding and dispatch are the fields of the record \<open>jrpc\<close>.
\<close>

section \<open>Streams by label\<close>

datatype stream_handler = ControlStream | OnionStream | UnknownStream

definition connection_dispatch :: "string \<Rightarrow> stream_handler" where
  "connection_dispatch label =
     (if label = ''n2n_control'' then ControlStream
      else if label = ''onion_packets'' then OnionStream else UnknownStream)"

section \<open>Lines\<close>

abbreviation (input) newline :: byte where
  "newline \<equiv> 10"

definition strip_cr :: "bytes \<Rightarrow> bytes" where
  "strip_cr l = (if l \<noteq> [] \<and> last l = 13 then butlast l else l)"

text \<open>\<open>BufReader::lines\<close>: a final line need not be terminated.\<close>

function lines_of :: "bytes \<Rightarrow> bytes list" where
  "lines_of b =
     (if b = [] then []
      else if dropWhile (\<lambda>x. x \<noteq> newline) b = [] then [b]
      else strip_cr (takeWhile (\<lambda>x. x \<noteq> newline) b) # lines_of (tl (dropWhile (\<lambda>x. x \<noteq> newline) b)))"
  by auto
termination
proof (relation "measure length")
  fix b :: bytes assume "dropWhile (\<lambda>x. x \<noteq> newline) b \<noteq> []"
  then have "length (tl (dropWhile (\<lambda>x. x \<noteq> newline) b)) < length (dropWhile (\<lambda>x. x \<noteq> newline) b)" by simp
  also have "\<dots> \<le> length b" by (rule length_dropWhile_le)
  finally show "(tl (dropWhile (\<lambda>x. x \<noteq> newline) b), b) \<in> measure length" by simp
qed simp

declare lines_of.simps [simp del]

text \<open>\<open>read_line\<close> keeps the newline.\<close>

definition read_line :: "bytes \<Rightarrow> bytes \<times> bytes" where
  "read_line b =
     (if dropWhile (\<lambda>x. x \<noteq> newline) b = [] then (b, [])
      else (takeWhile (\<lambda>x. x \<noteq> newline) b @ [newline], tl (dropWhile (\<lambda>x. x \<noteq> newline) b)))"

section \<open>The server\<close>

text \<open>The task of a control stream: a line that is no request ends it.\<close>

fun control_stream :: "('q, 'p, 's) jrpc \<Rightarrow> bytes list \<Rightarrow> 's \<Rightarrow> bytes \<times> 's" where
  "control_stream J [] st = ([], st)"
| "control_stream J (line # stream_lines) st =
     (case decode_req J line of
        None \<Rightarrow> ([], st)
      | Some req \<Rightarrow>
          let (resp, st1) = respond_raw J req st;
              (out, st2) = control_stream J stream_lines st1
          in (encode_resp J resp @ [newline] @ out, st2))"

section \<open>The caller\<close>

definition link_request :: "('q, 'p, 's) jrpc \<Rightarrow> 'q \<Rightarrow> bytes" where
  "link_request J req = encode_req J req @ [newline]"

text \<open>What a call reads from the stream; \<open>None\<close> is an error.\<close>

definition link_response :: "('q, 'p, 's) jrpc \<Rightarrow> bytes \<Rightarrow> ('p \<times> bytes) option" where
  "link_response J b = (case read_line b of (l, r) \<Rightarrow> map_option (\<lambda>p. (p, r)) (decode_resp J l))"

text \<open>
  A call with the pool: a pooled stream or a new one, which returns to the pool when the call is
  over, at whatever point it ends.
\<close>

definition link_call_pool :: "instant \<Rightarrow> 'c \<Rightarrow> ('c \<times> instant) list \<Rightarrow> 'c \<times> ('c \<times> instant) list" where
  "link_call_pool now fresh pool =
     (case get_conn now pool of
        (Some c, rest) \<Rightarrow> (c, rest @ [(c, now)])
      | (None, rest) \<Rightarrow> (fresh, rest @ [(fresh, now)]))"

section \<open>Lines round trip\<close>

definition one_line :: "bytes \<Rightarrow> bool" where
  "one_line b \<longleftrightarrow> newline \<notin> set b \<and> 13 \<notin> set b"

lemma one_line_split:
  assumes "one_line b"
  shows "takeWhile (\<lambda>x. x \<noteq> newline) (b @ newline # r) = b" "dropWhile (\<lambda>x. x \<noteq> newline) (b @ newline # r) = newline # r"
  using assms by (auto simp: one_line_def takeWhile_append dropWhile_append dest: dropWhile_eq_Nil_conv[THEN iffD2])

lemma strip_cr_one_line: "one_line b \<Longrightarrow> strip_cr b = b"
  using last_in_set by (fastforce simp: one_line_def strip_cr_def)

lemma lines_of_line: "one_line b \<Longrightarrow> lines_of (b @ newline # r) = b # lines_of r"
  by (subst lines_of.simps) (simp add: one_line_split strip_cr_one_line)

lemma read_line_line: "one_line b \<Longrightarrow> read_line (b @ newline # r) = (b @ [newline], r)"
  by (simp add: read_line_def one_line_split)

primrec answers :: "('q, 'p, 's) jrpc \<Rightarrow> 'q list \<Rightarrow> 's \<Rightarrow> 'p list \<times> 's" where
  "answers J [] st = ([], st)"
| "answers J (q # qs) st = (let (p, st1) = respond_raw J q st; (ps, st2) = answers J qs st1 in (p # ps, st2))"

lemma control_stream_answers:
  assumes "\<And>q. q \<in> set qs \<Longrightarrow> one_line (encode_req J q) \<and> decode_req J (encode_req J q) = Some q"
    and "answers J qs st = (ps, st')"
  shows "control_stream J (lines_of (concat (map (link_request J) qs))) st =
    (concat (map (\<lambda>p. encode_resp J p @ [newline]) ps), st')"
  using assms
proof (induction qs arbitrary: st ps)
  case Nil
  then show ?case by (simp add: lines_of.simps)
next
  case (Cons q qs)
  obtain p st1 where p: "respond_raw J q st = (p, st1)" by (cases "respond_raw J q st")
  obtain ps1 where ps: "answers J qs st1 = (ps1, st')" "ps = p # ps1" using Cons.prems(2) p by (auto split: prod.splits)
  have "lines_of (concat (map (link_request J) (q # qs))) = encode_req J q # lines_of (concat (map (link_request J) qs))"
    using Cons.prems(1)[of q] lines_of_line by (simp add: link_request_def)
  then show ?case using Cons.prems(1) Cons.IH[OF _ ps(1)] p ps(2) by simp
qed

lemma responses_read:
  assumes "\<And>p. p \<in> set ps \<Longrightarrow> one_line (encode_resp J p) \<and> decode_resp J (encode_resp J p @ [newline]) = Some p"
  shows "takes (link_response J) (length ps) (concat (map (\<lambda>p. encode_resp J p @ [newline]) ps)) = Some (ps, [])"
  using assms
proof (induction ps)
  case (Cons p ps)
  have "link_response J (encode_resp J p @ newline # concat (map (\<lambda>p. encode_resp J p @ [newline]) ps)) =
      Some (p, concat (map (\<lambda>p. encode_resp J p @ [newline]) ps))"
    using Cons.prems[of p] by (simp add: link_response_def read_line_line)
  then show ?case using Cons by simp
qed simp

text \<open>
  (C38) Calls between neighbours are answered in order.  Whatever requests go through a control stream,
  one line each, the lines that come back are the answers to exactly these requests in their
  order, each computed in the state the ones before it left, and nothing is left over.  The
  encodings have to be free of line breaks, as compact JSON is.
\<close>

theorem link_rpc_in_order:
  assumes requests: "\<And>q. q \<in> set qs \<Longrightarrow> one_line (encode_req J q) \<and> decode_req J (encode_req J q) = Some q"
    and responses: "\<And>p. one_line (encode_resp J p) \<and> decode_resp J (encode_resp J p @ [10]) = Some p"
  shows "\<exists>out. control_stream J (lines_of (concat (map (link_request J) qs))) st = (out, snd (answers J qs st)) \<and>
    takes (link_response J) (length qs) out = Some (fst (answers J qs st), [])"
proof -
  obtain ps st' where a: "answers J qs st = (ps, st')" by (cases "answers J qs st")
  have "length ps = length qs" using a
    by (induction qs arbitrary: st ps) (auto split: prod.splits)
  then show ?thesis using control_stream_answers[OF requests a] responses_read[of ps J] responses a by simp
qed

definition demo_line_rpc :: "(nat, nat, nat) jrpc" where
  "demo_line_rpc = \<lparr>encode_req = (\<lambda>n. replicate n 1), decode_req = (\<lambda>b. Some (length b)), encode_resp = (\<lambda>n. replicate n 2),
     decode_resp = (\<lambda>b. Some (length b - 1)), respond_raw = (\<lambda>q st. (q + st, st + 1))\<rparr>"

theorem link_rpc_in_order_witness:
  "\<exists>out. control_stream demo_line_rpc (lines_of (concat (map (link_request demo_line_rpc) [3, 0, 5]))) 10 = (out, 13) \<and>
     takes (link_response demo_line_rpc) 3 out = Some ([13, 11, 17], [])"
proof -
  have "one_line (encode_req demo_line_rpc q) \<and> decode_req demo_line_rpc (encode_req demo_line_rpc q) = Some q"
    "one_line (encode_resp demo_line_rpc p) \<and> decode_resp demo_line_rpc (encode_resp demo_line_rpc p @ [10]) = Some p" for q p
    by (simp_all add: demo_line_rpc_def one_line_def)
  moreover have "answers demo_line_rpc [3, 0, 5] 10 = ([13, 11, 17], 13)" "length [3, 0, 5 :: nat] = 3"
    by (simp_all add: demo_line_rpc_def)
  ultimately show ?thesis using link_rpc_in_order[of "[3, 0, 5]" demo_line_rpc 10] by (simp only: fst_conv snd_conv)
qed

end
