(* ===== verification/Frame.thy ===== *)
theory Frame
  imports Daemon
begin

text \<open>
  What sending and peeling leave alone.  A property of a daemon that the elementary state changes of
  \<open>src/daemon/context.rs\<close>, \<open>peel_forward.rs\<close> and \<open>rrb_balance.rs\<close> keep is kept by all the procedures made of
  them; the locale \<open>stable_daemon\<close> states that once.  A view of a daemon that none of them touches is
  the special case of the locale \<open>daemon_view\<close>; its instances are the views whose stability is
  needed: here the relay graph, in \<open>Routes\<close> what is known of the neighbours.
\<close>

section \<open>Properties that are kept\<close>

named_theorems stable_rules \<open>procedures that keep a property\<close>

declare stable_bind [stable_rules] stable_basic [stable_rules] stable_modify [stable_rules] stable_map_err [stable_rules]

lemma stable_if [stable_rules]: "(b \<Longrightarrow> stable_proc P m) \<Longrightarrow> (\<not> b \<Longrightarrow> stable_proc P m') \<Longrightarrow> stable_proc P (if b then m else m')"
  by simp

lemma stable_option [stable_rules]:
  "stable_proc P m \<Longrightarrow> (\<And>x. stable_proc P (f x)) \<Longrightarrow> stable_proc P (case z of None \<Rightarrow> m | Some x \<Rightarrow> f x)"
  by (simp split: option.splits)

lemma stable_pair [stable_rules]: "(\<And>p q. stable_proc P (f p q)) \<Longrightarrow> stable_proc P (case x of (p, q) \<Rightarrow> f p q)"
  by (simp split: prod.splits)

locale stable_daemon =
  fixes E :: "('l, 'z) daemon_env_scheme" and P :: "'l daemon \<Rightarrow> bool"
  assumes stable_steps [stable_rules]:
    "stable_proc P (inject p)" "stable_proc P (build_packet E ins opk payload isk)" "stable_proc P (anon_osk E isk)"
    "stable_proc P (one_reply_block E ins osk isk)" "stable_proc P (process_inner_pkt E pkt src dst)"
    "stable_proc P (forward_packet next_hop raw)"
    and keeps_fields: "P s \<Longrightarrow> P (s\<lparr>balance_table := b\<rparr>)" "P s \<Longrightarrow> P (s\<lparr>anon_dests := a\<rparr>)"
      "P s \<Longrightarrow> P (s\<lparr>degarblers := (degarblers s)(i := None)\<rparr>)"
begin

lemma keeps_balance: "P s \<Longrightarrow> P (snd (rb_balance isk fp s))" "P s \<Longrightarrow> P (decrement_rrb_balance isk fp s)"
  using keeps_fields(1) by (auto simp: rb_balance_def decrement_rrb_balance_def split: option.splits prod.splits)

lemma stable_reads [stable_rules]:
  "stable_proc P (route_between E a b c)" "stable_proc P (opk_of fp)" "stable_proc P (instructs_of route)"
  by (simp_all add: route_between_def opk_of_def instructs_of_def stable_basic)

lemma stable_make_reply_blocks [stable_rules]: "stable_proc P (make_reply_blocks E n ins osk isk)"
proof (induction n)
  case (Suc n)
  show ?case unfolding make_reply_blocks.simps by (intro stable_rules Suc.IH)
qed (simp add: stable_basic)

lemma stable_send_reply_blocks [stable_rules]: "stable_proc P (send_reply_blocks E count isk dst)"
  unfolding send_reply_blocks_def by (intro stable_rules)

lemma stable_replenish [stable_rules]: "stable_proc P (replenish_rrb E isk dst)"
proof -
  have "E = E \<longrightarrow> P s \<longrightarrow> P (snd y)" if "replenish_rrb E isk dst s = Some y" for s y
  proof (rule replenish_rrb.raw_induct[where P = "\<lambda>E' isk dst s y. E' = E \<longrightarrow> P s \<longrightarrow> P (snd y)", OF _ that], intro impI)
    fix loop E' isk dst s y
    assume IH: "\<And>E' isk dst s y. loop E' isk dst s = Some y \<Longrightarrow> E' = E \<longrightarrow> P s \<longrightarrow> P (snd y)"
      and E: "E' = E" and s: "P s"
      and body: "(let (b, s1) = rb_balance isk dst s in if b < 100 then
             (case send_reply_blocks E' BATCH_SIZE isk dst s1 of None \<Rightarrow> None
              | Some (Inl e, s2) \<Rightarrow> Some (Inl e, s2)
              | Some (Inr x, s2) \<Rightarrow> let (b', s3) = rb_balance isk dst s2
                 in loop E' isk dst (s3\<lparr>balance_table := (balance_table s3)((isk, dst) \<mapsto> b' + int (BATCH_SIZE div 2))\<rparr>))
           else Some (Inr (), s1)) = Some y"
    obtain b s1 where b: "rb_balance isk dst s = (b, s1)" by (cases "rb_balance isk dst s")
    have s1: "P s1" using keeps_balance(1)[OF s, of isk dst] b by simp
    show "P (snd y)"
    proof (cases "b < 100")
      case True
      then obtain r s2 where r: "send_reply_blocks E BATCH_SIZE isk dst s1 = Some (r, s2)"
        using body b E by (auto split: option.splits)
      have s2: "P s2" using stable_procD[OF stable_send_reply_blocks s1 r] .
      obtain b' s3 where b3: "rb_balance isk dst s2 = (b', s3)" by (cases "rb_balance isk dst s2")
      have "P (s3\<lparr>balance_table := t\<rparr>)" for t using keeps_fields(1) keeps_balance(1)[OF s2, of isk dst] b3 by simp
      then show ?thesis using body b True r b3 s2 E IH by (cases r) auto
    qed (use body b s1 in auto)
  qed
  then show ?thesis unfolding stable_proc_def by fastforce
qed

lemma stable_send_n2r [stable_rules]: "stable_proc P (send_n2r E isk dock dst ddock content)"
  unfolding send_n2r_def by (intro stable_rules keeps_fields)

lemma stable_process_garbled [stable_rules]: "stable_proc P (process_garbled E i b)"
  unfolding process_garbled_def by (intro stable_rules keeps_fields keeps_balance)

lemma stable_peel_forward [stable_rules]: "stable_proc P (peel_forward E pkt)"
proof -
  have "stable_proc P (case p of Forward n q \<Rightarrow> forward_packet n q
      | Received src q \<Rightarrow> bind_proc (gets (my_fp E)) (\<lambda>me. process_inner_pkt E q src me)
      | GarbledReply i b \<Rightarrow> process_garbled E i b)" for p
    by (cases p) (simp_all add: stable_rules)
  then show ?thesis unfolding peel_forward_def by (intro stable_rules)
qed

end

section \<open>Views\<close>

abbreviation unchanged :: "('s \<Rightarrow> 'v) \<Rightarrow> ('s, 'e, 'a) proc \<Rightarrow> bool" where
  "unchanged view m \<equiv> (\<forall>v. stable_proc (\<lambda>s. view s = v) m)"

named_theorems frame_rules \<open>procedures that leave a view as it is\<close>

lemma framed_bind [frame_rules]: "unchanged view m \<Longrightarrow> (\<And>x. unchanged view (f x)) \<Longrightarrow> unchanged view (bind_proc m f)"
  by (simp add: stable_bind)

lemma framed_basic [frame_rules]:
  "unchanged view (ret x)" "unchanged view (raise e)" "unchanged view (gets g)" "unchanged view (lift_res h)" "unchanged view (lift_loop l)"
  by (simp_all add: stable_basic)

lemma framed_if [frame_rules]: "(b \<Longrightarrow> unchanged view m) \<Longrightarrow> (\<not> b \<Longrightarrow> unchanged view m') \<Longrightarrow> unchanged view (if b then m else m')"
  by simp

lemma framed_option [frame_rules]: "unchanged view m \<Longrightarrow> (\<And>x. unchanged view (f x)) \<Longrightarrow> unchanged view (case z of None \<Rightarrow> m | Some x \<Rightarrow> f x)"
  by (simp split: option.splits)

lemma framedD: "unchanged view m \<Longrightarrow> m s = Some (r, s') \<Longrightarrow> view s' = view s"
  unfolding stable_proc_def by blast

locale daemon_view =
  fixes view :: "'l daemon \<Rightarrow> 'v"
  assumes view_fields [simp]:
    "view (s\<lparr>rng := r\<rparr>) = view s" "view (s\<lparr>degarblers := d\<rparr>) = view s" "view (s\<lparr>balance_table := b\<rparr>) = view s"
    "view (s\<lparr>onion_sk_cache := k\<rparr>) = view s" "view (s\<lparr>anon_dests := a\<rparr>) = view s" "view (s\<lparr>socket_recv_queues := q\<rparr>) = view s"
    "view (s\<lparr>neigh := inject_asif_incoming p (neigh s)\<rparr>) = view s"
    and view_links: "view (s\<lparr>links := \<lambda>k. if k = c then map_option (send_raw_packet pkt) (links s c) else links s k\<rparr>) = view s"

sublocale daemon_view \<subseteq> viewed: stable_daemon E "\<lambda>s. view s = v" for E :: "('l, 'z) daemon_env_scheme" and v
  by unfold_locales
    (auto simp: stable_proc_def inject_def modify_def build_packet_def anon_osk_def one_reply_block_def process_inner_pkt_def
      forward_packet_def view_links Let_def split: option.splits sum.splits inner_packet.splits)

context daemon_view
begin

lemma framed_send_n2r [frame_rules]: "unchanged view (send_n2r E isk dock dst ddock content)"
  by (simp add: viewed.stable_send_n2r)

lemma framed_peel_forward [frame_rules]: "unchanged view (peel_forward E pkt)"
  by (simp add: viewed.stable_peel_forward)

end

interpretation graph_frame: daemon_view graph
  by unfold_locales simp_all

end
