(* ===== verification/Routes.thy ===== *)
theory Routes
  imports Link_Protocol Frame
begin

text \<open>
  \<open>src/daemon/inout_route.rs\<close>: the routes a node is configured with, which turn pipes into neighbours.
  An in-route accepts any authenticated peer for five minutes; an out-route pins one configured
  peer.  The pipes of \<open>sosistab2_obfsudp\<close> are third-party code: what a pipe's authentication yields
  is an argument, as is the name \<open>c\<close> of the new connection.  Times are in milliseconds.  The
  second part follows who the neighbours are through everything a daemon does.
\<close>

section \<open>Routes\<close>

datatype route_error = ConnectError connect_error | PipeFailed | WrongFingerprint fingerprint fingerprint | RouteTimeout

text \<open>The task spawned for an accepted pipe.\<close>

definition in_route_accept ::
    "('l, 'z) daemon_env_scheme \<Rightarrow> instant \<Rightarrow> conn \<Rightarrow> auth_response option \<Rightarrow> bytes option \<Rightarrow> ('l daemon, route_error, unit) proc" where
  "in_route_accept E now c resp peer_pk = (\<lambda>s.
     case link_connect E resp peer_pk of
       Inl e \<Rightarrow> Some (Inl (Err (ConnectError e)), s)
     | Inr connection \<Rightarrow>
         Some (Inr (), s\<lparr>links := (links s)(c \<mapsto> connection),
           neigh := neigh_insert now (fingerprint_of E (remote_idpk connection)) c 300000 (neigh s)\<rparr>))"

text \<open>
  A turn of an out-route: \<open>in_time\<close> tells whether the attempt ends before the timer, which ticks every
  minute and cuts it off, and \<open>pipe\<close> whether the pipe connects.
\<close>

definition out_route_turn ::
    "('l, 'z) daemon_env_scheme \<Rightarrow> instant \<Rightarrow> fingerprint \<Rightarrow> conn \<Rightarrow> bool \<Rightarrow> bool \<Rightarrow> auth_response option \<Rightarrow> bytes option
       \<Rightarrow> ('l daemon, route_error, unit) proc" where
  "out_route_turn E now remote_fingerprint c in_time pipe resp peer_pk = (\<lambda>s.
     if \<not> in_time then Some (Inl (Err RouteTimeout), s)
     else if \<not> pipe then Some (Inl (Err PipeFailed), s)
     else case link_connect E resp peer_pk of
       Inl e \<Rightarrow> Some (Inl (Err (ConnectError e)), s)
     | Inr connection \<Rightarrow>
         if fingerprint_of E (remote_idpk connection) \<noteq> remote_fingerprint
         then Some (Inl (Err (WrongFingerprint (fingerprint_of E (remote_idpk connection)) remote_fingerprint)), s)
         else Some (Inr (), s\<lparr>links := (links s)(c \<mapsto> connection),
           neigh := neigh_insert_pinned now remote_fingerprint c (neigh s)\<rparr>))"

section \<open>Frame: what gossip leaves alone\<close>

text \<open>Gossip writes to the relay graph only: a view that does not depend on the graph is left as it is.\<close>

locale graph_blind =
  fixes view :: "'l daemon \<Rightarrow> 'v"
  assumes view_graph [simp]: "view (s\<lparr>graph := g\<rparr>) = view s"
begin

lemma framed_gossip_steps [frame_rules]:
  "unchanged view (insert_identity_proc E d)" "unchanged view (insert_adjacency_proc E now a)" "unchanged view (rpc answer)"
  "unchanged view (gossip_self E now am_i_relay)"
  by (auto simp: stable_proc_def insert_identity_proc_def insert_adjacency_proc_def gossip_self_def rpc_def Let_def
      raise_def ret_def split: prod.splits sum.splits)

lemma framed_gossip_once [frame_rules]: "unchanged view (gossip_once E now sample peer remote)"
proof -
  have "unchanged view (fetch_identity E peer remote)" unfolding fetch_identity_def by (intro frame_rules)
  moreover have "unchanged view (gossip_sign_adjacency E now peer remote)"
  proof -
    let ?ask = "\<lambda>s. bind_proc (rpc (rpc_sign_adjacency peer (adjacency_offer E now (fingerprint_of E remote) s))) (\<lambda>answer.
      case answer of None \<Rightarrow> raise RefusedToSign | Some complete \<Rightarrow> insert_adjacency_proc E now complete)"
    have ask: "unchanged view (?ask s)" for s by (intro frame_rules)
    have "view s' = view s" if "gossip_sign_adjacency E now peer remote s = Some (r, s')" for s r s'
      using that framedD[OF ask, of s s r s'] by (simp add: gossip_sign_adjacency_def split: if_splits)
    then show ?thesis unfolding stable_proc_def by blast
  qed
  moreover have "unchanged view (gossip_insert_all E now peer as)" for as
  proof (induction as)
    case (Cons a as)
    show ?case unfolding gossip_insert_all.simps by (intro frame_rules Cons.IH)
  qed (simp add: stable_basic)
  then have "unchanged view (gossip_graph E now sample peer)" unfolding gossip_graph_def by (intro frame_rules)
  ultimately show ?thesis unfolding gossip_once_def by (intro frame_rules)
qed

lemma framed_gossip_turn [frame_rules]: "unchanged view (gossip_turn E now am_i_relay order pick)"
  unfolding gossip_turn_def by (intro frame_rules)

end

locale graphless_view = daemon_view view + graph_blind view for view :: "'l daemon \<Rightarrow> 'v"

text \<open>
  What a daemon knows of its neighbours: the table without its queue, and of each link the key of the
  multiplex and the identity behind it.
\<close>

definition link_id :: "link_connection \<Rightarrow> bytes \<times> identity_public" where
  "link_id l = (mux_peer_pk l, remote_idpk l)"

definition nview :: "'l daemon \<Rightarrow> (fingerprint \<rightharpoonup> conn \<times> instant option) \<times> (conn \<rightharpoonup> bytes \<times> identity_public)" where
  "nview s = (neigh_entries (neigh s), \<lambda>c. map_option link_id (links s c))"

lemma link_id_queues [simp]:
  "link_id (l\<lparr>send_outgoing := q\<rparr>) = link_id l" "link_id (l\<lparr>recv_incoming := q\<rparr>) = link_id l" "link_id (send_raw_packet pkt l) = link_id l"
  by (simp_all add: link_id_def send_raw_packet_def)

abbreviation framed :: "('l daemon, 'e, 'a) proc \<Rightarrow> bool" where
  "framed m \<equiv> unchanged nview m"

interpretation neighbour_frame: graphless_view nview
  by unfold_locales (auto simp: nview_def inject_asif_incoming_def option.map_comp o_def fun_eq_iff)

section \<open>A daemon and its neighbours\<close>

definition after :: "('s, 'e, 'a) proc \<Rightarrow> 's \<Rightarrow> 's" where
  "after m s = (case m s of None \<Rightarrow> s | Some (_, s') \<Rightarrow> s')"

datatype node_op =
    OpPacket
  | OpSend identity_secret dock fingerprint dock "bytes list"
  | OpGossip u64 "fingerprint list \<Rightarrow> fingerprint list" link_peer identity_public
  | OpGossipTurn u64 bool "fingerprint list" nat
  | OpSign u64 adjacency_descriptor
  | OpInRoute instant conn "auth_response option" "bytes option"
  | OpOutRoute instant fingerprint conn bool bool "auth_response option" "bytes option"
  | OpCollect instant
  | OpPump conn
  | OpWireUp conn
  | OpWireDn conn bytes

text \<open>Every operation that touches links or neighbours; the name of a new connection is not in use.\<close>

fun node_step :: "('l, 'z) daemon_env_scheme \<Rightarrow> node_op \<Rightarrow> 'l daemon \<Rightarrow> 'l daemon" where
  "node_step E OpPacket s = (case peel_forward_turn E s of Some (Some (_, s')) \<Rightarrow> s' | _ \<Rightarrow> s)"
| "node_step E (OpSend isk d dst dd content) s = after (send_n2r E isk d dst dd content) s"
| "node_step E (OpGossip now sample peer remote) s = after (gossip_once E now sample peer remote) s"
| "node_step E (OpGossipTurn now am_i_relay order pick) s = after (gossip_turn E now am_i_relay order pick) s"
| "node_step E (OpSign now a) s = snd (handle_sign_adjacency E now a s)"
| "node_step E (OpInRoute now c resp pk) s = (if links s c = None then after (in_route_accept E now c resp pk) s else s)"
| "node_step E (OpOutRoute now fp c in_time pipe resp pk) s =
     (if links s c = None then after (out_route_turn E now fp c in_time pipe resp pk) s else s)"
| "node_step E (OpCollect now) s = s\<lparr>neigh := garbage_collect now (neigh s)\<rparr>"
| "node_step E (OpPump c) s = (case links s c of None \<Rightarrow> s | Some l \<Rightarrow>
     (case neigh_pump l (neigh s) of None \<Rightarrow> s | Some (l', t) \<Rightarrow> s\<lparr>links := (links s)(c \<mapsto> l'), neigh := t\<rparr>))"
| "node_step E (OpWireUp c) s = (case links s c of None \<Rightarrow> s | Some l \<Rightarrow>
     (case onion_up l of None \<Rightarrow> s | Some (_, l') \<Rightarrow> s\<lparr>links := (links s)(c \<mapsto> l')\<rparr>))"
| "node_step E (OpWireDn c b) s = (case links s c of None \<Rightarrow> s | Some l \<Rightarrow>
     (case onion_dn b l of Inl _ \<Rightarrow> s | Inr l' \<Rightarrow> s\<lparr>links := (links s)(c \<mapsto> l')\<rparr>))"

text \<open>
  What a node keeps whatever it does: a property that does not depend on the graph, the neighbours and the
  links, and that sending and peeling keep.
\<close>

locale stable_node = stable_daemon E P for E :: "('l, 'z) daemon_env_scheme" and P +
  assumes keeps_network: "P s \<Longrightarrow> P (s\<lparr>graph := g, neigh := t, links := l\<rparr>)"
begin

lemma keeps_peel_forward_turn: "P s \<Longrightarrow> P (node_step E OpPacket s)"
proof (cases "recv_raw_packet (neigh s)")
  case (Some pt)
  obtain pkt t where pt: "pt = (pkt, t)" by (cases pt)
  assume s: "P s"
  then have "P (s\<lparr>neigh := t\<rparr>)" using keeps_network[where s = s and g = "graph s" and t = t and l = "links s"] by simp
  then show ?thesis using s Some pt stable_procD[OF stable_peel_forward, of "s\<lparr>neigh := t\<rparr>" pkt]
    by (cases "peel_forward E pkt (s\<lparr>neigh := t\<rparr>)") (auto simp: peel_forward_turn_def)
qed (simp add: peel_forward_turn_def)

end

interpretation off_graph: graph_blind "\<lambda>s. s\<lparr>graph := relay_graph_new\<rparr>"
  by unfold_locales simp

lemma graph_only:
  assumes "unchanged (\<lambda>s. s\<lparr>graph := relay_graph_new\<rparr>) m"
  shows "\<exists>g. after m s = s\<lparr>graph := g\<rparr>"
proof (cases "m s")
  case None
  then have "after m s = s\<lparr>graph := graph s\<rparr>" by (simp add: after_def)
  then show ?thesis by blast
next
  case (Some y)
  then have "(after m s)\<lparr>graph := relay_graph_new\<rparr> = s\<lparr>graph := relay_graph_new\<rparr>"
    using framedD[OF assms, of s "fst y" "snd y"] by (cases y) (simp add: after_def)
  then have "after m s = s\<lparr>graph := graph (after m s)\<rparr>" by (cases "after m s"; cases s) simp
  then show ?thesis by blast
qed

text \<open>Every other operation of a node changes at most its graph, its neighbours and its links.\<close>

lemma node_step_network:
  assumes "a \<noteq> OpPacket" "\<And>isk d dst dd content. a \<noteq> OpSend isk d dst dd content"
  shows "\<exists>g t l. node_step E a s = s\<lparr>graph := g, neigh := t, links := l\<rparr>"
proof -
  have *: "\<exists>g t l. s' = s\<lparr>graph := g, neigh := t, links := l\<rparr>" if "s' = s\<lparr>graph := graph s', neigh := neigh s', links := links s'\<rparr>" for s'
    using that by blast
  show ?thesis
  proof (cases a)
    case (OpGossip now sample peer remote)
    then show ?thesis using graph_only[OF off_graph.framed_gossip_once, of E now sample peer remote s] by (auto intro!: *)
  next
    case (OpGossipTurn now am_i_relay order pick)
    then show ?thesis using graph_only[OF off_graph.framed_gossip_turn, of E now am_i_relay order pick s] by (auto intro!: *)
  qed (use assms in \<open>auto intro!: * simp: handle_sign_adjacency_def Let_def after_def in_route_accept_def out_route_turn_def
        split: option.splits sum.splits prod.splits list.splits\<close>)
qed

context stable_node
begin

lemma keeps_node_step: "P s \<Longrightarrow> P (node_step E a s)"
proof (cases "a = OpPacket \<or> (\<exists>isk d dst dd content. a = OpSend isk d dst dd content)")
  case True
  assume "P s"
  then show ?thesis using True keeps_peel_forward_turn stable_procD[OF stable_send_n2r]
    by (auto simp: after_def simp del: node_step.simps(1) split: option.splits)
next
  case False
  assume "P s"
  then show ?thesis using False node_step_network[of a E s] keeps_network by auto
qed

end

text \<open>
  The operations that make a link: over the connection \<open>c\<close>, whose multiplex knows its peer by the key \<open>pk\<close>, the
  peer answered \<open>resp\<close>.
\<close>

definition connects :: "node_op \<Rightarrow> conn \<Rightarrow> auth_response \<Rightarrow> bytes \<Rightarrow> bool" where
  "connects a c resp pk \<longleftrightarrow> (\<exists>now. a = OpInRoute now c (Some resp) (Some pk)) \<or>
     (\<exists>now fp. a = OpOutRoute now fp c True True (Some resp) (Some pk))"

text \<open>
  A neighbour is authentic, given the operations \<open>H\<close>, if one of them made its link, with a response that is
  a signature of the key of that very link, by an identity with the fingerprint the neighbour
  is listed under; and that identity and that key are the link's.
\<close>

definition authentic_neighbours :: "('l, 'z) daemon_env_scheme \<Rightarrow> node_op set \<Rightarrow> 'l daemon \<Rightarrow> bool" where
  "authentic_neighbours E H s \<longleftrightarrow> (\<forall>fp c. neigh_lookup (neigh s) fp = Some c \<longrightarrow>
     (\<exists>a \<in> H. \<exists>resp pk. connects a c resp pk \<and> map_option link_id (links s c) = Some (pk, full_pk resp) \<and>
       fingerprint_of E (full_pk resp) = fp \<and> auth_response_verify E resp pk = Inr ()))"

lemma authentic_neighbours_nview: "nview s' = nview s \<Longrightarrow> authentic_neighbours E H s' = authentic_neighbours E H s"
  unfolding authentic_neighbours_def nview_def neigh_lookup_def by (simp add: fun_eq_iff)

lemma after_framed:
  assumes "framed m"
  shows "nview (after m s) = nview s"
  using framedD[OF assms, of s] by (cases "m s") (auto simp: after_def)

lemma nview_link: "links s c = Some l \<Longrightarrow> link_id l' = link_id l \<Longrightarrow> nview (s\<lparr>links := (links s)(c \<mapsto> l')\<rparr>) = nview s"
  by (auto simp: nview_def fun_eq_iff)

lemma link_connect_ok:
  assumes "link_connect C resp pk = Inr l"
  obtains r k where "resp = Some r" "pk = Some k" "auth_response_verify C r k = Inr ()" "link_id l = (k, full_pk r)"
  using assms by (auto simp: link_connect_def link_id_def split: option.splits sum.splits)

lemma authentic_insert:
  assumes auth: "authentic_neighbours E H s" "links s c = None"
    and new: "link_connect E resp pk = Inr l" "fingerprint_of E (remote_idpk l) = fp"
    and made: "a \<in> H" "\<And>r k. resp = Some r \<Longrightarrow> pk = Some k \<Longrightarrow> connects a c r k"
  shows "authentic_neighbours E H (s\<lparr>links := (links s)(c \<mapsto> l), neigh := neigh_insert_inner now fp c ttl (neigh s)\<rparr>)"
proof -
  obtain r k where r: "resp = Some r" "pk = Some k" "auth_response_verify E r k = Inr ()" "link_id l = (k, full_pk r)"
    using link_connect_ok[OF new(1)] .
  then have mine: "connects a c r k" "fingerprint_of E (full_pk r) = fp" using made(2) new(2) by (auto simp: link_id_def)
  show ?thesis unfolding authentic_neighbours_def
  proof (intro allI impI)
    fix fp' c' assume look: "neigh_lookup (neigh (s\<lparr>links := (links s)(c \<mapsto> l), neigh := neigh_insert_inner now fp c ttl (neigh s)\<rparr>)) fp' = Some c'"
    show "\<exists>a \<in> H. \<exists>resp pk. connects a c' resp pk \<and>
        map_option link_id (links (s\<lparr>links := (links s)(c \<mapsto> l), neigh := neigh_insert_inner now fp c ttl (neigh s)\<rparr>) c') = Some (pk, full_pk resp) \<and>
        fingerprint_of E (full_pk resp) = fp' \<and> auth_response_verify E resp pk = Inr ()"
    proof (cases "fp' = fp")
      case True
      then have "c' = c" using look by (simp add: neigh_lookup_def neigh_insert_inner_def)
      then show ?thesis using True r(3,4) mine made(1) by (intro bexI[of _ a] exI[of _ r] exI[of _ k]) simp_all
    next
      case False
      then have "neigh_lookup (neigh s) fp' = Some c'" using look by (simp add: neigh_lookup_def neigh_insert_inner_def)
      then obtain a' r' k' where old: "a' \<in> H" "connects a' c' r' k'" "map_option link_id (links s c') = Some (k', full_pk r')"
          "fingerprint_of E (full_pk r') = fp'" "auth_response_verify E r' k' = Inr ()"
        using auth(1) unfolding authentic_neighbours_def by blast
      then have "c' \<noteq> c" using auth(2) by auto
      then show ?thesis using old by (intro bexI[of _ a'] exI[of _ r'] exI[of _ k']) simp_all
    qed
  qed
qed

lemma node_step_authentic:
  assumes "authentic_neighbours E H s" and made: "a \<in> H"
  shows "authentic_neighbours E H (node_step E a s)"
proof (cases a)
  case OpPacket
  have "nview (node_step E OpPacket s) = nview s"
  proof (cases "recv_raw_packet (neigh s)")
    case (Some pt)
    obtain pkt t where pt: "pt = (pkt, t)" by (cases pt)
    have "nview (s\<lparr>neigh := t\<rparr>) = nview s"
      using Some pt by (auto simp: recv_raw_packet_def nview_def split: list.splits)
    then show ?thesis using Some pt framedD[OF neighbour_frame.framed_peel_forward, of E pkt "s\<lparr>neigh := t\<rparr>"]
      by (cases "peel_forward E pkt (s\<lparr>neigh := t\<rparr>)") (auto simp: peel_forward_turn_def)
  qed (simp add: peel_forward_turn_def)
  then show ?thesis using assms OpPacket authentic_neighbours_nview by blast
next
  case (OpSign now d)
  have "nview (snd (handle_sign_adjacency E now d s)) = nview s" by (simp add: handle_sign_adjacency_def Let_def split: prod.splits)
  then show ?thesis using assms OpSign authentic_neighbours_nview by (metis node_step.simps(5))
next
  case (OpInRoute now c resp pk)
  then show ?thesis using assms authentic_insert[OF assms(1) _ _ _ made, of c resp pk]
    by (auto simp: after_def in_route_accept_def neigh_insert_def connects_def split: sum.splits)
next
  case (OpOutRoute now fp c in_time pipe resp pk)
  then show ?thesis using assms authentic_insert[OF assms(1) _ _ _ made, of c resp pk]
    by (auto simp: after_def out_route_turn_def neigh_insert_pinned_def connects_def split: sum.splits)
next
  case (OpCollect now)
  then show ?thesis using assms
    by (auto simp: authentic_neighbours_def neigh_lookup_def garbage_collect_def split: option.splits if_splits prod.splits)
next
  case (OpPump c)
  have "nview (node_step E (OpPump c) s) = nview s"
    by (auto simp: nview_def neigh_pump_def inject_asif_incoming_def fun_eq_iff split: option.splits list.splits)
  then show ?thesis using assms OpPump authentic_neighbours_nview by blast
next
  case (OpWireUp c)
  have "nview (node_step E (OpWireUp c) s) = nview s"
    by (auto simp: onion_up_def split: option.splits list.splits intro!: nview_link)
  then show ?thesis using assms OpWireUp authentic_neighbours_nview by blast
next
  case (OpWireDn c b)
  have "nview (node_step E (OpWireDn c b) s) = nview s"
    by (auto simp: onion_dn_def split: option.splits sum.splits intro!: nview_link)
  then show ?thesis using assms OpWireDn authentic_neighbours_nview by blast
qed (use assms in \<open>simp_all add: authentic_neighbours_nview[OF after_framed] frame_rules\<close>)

interpretation node_machine: stable_machine "\<lambda>a s. if a \<in> H then node_step E a s else s" "authentic_neighbours E H"
  for E :: "('l, 'z) daemon_env_scheme" and H
  by unfold_locales (simp add: node_step_authentic)

text \<open>
  (C9) Every neighbour is who it is listed as.  However packets, sends, gossip, requests of peers, new
  links, expiry and link traffic interleave, from a daemon without neighbours on: a lookup in the
  neighbour table yields a link that one of these operations made, over a multiplex with the
  peer key the link keeps; the response the peer gave on that connection is a signature of that very
  key, by the identity the link carries, and the fingerprint of this identity is the one looked up.
\<close>

theorem neighbours_authentic:
  assumes "neigh_entries (neigh s0) = Map.empty" "s = fold (node_step E) ops s0" "neigh_lookup (neigh s) fp = Some c"
  shows "\<exists>l. links s c = Some l \<and> fingerprint_of E (remote_idpk l) = fp \<and>
    (\<exists>a \<in> set ops. \<exists>resp. connects a c resp (mux_peer_pk l) \<and> full_pk resp = remote_idpk l \<and>
       verify E (remote_idpk l) (auth_to_sign E (mux_peer_pk l)) (binding_sig resp) = Inr ())"
proof -
  have "authentic_neighbours E (set ops) s0" using assms(1) by (simp add: authentic_neighbours_def neigh_lookup_def)
  then have "authentic_neighbours E (set ops) (fold (\<lambda>a s. if a \<in> set ops then node_step E a s else s) ops s0)"
    by (rule node_machine.run_inv)
  also have "fold (\<lambda>a s. if a \<in> set ops then node_step E a s else s) ops s0 = s"
    unfolding assms(2) by (rule fold_cong) simp_all
  finally show ?thesis using assms(3) by (fastforce simp: authentic_neighbours_def auth_response_verify_def link_id_def)
qed

theorem neighbours_authentic_witness:
  "\<exists>l. links (fold (node_step demo_denv) [OpInRoute 0 9 (Some (auth_response_new demo_denv (demo_isk 3) [7])) (Some [7]), OpCollect 5, OpPump 9]
       demo_daemon) 9 = Some l \<and> fingerprint_of demo_denv (remote_idpk l) = demo_fp 3 \<and> mux_peer_pk l = [7] \<and>
     verify demo_denv (remote_idpk l) (auth_to_sign demo_denv [7]) (binding_sig (auth_response_new demo_denv (demo_isk 3) [7])) = Inr ()"
proof -
  let ?ops = "[OpInRoute 0 9 (Some (auth_response_new demo_denv (demo_isk 3) [7])) (Some [7]), OpCollect 5, OpPump 9]"
  let ?s = "fold (node_step demo_denv) ?ops demo_daemon"
  let ?l = "\<lparr>mux_peer_pk = [7], remote_idpk = identity_public_of demo_denv (demo_isk 3), send_outgoing = [], recv_incoming = []\<rparr>"
  have conn: "link_connect demo_denv (Some (auth_response_new demo_denv (demo_isk 3) [7])) (Some [7]) = Inr ?l"
    using demo_ed25519 by (simp add: link_connect_def auth_response_verify_def auth_response_new_def)
  have fp: "fingerprint_of demo_denv (remote_idpk ?l) = demo_fp 3" by (simp add: demo_denv_same demo_fp_def)
  have look: "neigh_lookup (neigh ?s) (demo_fp 3) = Some 9"
    by (simp add: after_def in_route_accept_def conn fp[simplified] demo_daemon_def neigh_insert_def neigh_insert_inner_def
        neigh_table_new_def garbage_collect_def neigh_pump_def neigh_lookup_def)
  have "neigh_entries (neigh demo_daemon) = Map.empty" by (simp add: demo_daemon_def neigh_table_new_def)
  from neighbours_authentic[OF this refl look] obtain l a resp where l: "links ?s 9 = Some l" "fingerprint_of demo_denv (remote_idpk l) = demo_fp 3"
      and a: "a \<in> set ?ops" "connects a 9 resp (mux_peer_pk l)"
        "verify demo_denv (remote_idpk l) (auth_to_sign demo_denv (mux_peer_pk l)) (binding_sig resp) = Inr ()"
    by blast
  from a(1,2) have "resp = auth_response_new demo_denv (demo_isk 3) [7]" "mux_peer_pk l = [7]" by (auto simp: connects_def)
  then show ?thesis using l a(3) by (intro exI[of _ l]) simp
qed

text \<open>An out-route accepts nobody but its configured peer, and a peer it accepted does not expire.\<close>

lemma out_route_pins:
  assumes "out_route_turn E now fp c in_time pipe resp pk s = Some (Inr (), s')"
  shows "\<exists>l. links s' c = Some l \<and> fingerprint_of E (remote_idpk l) = fp \<and> neigh_lookup (garbage_collect t (neigh s')) fp = Some c"
  using assms
  by (auto simp: out_route_turn_def neigh_insert_pinned_def neigh_insert_inner_def neigh_lookup_def garbage_collect_def
      split: if_splits sum.splits)

end
