(* ===== verification/Graph_Dump.thy ===== *)
theory Graph_Dump
  imports Routes Control
begin

text \<open>
  The reports of the control protocol: \<open>my_routes\<close> and \<open>graph_dump\<close> of
  \<open>src/daemon/control_protocol_impl.rs\<close>.  A fingerprint is printed in quotes; its characters are letters
  and digits, which the debug format leaves as they are.  The keys of \<open>sosistab2_obfsudp\<close> and hexadecimal
  encoding are third-party code, given as \<open>cookie_of\<close>; the order in which the neighbour table is
  iterated is an argument.
\<close>

section \<open>Routes\<close>

record in_route_config =
  ir_listen_ip :: string
  ir_listen_port :: u16
  ir_secret :: string

record route_info =
  ri_fingerprint :: string
  ri_connect :: string
  ri_cookie :: string

definition my_routes ::
    "('l, 'z) daemon_env_scheme \<Rightarrow> (bytes \<Rightarrow> string) \<Rightarrow> (string \<times> in_route_config) list \<Rightarrow> 'l daemon \<Rightarrow> (string \<times> route_info) list" where
  "my_routes E cookie_of in_routes s = map (\<lambda>(k, v). (k,
     \<lparr>ri_fingerprint = fingerprint_to_string E (my_fp E s),
      ri_connect = ''<YOUR_IP>:'' @ show_nat (unat (ir_listen_port v)),
      ri_cookie = cookie_of (blake3_hash E (bytes_of_string (ir_secret v)))\<rparr>)) in_routes"

section \<open>The graph\<close>

abbreviation nl :: string where
  "nl \<equiv> [CHR 0x0A]"

definition debug_string :: "string \<Rightarrow> string" where
  "debug_string s = [CHR 0x22] @ s @ [CHR 0x22]"

abbreviation quoted :: "'z crypto_scheme \<Rightarrow> fingerprint \<Rightarrow> string" where
  "quoted C fp \<equiv> debug_string (fingerprint_to_string C fp)"

definition dump_neighs :: "('l, 'z) daemon_env_scheme \<Rightarrow> fingerprint list \<Rightarrow> 'l daemon \<Rightarrow> string" where
  "dump_neighs E order s = concat (map (\<lambda>c. case links s c of
     None \<Rightarrow> [] | Some l \<Rightarrow> quoted E (fingerprint_of E (remote_idpk l)) @ nl) (all_neighs order (neigh s)))"

definition human_adjacencies :: "('l, 'z) daemon_env_scheme \<Rightarrow> 'l daemon \<Rightarrow> adjacency_descriptor list" where
  "human_adjacencies E s = sort_key left (filter (both_relays (graph s)) (all_adjacencies E (graph s)))"

definition dot_adjacencies :: "('l, 'z) daemon_env_scheme \<Rightarrow> 'l daemon \<Rightarrow> adjacency_descriptor list" where
  "dot_adjacencies E s = sort_key left (all_adjacencies E (graph s))"

text \<open>The first and last four characters label a node; slicing a shorter string panics.\<close>

definition dot_node :: "string \<Rightarrow> (unit, string) res" where
  "dot_node node =
     (if length node < 4 then Inl Panic
      else Inr (debug_string node @ '' [label='' @ [CHR 0x22] @ take 4 node @ ''..'' @ drop (length node - 4) node @ [CHR 0x22] @ '']'' @ nl))"

definition spaces :: "nat \<Rightarrow> string" where
  "spaces n = replicate n CHR '' ''"

definition graph_dump ::
    "('l, 'z) daemon_env_scheme \<Rightarrow> fingerprint list \<Rightarrow> (string \<times> in_route_config) list \<Rightarrow> bool \<Rightarrow> 'l daemon \<Rightarrow> (unit, string) res" where
  "graph_dump E order in_routes human s =
     (let self = fingerprint_to_string E (my_fp E s);
          relay_or_client = (if in_routes = [] then ''client'' else ''relay'')
      in if human then
           Inr (''My fingerprint:'' @ nl @ self @ ''    ['' @ relay_or_client @ '']'' @ nl @ nl @ ''My neighbors:'' @ nl @
             dump_neighs E order s @ nl @ ''Relay graph:'' @ nl @
             concat (map (\<lambda>a. quoted E (left a) @ '' -- '' @ quoted E (right a) @ nl) (human_adjacencies E s)))
         else
           bind_res (collect_res (\<lambda>fp. dot_node (fingerprint_to_string E fp)) (all_nodes E (graph s))) (\<lambda>nodes.
             Inr (''digraph G {'' @ nl @
               spaces 16 @ ''subgraph cluster_0 {'' @ nl @
               spaces 20 @ ''color=lightblue;'' @ nl @
               spaces 20 @ ''label='' @ [CHR 0x22] @ ''myself      ['' @ relay_or_client @ '']'' @ [CHR 0x22] @ '';'' @ nl @
               spaces 20 @ ''node [shape=Mdiamond,color=lightblue,style=filled];'' @ nl @
               spaces 20 @ debug_string self @ nl @
               spaces 16 @ ''}'' @ nl @
               spaces 16 @ ''subgraph cluster_1 {'' @ nl @
               spaces 20 @ ''color=lightpink'' @ nl @
               spaces 20 @ ''label='' @ [CHR 0x22] @ ''my neighbors'' @ [CHR 0x22] @ '';'' @ nl @
               spaces 20 @ ''node [color=lightpink,style=filled]'' @ nl @
               spaces 20 @ dump_neighs E order s @ nl @
               spaces 16 @ ''}'' @ nl @
               spaces 16 @ concat nodes @ nl @
               spaces 16 @ concat (map (\<lambda>a. quoted E (left a) @ '' -> '' @ quoted E (right a) @ '';'' @ nl) (dot_adjacencies E s)) @ nl @
               spaces 12 @ ''}'')))"

section \<open>What the dump shows\<close>

lemma set_all_adjacencies:
  assumes "iter_laws E"
  shows "set (all_adjacencies E g) = ran (documents g)"
proof -
  have "set (docs_iter E (documents g)) = dom (documents g)" using assms by (simp add: iter_laws_def)
  then have "set (all_adjacencies E g) = {a. \<exists>i \<in> dom (documents g). documents g i = Some a}"
    unfolding all_adjacencies_def List.map_filter_def set_map set_filter by (simp add: set_eq_iff image_iff) force
  then show ?thesis unfolding ran_def dom_def by blast
qed

text \<open>
  The form for humans lists exactly the known adjacencies between two relays, by their left end: a
  client's links are not shown; the other form lists every adjacency.
\<close>

lemma graph_dump_adjacencies:
  assumes "iter_laws E"
  shows "set (human_adjacencies E s) = {a \<in> ran (documents (graph s)). both_relays (graph s) a}"
    and "set (dot_adjacencies E s) = ran (documents (graph s))"
    and "sorted (map left (human_adjacencies E s))"
  using set_all_adjacencies[OF assms] by (auto simp: human_adjacencies_def dot_adjacencies_def)

text \<open>The dump does not panic: a fingerprint of twenty bytes is 32 characters of base32.\<close>

lemma graph_dump_no_panic:
  assumes "\<And>fp. fp \<in> set (all_nodes E (graph s)) \<Longrightarrow> 4 \<le> length (fingerprint_to_string E fp)"
  shows "\<exists>text. graph_dump E order in_routes human s = Inr text"
proof -
  have "\<exists>xs. collect_res (\<lambda>fp. dot_node (fingerprint_to_string E fp)) fps = Inr xs"
    if "\<And>fp. fp \<in> set fps \<Longrightarrow> 4 \<le> length (fingerprint_to_string E fp)" for fps
    using that by (induction fps) (force simp: dot_node_def res_simps)+
  then obtain xs where "collect_res (\<lambda>fp. dot_node (fingerprint_to_string E fp)) (all_nodes E (graph s)) = Inr xs"
    using assms by blast
  then show ?thesis by (simp add: graph_dump_def Let_def res_simps)
qed

end
