(* ===== verification/Stream_Layer.thy ===== *)
theory Stream_Layer
  imports Control
begin

text \<open>
  \<open>src/stream.rs\<close> and \<open>src/stream/listener.rs\<close>: reliable streams over a socket.  The state machine of a
  stream is \<open>sosistab2::StreamState\<close>, third-party code: its constructor, \<open>inject_incoming\<close> and
  \<open>tick\<close> are fields of the environment, as is the encoding of its messages.  The listener
  shares each state between its table and a ticker task, so states live in a store and are named
  by their address.  Every turn of a task is an operation of its own; handling one message is one
  operation, so that a new ticker has its first turn after its stream is in the table.
\<close>

section \<open>Messages\<close>

text \<open>The kinds the code tells apart; the others are \<open>OtherKind\<close>, and messages that are not reliable, which the code
  never opens, are \<open>OtherMessage\<close>.\<close>

datatype rel_kind = Syn | SynAck | Rst | OtherKind nat

datatype stream_message = Reliable rel_kind u16 u64 bytes | OtherMessage nat

record ('r, 't) stream_env = "'r haven_env" +
  stdcode_stream :: "stream_message \<Rightarrow> bytes"
  destdcode_stream :: "bytes \<Rightarrow> stream_message option"
  new_established :: "u16 \<Rightarrow> 't"
  inject_incoming :: "stream_message \<Rightarrow> 't \<Rightarrow> 't"
  tick :: "'t \<Rightarrow> stream_message list \<times> 't \<times> instant option"
  show_session_error :: "session_error \<Rightarrow> string"

section \<open>The listener\<close>

record ticker =
  tk_client :: endpoint
  tk_outgoing :: "stream_message list option"

record ('r, 't) listener =
  ls_socket :: "'r inner_socket"
  ls_table :: "endpoint \<rightharpoonup> nat"
  ls_states :: "'t list"
  ls_tickers :: "nat \<rightharpoonup> ticker"

datatype accept_error = AcceptRecv socket_recv_error | AcceptSend socket_send_error | BadStreamMessage

datatype accept_outcome = Accepted nat | Continue | Failed accept_error

definition listen :: "'r inner_socket \<Rightarrow> ('r, 't) listener" where
  "listen socket = \<lparr>ls_socket = socket, ls_table = Map.empty, ls_states = [], ls_tickers = Map.empty\<rparr>"

definition listener_send ::
    "('r, 't, 'z) stream_env_scheme \<Rightarrow> stream_message \<Rightarrow> endpoint \<Rightarrow> ('r, 't) listener
       \<Rightarrow> (socket_send_error + unit) \<times> ('r, 't) listener" where
  "listener_send E m ep l =
     (let (r, skt) = socket_send_to E (show_session_error E) (stdcode_stream E m) ep (ls_socket l)
      in (r, l\<lparr>ls_socket := skt\<rparr>))"

text \<open>What \<open>accept\<close> does with one message.\<close>

definition accept_message ::
    "('r, 't, 'z) stream_env_scheme \<Rightarrow> bytes \<times> endpoint \<Rightarrow> ('r, 't) listener \<Rightarrow> accept_outcome \<times> ('r, 't) listener" where
  "accept_message E rcvd l =
     (case rcvd of (msg, client_ep) \<Rightarrow>
        (case destdcode_stream E msg of
           None \<Rightarrow> (Failed BadStreamMessage, l)
         | Some (Reliable Syn stream_id seqno payload) \<Rightarrow>
             let s2_state = length (ls_states l);
                 l1 = l\<lparr>ls_states := ls_states l @ [new_established E stream_id]\<rparr>;
                 (r, l2) = listener_send E (Reliable SynAck stream_id seqno payload) client_ep l1
             in (case r of
                   Inl e \<Rightarrow> (Failed (AcceptSend e), l2)
                 | Inr _ \<Rightarrow> (Accepted s2_state,
                     l2\<lparr>ls_tickers := (ls_tickers l2)(s2_state \<mapsto> \<lparr>tk_client = client_ep, tk_outgoing = None\<rparr>),
                        ls_table := (ls_table l2)(client_ep \<mapsto> s2_state)\<rparr>))
         | Some (Reliable Rst _ _ _) \<Rightarrow> (Continue, l\<lparr>ls_table := (ls_table l)(client_ep := None)\<rparr>)
         | Some (Reliable kind stream_id seqno payload) \<Rightarrow>
             (case ls_table l client_ep of
                Some a \<Rightarrow> (Continue, l\<lparr>ls_states := (ls_states l)
                    [a := inject_incoming E (Reliable kind stream_id seqno payload) (ls_states l ! a)]\<rparr>)
              | None \<Rightarrow>
                  let (r, l1) = listener_send E (Reliable Rst stream_id seqno payload) client_ep l
                  in (case r of Inl e \<Rightarrow> (Failed (AcceptSend e), l1) | Inr _ \<Rightarrow> (Continue, l1)))
         | Some (OtherMessage _) \<Rightarrow> (Continue, l)))"

text \<open>A turn of the loop of \<open>accept\<close>; \<open>None\<close> means that it waits for a message.\<close>

definition accept_turn ::
    "('r, 't, 'z) stream_env_scheme \<Rightarrow> ('r, 't) listener \<Rightarrow> 'l daemon \<Rightarrow> (accept_outcome \<times> ('r, 't) listener \<times> 'l daemon) option" where
  "accept_turn E l s = map_option (\<lambda>(r, skt, s').
       (case r of
          Inl e \<Rightarrow> (Failed (AcceptRecv e), l\<lparr>ls_socket := skt\<rparr>, s')
        | Inr rcvd \<Rightarrow> let (out, l') = accept_message E rcvd (l\<lparr>ls_socket := skt\<rparr>) in (out, l', s')))
     (socket_recv_from (ls_socket l) s)"

text \<open>The call, which returns a stream or an error; \<open>None\<close> if it waits.\<close>

partial_function (option) accept ::
    "('r, 't, 'z) stream_env_scheme \<Rightarrow> ('r, 't) listener \<Rightarrow> 'l daemon \<Rightarrow> ((accept_error + nat) \<times> ('r, 't) listener \<times> 'l daemon) option" where
  "accept E l s =
     (case accept_turn E l s of
        None \<Rightarrow> None
      | Some (Continue, l', s') \<Rightarrow> accept E l' s'
      | Some (Accepted a, l', s') \<Rightarrow> Some (Inr a, l', s')
      | Some (Failed e, l', s') \<Rightarrow> Some (Inl e, l', s'))"

text \<open>
  The ticker of a stream: a tick, whose messages wait until the retick time or a notification,
  and the sends after it, whose errors are ignored.
\<close>

definition ticker_tick :: "('r, 't, 'z) stream_env_scheme \<Rightarrow> nat \<Rightarrow> ('r, 't) listener \<Rightarrow> ('r, 't) listener" where
  "ticker_tick E a l =
     (case ls_tickers l a of
        None \<Rightarrow> l
      | Some tk \<Rightarrow>
          if tk_outgoing tk \<noteq> None then l
          else
            let (outgoing, st, maybe_retick) = tick E (ls_states l ! a);
                l1 = l\<lparr>ls_states := (ls_states l)[a := st]\<rparr>
            in (case maybe_retick of
                  Some _ \<Rightarrow> l1\<lparr>ls_tickers := (ls_tickers l)(a \<mapsto> tk\<lparr>tk_outgoing := Some outgoing\<rparr>)\<rparr>
                | None \<Rightarrow> l1\<lparr>ls_table := (ls_table l)(tk_client tk := None), ls_tickers := (ls_tickers l)(a := None)\<rparr>))"

definition ticker_wake :: "('r, 't, 'z) stream_env_scheme \<Rightarrow> nat \<Rightarrow> ('r, 't) listener \<Rightarrow> ('r, 't) listener" where
  "ticker_wake E a l =
     (case ls_tickers l a of
        Some tk \<Rightarrow>
          (case tk_outgoing tk of
             Some outgoing \<Rightarrow>
               fold (\<lambda>m l. snd (listener_send E m (tk_client tk) l)) outgoing
                 (l\<lparr>ls_tickers := (ls_tickers l)(a \<mapsto> tk\<lparr>tk_outgoing := None\<rparr>)\<rparr>)
           | None \<Rightarrow> l)
      | None \<Rightarrow> l)"

text \<open>Dropping the last handle of an accepted stream cancels its ticker; the table keeps its state.\<close>

definition stream_drop :: "nat \<Rightarrow> ('r, 't) listener \<Rightarrow> ('r, 't) listener" where
  "stream_drop a l = l\<lparr>ls_tickers := (ls_tickers l)(a := None)\<rparr>"

section \<open>The connecting side\<close>

datatype 't client_phase = Connecting u64 | Established 't | ConnectFailed accept_error | Dead_Stream

record ('r, 't) stream_client =
  sc_socket :: "'r inner_socket"
  sc_server :: endpoint
  sc_id :: u16
  sc_phase :: "'t client_phase"
  sc_outgoing :: "stream_message list"

definition connect_begin :: "u16 \<Rightarrow> 'r inner_socket \<Rightarrow> endpoint \<Rightarrow> ('r, 't) stream_client" where
  "connect_begin our_stream_id socket server_endpoint =
     \<lparr>sc_socket = socket, sc_server = server_endpoint, sc_id = our_stream_id, sc_phase = Connecting 4, sc_outgoing = []\<rparr>"

text \<open>A turn of \<open>send_syn\<close>; the timeout doubles.\<close>

definition connect_send_syn :: "('r, 't, 'z) stream_env_scheme \<Rightarrow> ('r, 't) stream_client \<Rightarrow> ('r, 't) stream_client" where
  "connect_send_syn E c =
     (case sc_phase c of
        Connecting timeout \<Rightarrow>
          let (r, skt) = socket_send_to E (show_session_error E) (stdcode_stream E (Reliable Syn (sc_id c) 0 []))
                           (sc_server c) (sc_socket c)
          in c\<lparr>sc_socket := skt,
               sc_phase := (case r of Inl e \<Rightarrow> ConnectFailed (AcceptSend e) | Inr _ \<Rightarrow> Connecting (timeout * 2))\<rparr>
      | _ \<Rightarrow> c)"

text \<open>What \<open>wait_synack\<close> does with one message, and what \<open>down_loop\<close> does once the stream is established.\<close>

definition client_message :: "('r, 't, 'z) stream_env_scheme \<Rightarrow> bytes \<times> endpoint \<Rightarrow> ('r, 't) stream_client \<Rightarrow> ('r, 't) stream_client" where
  "client_message E rcvd c =
     (case rcvd of (msg, ep) \<Rightarrow>
        (case sc_phase c of
           Connecting _ \<Rightarrow>
             if ep = sc_server c then
               (case destdcode_stream E msg of
                  Some (Reliable SynAck _ _ _) \<Rightarrow> c\<lparr>sc_phase := Established (new_established E (sc_id c))\<rparr>
                | _ \<Rightarrow> c)
             else c
         | Established st \<Rightarrow>
             (case destdcode_stream E msg of
                None \<Rightarrow> c\<lparr>sc_phase := Dead_Stream\<rparr>
              | Some smsg \<Rightarrow> c\<lparr>sc_phase := Established (inject_incoming E smsg st)\<rparr>)
         | _ \<Rightarrow> c))"

definition client_recv ::
    "('r, 't, 'z) stream_env_scheme \<Rightarrow> ('r, 't) stream_client \<Rightarrow> 'l daemon \<Rightarrow> (('r, 't) stream_client \<times> 'l daemon) option" where
  "client_recv E c s = map_option (\<lambda>(r, skt, s').
       (case r of
          Inl e \<Rightarrow> (c\<lparr>sc_socket := skt, sc_phase := (case sc_phase c of Connecting _ \<Rightarrow> ConnectFailed (AcceptRecv e) | _ \<Rightarrow> Dead_Stream)\<rparr>)
        | Inr rcvd \<Rightarrow> client_message E rcvd (c\<lparr>sc_socket := skt\<rparr>), s'))
     (socket_recv_from (sc_socket c) s)"

definition client_tick :: "('r, 't, 'z) stream_env_scheme \<Rightarrow> ('r, 't) stream_client \<Rightarrow> ('r, 't) stream_client" where
  "client_tick E c =
     (case sc_phase c of
        Established st \<Rightarrow>
          let (out, st', maybe) = tick E st
          in c\<lparr>sc_outgoing := sc_outgoing c @ out,
               sc_phase := (case maybe of None \<Rightarrow> Dead_Stream | Some _ \<Rightarrow> Established st')\<rparr>
      | _ \<Rightarrow> c)"

definition client_up :: "('r, 't, 'z) stream_env_scheme \<Rightarrow> ('r, 't) stream_client \<Rightarrow> ('r, 't) stream_client" where
  "client_up E c =
     (case (sc_phase c, sc_outgoing c) of
        (Established st, smsg # out) \<Rightarrow>
          let (r, skt) = socket_send_to E (show_session_error E) (stdcode_stream E smsg) (sc_server c) (sc_socket c)
          in c\<lparr>sc_socket := skt, sc_outgoing := out,
               sc_phase := (case r of Inl _ \<Rightarrow> Dead_Stream | Inr _ \<Rightarrow> Established st)\<rparr>
      | _ \<Rightarrow> c)"
section \<open>What the listener promises\<close>

definition failed :: "accept_outcome \<Rightarrow> bool" where
  "failed out = (case out of Failed _ \<Rightarrow> True | _ \<Rightarrow> False)"

text \<open>
  Runs of a listener: messages handled by \<open>accept\<close>, turns of the ticker tasks, streams dropped by their
  holders, and whatever a holder of a stream does to the shared state by reading and writing.
\<close>

datatype 't listener_op =
    LMessage "bytes \<times> endpoint"
  | LTick nat
  | LWake nat
  | LDrop nat
  | LUse nat "'t \<Rightarrow> 't"

fun listener_step ::
    "('r, 't, 'z) stream_env_scheme \<Rightarrow> 't listener_op \<Rightarrow> ('r, 't) listener \<Rightarrow> accept_outcome \<times> ('r, 't) listener" where
  "listener_step E (LMessage m) l = accept_message E m l"
| "listener_step E (LTick a) l = (Continue, ticker_tick E a l)"
| "listener_step E (LWake a) l = (Continue, ticker_wake E a l)"
| "listener_step E (LDrop a) l = (Continue, stream_drop a l)"
| "listener_step E (LUse a g) l = (Continue, l\<lparr>ls_states := (ls_states l)[a := g (ls_states l ! a)]\<rparr>)"

primrec listener_run ::
    "('r, 't, 'z) stream_env_scheme \<Rightarrow> 't listener_op list \<Rightarrow> ('r, 't) listener \<Rightarrow> accept_outcome list \<times> ('r, 't) listener" where
  "listener_run E [] l = ([], l)"
| "listener_run E (a # ops) l =
     (let (out, l1) = listener_step E a l; (outs, l2) = listener_run E ops l1 in (out # outs, l2))"

text \<open>
  The specification of one client: its streams, each with its state and what its ticker does, and the one
  its messages go to.
\<close>

datatype stream_task = Ticking | Waiting | Ended

record 't peer =
  p_current :: "nat option"
  p_streams :: "nat \<rightharpoonup> 't \<times> stream_task"

datatype 't peer_event =
    PSyn nat u16
  | PRst
  | PData stream_message
  | PTick nat
  | PWake nat
  | PDrop nat
  | PUse nat "'t \<Rightarrow> 't"

definition peer_new :: "'t peer" where
  "peer_new = \<lparr>p_current = None, p_streams = Map.empty\<rparr>"

definition on_stream :: "nat \<Rightarrow> ('t \<times> stream_task \<Rightarrow> 't \<times> stream_task) \<Rightarrow> 't peer \<Rightarrow> 't peer" where
  "on_stream a f P = P\<lparr>p_streams := (p_streams P)(a := map_option f (p_streams P a))\<rparr>"

fun peer_step :: "('r, 't, 'z) stream_env_scheme \<Rightarrow> 't peer_event \<Rightarrow> 't peer \<Rightarrow> 't peer" where
  "peer_step E (PSyn a i) P = \<lparr>p_current = Some a, p_streams = (p_streams P)(a \<mapsto> (new_established E i, Ticking))\<rparr>"
| "peer_step E PRst P = P\<lparr>p_current := None\<rparr>"
| "peer_step E (PData m) P = (case p_current P of None \<Rightarrow> P | Some a \<Rightarrow> on_stream a (map_prod (inject_incoming E m) id) P)"
| "peer_step E (PTick a) P = (case p_streams P a of
     Some (st, Ticking) \<Rightarrow> (case tick E st of
         (_, st', Some _) \<Rightarrow> on_stream a (\<lambda>_. (st', Waiting)) P
       | (_, st', None) \<Rightarrow> on_stream a (\<lambda>_. (st', Ended)) (P\<lparr>p_current := None\<rparr>))
   | _ \<Rightarrow> P)"
| "peer_step E (PWake a) P = on_stream a (\<lambda>(st, t). (st, if t = Waiting then Ticking else t)) P"
| "peer_step E (PDrop a) P = on_stream a (\<lambda>(st, _). (st, Ended)) P"
| "peer_step E (PUse a g) P = on_stream a (map_prod g id) P"

text \<open>What an operation of the listener, with its outcome, is for a client.\<close>

fun events_of :: "('r, 't, 'z) stream_env_scheme \<Rightarrow> endpoint \<Rightarrow> 't listener_op \<times> accept_outcome \<Rightarrow> 't peer_event list" where
  "events_of E ep (LMessage (msg, src), out) =
     (if src \<noteq> ep \<or> failed out then []
      else case destdcode_stream E msg of
          Some (Reliable Syn i q p) \<Rightarrow> (case out of Accepted a \<Rightarrow> [PSyn a i] | _ \<Rightarrow> [])
        | Some (Reliable Rst i q p) \<Rightarrow> [PRst]
        | Some (Reliable k i q p) \<Rightarrow> [PData (Reliable k i q p)]
        | _ \<Rightarrow> [])"
| "events_of E ep (LTick a, out) = [PTick a]"
| "events_of E ep (LWake a, out) = [PWake a]"
| "events_of E ep (LDrop a, out) = [PDrop a]"
| "events_of E ep (LUse a g, out) = [PUse a g]"

definition peer_run :: "('r, 't, 'z) stream_env_scheme \<Rightarrow> endpoint \<Rightarrow> ('t listener_op \<times> accept_outcome) list \<Rightarrow> 't peer \<Rightarrow> 't peer" where
  "peer_run E ep xs = fold (peer_step E) (concat (map (events_of E ep) xs))"

definition stream_of :: "('r, 't) listener \<Rightarrow> nat \<Rightarrow> 't \<times> stream_task" where
  "stream_of l a = (ls_states l ! a, case ls_tickers l a of None \<Rightarrow> Ended | Some tk \<Rightarrow> if tk_outgoing tk = None then Ticking else Waiting)"

definition sim :: "endpoint \<Rightarrow> 't peer \<Rightarrow> ('r, 't) listener \<Rightarrow> bool" where
  "sim ep P l \<longleftrightarrow> ls_table l ep = p_current P \<and>
     (\<forall>a x. p_streams P a = Some x \<longrightarrow> a < length (ls_states l) \<and> stream_of l a = x) \<and>
     (\<forall>a tk. ls_tickers l a = Some tk \<longrightarrow> a < length (ls_states l) \<and> (tk_client tk = ep \<longleftrightarrow> a \<in> dom (p_streams P))) \<and>
     (\<forall>ep' a. ls_table l ep' = Some a \<longrightarrow> a < length (ls_states l) \<and> (ep' = ep \<longleftrightarrow> a \<in> dom (p_streams P)))"

lemma failed_simps [simp]: "failed (Failed e)" "\<not> failed (Accepted a)" "\<not> failed Continue"
  by (simp_all add: failed_def)

lemma listener_send_keeps:
  "listener_send E m ep l = (r, l') \<Longrightarrow> ls_table l' = ls_table l \<and> ls_states l' = ls_states l \<and> ls_tickers l' = ls_tickers l"
  by (auto simp: listener_send_def Let_def split: prod.splits)

text \<open>What becomes of a request to connect, and of a message on a stream.\<close>

lemma accept_syn:
  assumes "destdcode_stream E msg = Some (Reliable Syn i q p)" "accept_message E (msg, src) l = (out, l')"
  shows "ls_states l' = ls_states l @ [new_established E i]"
    and "(\<exists>e. out = Failed (AcceptSend e)) \<and> ls_table l' = ls_table l \<and> ls_tickers l' = ls_tickers l \<or>
         out = Accepted (length (ls_states l)) \<and> ls_table l' = (ls_table l)(src \<mapsto> length (ls_states l)) \<and>
         ls_tickers l' = (ls_tickers l)(length (ls_states l) \<mapsto> \<lparr>tk_client = src, tk_outgoing = None\<rparr>)"
proof -
  let ?l = "l\<lparr>ls_states := ls_states l @ [new_established E i]\<rparr>"
  obtain r l2 where s: "listener_send E (Reliable SynAck i q p) src ?l = (r, l2)"
    by (cases "listener_send E (Reliable SynAck i q p) src ?l")
  note keeps = listener_send_keeps[OF s]
  show "ls_states l' = ls_states l @ [new_established E i]"
    using assms s keeps by (auto simp: accept_message_def Let_def split: sum.splits)
  show "(\<exists>e. out = Failed (AcceptSend e)) \<and> ls_table l' = ls_table l \<and> ls_tickers l' = ls_tickers l \<or>
         out = Accepted (length (ls_states l)) \<and> ls_table l' = (ls_table l)(src \<mapsto> length (ls_states l)) \<and>
         ls_tickers l' = (ls_tickers l)(length (ls_states l) \<mapsto> \<lparr>tk_client = src, tk_outgoing = None\<rparr>)"
    using assms s keeps by (auto simp: accept_message_def Let_def split: sum.splits)
qed

definition data_kind :: "rel_kind \<Rightarrow> bool" where
  "data_kind k \<longleftrightarrow> k \<noteq> Syn \<and> k \<noteq> Rst"

lemma accept_data:
  assumes "destdcode_stream E msg = Some (Reliable k i q p)" "data_kind k"
  shows "accept_message E (msg, src) l =
    (case ls_table l src of
       Some a \<Rightarrow> (Continue, l\<lparr>ls_states := (ls_states l)[a := inject_incoming E (Reliable k i q p) (ls_states l ! a)]\<rparr>)
     | None \<Rightarrow> (case listener_send E (Reliable Rst i q p) src l of
         (Inl e, l1) \<Rightarrow> (Failed (AcceptSend e), l1) | (Inr _, l1) \<Rightarrow> (Continue, l1)))"
  using assms by (cases k) (auto simp: accept_message_def data_kind_def split: option.splits prod.splits sum.splits)

lemma simD:
  assumes "sim ep P l"
  shows "ls_table l ep = p_current P" "p_streams P a = Some x \<Longrightarrow> a < length (ls_states l)" "p_streams P a = Some x \<Longrightarrow> stream_of l a = x"
    "ls_tickers l a = Some tk \<Longrightarrow> a < length (ls_states l)" "ls_tickers l a = Some tk \<Longrightarrow> tk_client tk = ep \<longleftrightarrow> a \<in> dom (p_streams P)"
    "ls_table l ep' = Some a \<Longrightarrow> a < length (ls_states l)" "ls_table l ep' = Some a \<Longrightarrow> ep' = ep \<longleftrightarrow> a \<in> dom (p_streams P)"
  using assms unfolding sim_def by blast+

lemma sim_new: "sim ep peer_new (listen skt)"
  by (simp add: sim_def peer_new_def listen_def)

lemma sim_cong:
  "sim ep P l \<Longrightarrow> ls_table l' = ls_table l \<Longrightarrow> ls_states l' = ls_states l \<Longrightarrow> ls_tickers l' = ls_tickers l \<Longrightarrow> sim ep P l'"
  by (simp add: sim_def stream_of_def)

lemma on_stream_dom [simp]: "dom (p_streams (on_stream a f P)) = dom (p_streams P)" "p_current (on_stream a f P) = p_current P"
  by (auto simp: on_stream_def)

lemma on_stream_absent: "p_streams P a = None \<Longrightarrow> on_stream a f P = P"
  by (simp add: on_stream_def fun_upd_idem)

text \<open>A change of one stream, in the listener and in the machine of its client.\<close>

lemma sim_on_stream:
  assumes s: "sim ep P l"
    and l': "ls_table l' = ls_table l" "length (ls_states l') = length (ls_states l)"
      "\<And>b. b \<noteq> a \<Longrightarrow> ls_states l' ! b = ls_states l ! b \<and> ls_tickers l' b = ls_tickers l b"
    and tk: "\<And>tk'. ls_tickers l' a = Some tk' \<Longrightarrow> \<exists>tk. ls_tickers l a = Some tk \<and> tk_client tk' = tk_client tk"
    and f: "a < length (ls_states l) \<Longrightarrow> f (stream_of l a) = stream_of l' a"
  shows "sim ep (on_stream a f P) l'"
proof -
  have *: "stream_of l' b = x" if b: "p_streams (on_stream a f P) b = Some x" for b x
  proof (cases "b = a")
    case True
    then obtain y where "p_streams P a = Some y" "x = f y" using b by (auto simp: on_stream_def)
    then show ?thesis using True simD(2,3)[OF s] f by auto
  next
    case False
    then have "p_streams P b = Some x" using b by (simp add: on_stream_def)
    then show ?thesis using False simD(3)[OF s] l'(3)[OF False] by (auto simp: stream_of_def)
  qed
  moreover have "b < length (ls_states l')" if "p_streams (on_stream a f P) b = Some x" for b x
    using that simD(2)[OF s] l'(2) by (auto simp: on_stream_def split: if_splits)
  moreover have "b < length (ls_states l') \<and> (tk_client t = ep \<longleftrightarrow> b \<in> dom (p_streams (on_stream a f P)))" if t: "ls_tickers l' b = Some t" for b t
  proof -
    obtain t0 where "ls_tickers l b = Some t0" "tk_client t = tk_client t0" using t tk l'(3)[of b] by (cases "b = a") auto
    then show ?thesis using simD(4,5)[OF s] l'(2) by simp
  qed
  ultimately show ?thesis using s l'(1,2) unfolding sim_def on_stream_dom by auto
qed


lemma sim_accept:
  assumes s: "sim ep P l" and m: "destdcode_stream E msg = Some (Reliable Syn i q p)" and acc: "accept_message E (msg, src) l = (out, l')"
  shows "sim ep (peer_run E ep [(LMessage (msg, src), out)] P) l'"
proof -
  let ?n = "length (ls_states l)"
  note syn = accept_syn[OF m acc]
  have fresh: "p_streams P ?n = None" "ls_table l e \<noteq> Some ?n" "ls_tickers l ?n = None" for e
    using simD(2,4,6)[OF s] by (cases "p_streams P ?n"; cases "ls_tickers l ?n"; fastforce)+
  have old: "ls_states l' ! b = ls_states l ! b" if "b < ?n" for b using that syn(1) by (simp add: nth_append)
  have new: "ls_states l' ! ?n = new_established E i" "length (ls_states l') = Suc ?n" using syn(1) by simp_all
  have kept: "stream_of l' b = x" if "p_streams P b = Some x" "ls_tickers l' b = ls_tickers l b" for b x
    using simD(2,3)[OF s that(1)] old[of b] that(2) by (simp add: stream_of_def)
  from syn(2) show ?thesis
  proof (elim disjE conjE exE)
    fix e assume "out = Failed (AcceptSend e)" and l': "ls_table l' = ls_table l" "ls_tickers l' = ls_tickers l"
    then have "peer_run E ep [(LMessage (msg, src), out)] P = P" by (simp add: peer_run_def)
    moreover have "sim ep P l'" using s kept l' new(2) by (auto simp: sim_def less_SucI)
    ultimately show ?thesis by simp
  next
    assume out: "out = Accepted ?n" and tab: "ls_table l' = (ls_table l)(src \<mapsto> ?n)"
      and tks: "ls_tickers l' = (ls_tickers l)(?n \<mapsto> \<lparr>tk_client = src, tk_outgoing = None\<rparr>)"
    let ?P = "if src = ep then \<lparr>p_current = Some ?n, p_streams = (p_streams P)(?n \<mapsto> (new_established E i, Ticking))\<rparr> else P"
    have P: "peer_run E ep [(LMessage (msg, src), out)] P = ?P" using m out by (simp add: peer_run_def)
    have doms: "dom (p_streams ?P) = (if src = ep then insert ?n (dom (p_streams P)) else dom (p_streams P))" by simp
    have "ls_table l' ep = p_current ?P" using tab simD(1)[OF s] by simp
    moreover have "a < length (ls_states l') \<and> stream_of l' a = x" if a: "p_streams ?P a = Some x" for a x
    proof (cases "a = ?n")
      case True
      then have "x = (new_established E i, Ticking)" using a fresh(1) by (simp split: if_splits)
      then show ?thesis using True tks new by (simp add: stream_of_def)
    next
      case False
      then have "p_streams P a = Some x" using a by (simp split: if_splits)
      then show ?thesis using False kept[of a x] tks simD(2)[OF s] new(2) by (simp add: less_SucI)
    qed
    moreover have "a < length (ls_states l') \<and> (tk_client tk = ep \<longleftrightarrow> a \<in> dom (p_streams ?P))" if a: "ls_tickers l' a = Some tk" for a tk
      using a tks simD(4,5)[OF s, of a tk] fresh(1) new(2) unfolding doms by (cases "a = ?n") auto
    moreover have "a < length (ls_states l') \<and> (ep' = ep \<longleftrightarrow> a \<in> dom (p_streams ?P))" if a: "ls_table l' ep' = Some a" for ep' a
    proof (cases "ep' = src")
      case True
      then show ?thesis using a tab new(2) fresh(1) unfolding doms by auto
    next
      case False
      then have "ls_table l ep' = Some a" using a tab by simp
      then show ?thesis using simD(6,7)[OF s] fresh(2) new(2) unfolding doms by (auto simp: less_SucI)
    qed
    ultimately show ?thesis unfolding P sim_def by blast
  qed
qed

lemma sim_forget:
  assumes "sim ep P l"
  shows "sim ep (if src = ep then P\<lparr>p_current := None\<rparr> else P) (l\<lparr>ls_table := (ls_table l)(src := None)\<rparr>)"
  using assms by (auto simp: sim_def stream_of_def)

lemma sim_data:
  assumes s: "sim ep P l" and m: "destdcode_stream E msg = Some (Reliable k i q p)" "data_kind k" and acc: "accept_message E (msg, src) l = (out, l')"
  shows "sim ep (peer_run E ep [(LMessage (msg, src), out)] P) l'"
proof (cases "ls_table l src")
  case None
  obtain r l1 where snd: "listener_send E (Reliable Rst i q p) src l = (r, l1)" by (cases "listener_send E (Reliable Rst i q p) src l")
  have "l' = l1" using acc snd None by (auto simp: accept_data[OF m] split: sum.splits)
  then have "sim ep P l'" using sim_cong[OF s, of l1] listener_send_keeps[OF snd] by simp
  moreover have "peer_run E ep [(LMessage (msg, src), out)] P = P" using m None simD(1)[OF s]
    by (cases k) (auto simp: peer_run_def data_kind_def)
  ultimately show ?thesis by simp
next
  case (Some a)
  let ?f = "map_prod (inject_incoming E (Reliable k i q p)) id"
  have l': "l' = l\<lparr>ls_states := (ls_states l)[a := inject_incoming E (Reliable k i q p) (ls_states l ! a)]\<rparr>" and out: "out = Continue"
    using acc Some by (auto simp: accept_data[OF m])
  have step: "sim ep (on_stream a ?f P) l'"
    by (rule sim_on_stream[OF s]) (simp_all add: l' stream_of_def)
  show ?thesis
  proof (cases "src = ep")
    case True
    then have "peer_run E ep [(LMessage (msg, src), out)] P = on_stream a ?f P" using m out Some simD(1)[OF s]
      by (cases k) (auto simp: peer_run_def data_kind_def)
    then show ?thesis using step by simp
  next
    case False
    then have "p_streams P a = None" using simD(7)[OF s Some] by (metis domIff)
    then have "on_stream a ?f P = P" by (rule on_stream_absent)
    then show ?thesis using step False by (simp add: peer_run_def)
  qed
qed

lemma sim_message:
  assumes s: "sim ep P l" and acc: "accept_message E (msg, src) l = (out, l')"
  shows "sim ep (peer_run E ep [(LMessage (msg, src), out)] P) l'"
proof (cases "destdcode_stream E msg")
  case None
  then show ?thesis using s acc by (auto simp: accept_message_def peer_run_def)
next
  case (Some m)
  show ?thesis
  proof (cases m)
    case (OtherMessage n)
    then show ?thesis using Some s acc by (auto simp: accept_message_def peer_run_def)
  next
    case (Reliable k i q p)
    note m = Some[unfolded Reliable]
    consider "k = Syn" | "k = Rst" | "data_kind k" by (auto simp: data_kind_def)
    then show ?thesis
    proof cases
      case 1
      then show ?thesis using sim_accept[OF s _ acc] m by simp
    next
      case 2
      then show ?thesis using sim_forget[OF s, of src] acc m by (auto simp: accept_message_def peer_run_def split: if_splits)
    next
      case 3
      then show ?thesis using sim_data[OF s m 3 acc] by simp
    qed
  qed
qed


lemma sim_tick:
  assumes s: "sim ep P l"
  shows "sim ep (peer_step E (PTick a) P) (ticker_tick E a l)"
proof (cases "ls_tickers l a")
  case None
  have "p_streams P a \<noteq> Some (st, Ticking)" for st using simD(3)[OF s, of a "(st, Ticking)"] None by (auto simp: stream_of_def)
  then have "peer_step E (PTick a) P = P" by (auto split: option.splits stream_task.splits)
  then show ?thesis using s None by (simp add: ticker_tick_def)
next
  case (Some tk)
  show ?thesis
  proof (cases "tk_outgoing tk")
    case (Some out)
    have "p_streams P a \<noteq> Some (st, Ticking)" for st
      using simD(3)[OF s, of a "(st, Ticking)"] \<open>ls_tickers l a = Some tk\<close> Some by (auto simp: stream_of_def)
    then have "peer_step E (PTick a) P = P" by (auto split: option.splits stream_task.splits)
    then show ?thesis using s \<open>ls_tickers l a = Some tk\<close> Some by (simp add: ticker_tick_def)
  next
    case None
    obtain out st re where t: "tick E (ls_states l ! a) = (out, st, re)" by (cases "tick E (ls_states l ! a)")
    have own: "tk_client tk = ep \<longleftrightarrow> p_streams P a = Some (ls_states l ! a, Ticking)"
      using simD(3)[OF s, of a] simD(5)[OF s Some] Some None by (auto simp: stream_of_def)
    let ?ph = "if re = None then Ended else Waiting"
    let ?l = "l\<lparr>ls_states := (ls_states l)[a := st], ls_tickers := (ls_tickers l)(a := if re = None then None else Some (tk\<lparr>tk_outgoing := Some out\<rparr>))\<rparr>"
    have step: "sim ep (on_stream a (\<lambda>_. (st, ?ph)) P) ?l"
      by (rule sim_on_stream[OF s]) (use Some in \<open>auto simp: stream_of_def split: if_splits\<close>)
    have absent: "p_streams P a = None" if "tk_client tk \<noteq> ep" using that simD(5)[OF s Some] by (metis domIff)
    then have foreign: "on_stream a f P = P" if "tk_client tk \<noteq> ep" for f using that by (simp add: on_stream_absent)
    have ticked: "ticker_tick E a l = (if re = None then ?l\<lparr>ls_table := (ls_table ?l)(tk_client tk := None)\<rparr> else ?l)"
      using Some None t by (cases re) (simp_all add: ticker_tick_def)
    show ?thesis
    proof (cases "tk_client tk = ep")
      case True
      then have P: "peer_step E (PTick a) P =
          (if re = None then (on_stream a (\<lambda>_. (st, ?ph)) P)\<lparr>p_current := None\<rparr> else on_stream a (\<lambda>_. (st, ?ph)) P)"
        using own t by (cases re) (simp_all add: on_stream_def)
      show ?thesis unfolding ticked P using step sim_forget[OF step, of ep] True by auto
    next
      case False
      then have P: "peer_step E (PTick a) P = P" using absent by simp
      show ?thesis unfolding ticked P using step[unfolded foreign[OF False]] sim_forget[OF step[unfolded foreign[OF False]], of "tk_client tk"] False by auto
    qed
  qed
qed

lemma sends_keep:
  "ls_table (fold (\<lambda>m l. snd (listener_send E m ep l)) ms l) = ls_table l \<and>
   ls_states (fold (\<lambda>m l. snd (listener_send E m ep l)) ms l) = ls_states l \<and>
   ls_tickers (fold (\<lambda>m l. snd (listener_send E m ep l)) ms l) = ls_tickers l"
proof (induction ms arbitrary: l)
  case (Cons m ms)
  then show ?case using listener_send_keeps[OF prod.collapse[symmetric], of E m ep l] by simp
qed simp

lemma sim_wake:
  assumes s: "sim ep P l"
  shows "sim ep (peer_step E (PWake a) P) (ticker_wake E a l)"
proof -
  let ?f = "\<lambda>(st, t). (st, if t = Waiting then Ticking else t)"
  let ?l = "case ls_tickers l a of None \<Rightarrow> l | Some tk \<Rightarrow> l\<lparr>ls_tickers := (ls_tickers l)(a \<mapsto> tk\<lparr>tk_outgoing := None\<rparr>)\<rparr>"
  have "ls_table (ticker_wake E a l) = ls_table ?l" "ls_states (ticker_wake E a l) = ls_states ?l" "ls_tickers (ticker_wake E a l) = ls_tickers ?l"
    by (auto simp: ticker_wake_def sends_keep fun_eq_iff split: option.splits)
  moreover have "sim ep (on_stream a ?f P) ?l"
    by (rule sim_on_stream[OF s]) (auto simp: stream_of_def split: option.splits)
  ultimately show ?thesis using sim_cong[of ep "on_stream a ?f P" ?l] by simp
qed

lemma sim_step:
  assumes s: "sim ep P l" and step: "listener_step E x l = (out, l')"
  shows "sim ep (peer_run E ep [(x, out)] P) l'"
proof (cases x)
  case (LMessage m)
  then show ?thesis using sim_message[OF s, of E "fst m" "snd m" out l'] step by simp
next
  case (LTick a)
  then show ?thesis using sim_tick[OF s, of E a] step by (simp add: peer_run_def del: peer_step.simps)
next
  case (LWake a)
  then show ?thesis using sim_wake[OF s, of E a] step by (simp add: peer_run_def del: peer_step.simps)
next
  case (LDrop a)
  have "sim ep (on_stream a (\<lambda>(st, _). (st, Ended)) P) (stream_drop a l)"
    by (rule sim_on_stream[OF s]) (auto simp: stream_drop_def stream_of_def)
  then show ?thesis using LDrop step by (simp add: peer_run_def)
next
  case (LUse a g)
  have "sim ep (on_stream a (map_prod g id) P) (l\<lparr>ls_states := (ls_states l)[a := g (ls_states l ! a)]\<rparr>)"
    by (rule sim_on_stream[OF s]) (auto simp: stream_of_def)
  then show ?thesis using LUse step by (simp add: peer_run_def)
qed

definition syn_op :: "('r, 't, 'z) stream_env_scheme \<Rightarrow> 't listener_op \<Rightarrow> bool" where
  "syn_op E x \<longleftrightarrow> (case x of LMessage m \<Rightarrow> (case destdcode_stream E (fst m) of Some (Reliable Syn _ _ _) \<Rightarrow> True | _ \<Rightarrow> False) | _ \<Rightarrow> False)"

lemma accept_not_syn:
  assumes m: "\<And>i q p. destdcode_stream E msg \<noteq> Some (Reliable Syn i q p)" and acc: "accept_message E (msg, src) l = (out, l')"
  shows "out \<noteq> Accepted a"
proof (cases "destdcode_stream E msg")
  case None
  then show ?thesis using acc by (auto simp: accept_message_def)
next
  case (Some x)
  show ?thesis
  proof (cases x)
    case (OtherMessage n)
    then show ?thesis using Some acc by (auto simp: accept_message_def)
  next
    case (Reliable k i q p)
    then consider "k = Rst" | "data_kind k" using m Some by (auto simp: data_kind_def)
    then show ?thesis
    proof cases
      case 1
      then show ?thesis using acc Some Reliable by (auto simp: accept_message_def)
    next
      case 2
      then show ?thesis using acc accept_data[OF Some[unfolded Reliable] 2] by (auto split: option.splits prod.splits sum.splits)
    qed
  qed
qed

lemma accepted_iff:
  assumes "listener_step E x l = (out, l')"
  shows "(\<exists>a. out = Accepted a) \<longleftrightarrow> syn_op E x \<and> \<not> failed out" "out = Accepted a \<Longrightarrow> a = length (ls_states l)"
proof -
  have "((\<exists>a. out = Accepted a) \<longleftrightarrow> syn_op E x \<and> \<not> failed out) \<and> (out = Accepted a \<longrightarrow> a = length (ls_states l))"
  proof (cases x)
    case (LMessage m)
    obtain msg src where m: "m = (msg, src)" by (cases m)
    have acc: "accept_message E (msg, src) l = (out, l')" using assms LMessage m by simp
    show ?thesis
    proof (cases "syn_op E x")
      case True
      then obtain i q p where "destdcode_stream E msg = Some (Reliable Syn i q p)"
        using LMessage m by (auto simp: syn_op_def split: option.splits stream_message.splits rel_kind.splits)
      from accept_syn(2)[OF this acc] show ?thesis using True by auto
    next
      case False
      then have "\<nexists>a. out = Accepted a" using accept_not_syn[OF _ acc] LMessage m by (force simp: syn_op_def)
      then show ?thesis using False by simp
    qed
  qed (use assms in \<open>auto simp: syn_op_def\<close>)
  then show "(\<exists>a. out = Accepted a) \<longleftrightarrow> syn_op E x \<and> \<not> failed out" "out = Accepted a \<Longrightarrow> a = length (ls_states l)" by blast+
qed

lemma listener_refines:
  assumes "sim ep P l" "listener_run E ops l = (outs, l')"
  shows "sim ep (peer_run E ep (zip ops outs) P) l' \<and> length outs = length ops \<and>
    (\<forall>(x, out) \<in> set (zip ops outs). (\<exists>a. out = Accepted a) \<longleftrightarrow> syn_op E x \<and> \<not> failed out)"
  using assms
proof (induction ops arbitrary: P l outs)
  case Nil then show ?case by (simp add: peer_run_def)
next
  case (Cons x ops)
  obtain out l1 where o: "listener_step E x l = (out, l1)" by (cases "listener_step E x l")
  obtain rest where r: "listener_run E ops l1 = (rest, l')" "outs = out # rest" using Cons.prems(2) o by (auto split: prod.splits)
  have "peer_run E ep (zip (x # ops) outs) P = peer_run E ep (zip ops rest) (peer_run E ep [(x, out)] P)" by (simp add: r(2) peer_run_def)
  then show ?case using Cons.IH[OF sim_step[OF Cons.prems(1) o] r(1)] accepted_iff(1)[OF o] by (simp add: r(2))
qed


text \<open>The streams of different clients have different addresses.\<close>

lemma peer_step_dom: "dom (p_streams (peer_step E e P)) \<subseteq> dom (p_streams P) \<union> {a. \<exists>i. e = PSyn a i}"
proof (cases e)
  case (PTick a)
  have "dom (p_streams (peer_step E (PTick a) P)) = dom (p_streams P)"
    using on_stream_dom(1)[of a _ "P\<lparr>p_current := None\<rparr>"] by (simp split: option.split prod.split stream_task.split)
  then show ?thesis using PTick by simp
qed (auto simp: on_stream_def split: option.splits if_splits)

lemma syn_event: "PSyn a i \<in> set (events_of E ep (x, out)) \<Longrightarrow> out = Accepted a \<and> (\<exists>msg. x = LMessage (msg, ep))"
  by (cases "(E, ep, x, out)" rule: events_of.cases) (simp_all split: option.splits stream_message.splits rel_kind.splits accept_outcome.splits if_splits)

lemma peer_run_dom: "dom (p_streams (peer_run E ep xs P)) \<subseteq> dom (p_streams P) \<union> {a. \<exists>msg. (LMessage (msg, ep), Accepted a) \<in> set xs}"
proof (induction xs arbitrary: P)
  case (Cons x xs)
  have "dom (p_streams (fold (peer_step E) es P)) \<subseteq> dom (p_streams P) \<union> {a. \<exists>i. PSyn a i \<in> set es}" for es
  proof (induction es arbitrary: P)
    case (Cons e es)
    then show ?case unfolding fold_simps list.set using peer_step_dom[of E e P] Cons[of "peer_step E e P"] by blast
  qed simp
  from this[of "events_of E ep x"] have "dom (p_streams (peer_run E ep [x] P)) \<subseteq> dom (p_streams P) \<union> {a. \<exists>msg. x = (LMessage (msg, ep), Accepted a)}"
    using syn_event[of _ _ E ep "fst x" "snd x"] by (auto simp: peer_run_def subset_iff prod_eq_iff)
  moreover have eq: "peer_run E ep (x # xs) P = peer_run E ep xs (peer_run E ep [x] P)" by (simp add: peer_run_def)
  ultimately show ?case unfolding eq list.set using Cons.IH[of "peer_run E ep [x] P"] by blast
qed (simp add: peer_run_def)

lemma listener_step_grows:
  assumes "listener_step E x l = (out, l')"
  shows "length (ls_states l) \<le> length (ls_states l')" "out = Accepted a \<Longrightarrow> length (ls_states l) = a \<and> a < length (ls_states l')"
proof -
  have keep: "length (ls_states l') = length (ls_states l)" if other: "\<not> syn_op E x"
  proof (cases x)
    case (LMessage m)
    obtain msg src where m: "m = (msg, src)" by (cases m)
    have acc: "accept_message E (msg, src) l = (out, l')" using assms LMessage m by simp
    show ?thesis
    proof (cases "destdcode_stream E msg")
      case (Some y)
      show ?thesis
      proof (cases y)
        case (Reliable k i q p)
        then consider "k = Rst" | "data_kind k" using other Some LMessage m by (cases k) (auto simp: syn_op_def data_kind_def)
        then show ?thesis
        proof cases
          case 2
          then show ?thesis using acc accept_data[OF Some[unfolded Reliable] 2]
            by (auto dest: listener_send_keeps split: option.splits prod.splits sum.splits)
        qed (use acc Some Reliable in \<open>auto simp: accept_message_def\<close>)
      qed (use acc Some in \<open>auto simp: accept_message_def\<close>)
    qed (use acc in \<open>auto simp: accept_message_def\<close>)
  next
    case (LTick a)
    then show ?thesis using assms by (auto simp: ticker_tick_def Let_def split: option.splits prod.splits if_splits)
  next
    case (LWake a)
    then show ?thesis using assms by (auto simp: ticker_wake_def sends_keep split: option.splits)
  qed (use assms in \<open>auto simp: stream_drop_def\<close>)
  have more: "length (ls_states l') = Suc (length (ls_states l))" if syn: "syn_op E x"
  proof -
    obtain msg src i q p where "x = LMessage (msg, src)" "destdcode_stream E msg = Some (Reliable Syn i q p)"
      using syn by (auto simp: syn_op_def split: listener_op.splits option.splits stream_message.splits rel_kind.splits)
    then show ?thesis using accept_syn(1)[of E msg i q p src l out l'] assms by simp
  qed
  show "length (ls_states l) \<le> length (ls_states l')" using keep more by (cases "syn_op E x") auto
  show "length (ls_states l) = a \<and> a < length (ls_states l')" if "out = Accepted a"
    using accepted_iff[OF assms] that more by auto
qed

lemma accepted_fresh:
  assumes "listener_run E ops l = (outs, l')"
  shows "(x, Accepted a) \<in> set (zip ops outs) \<Longrightarrow> length (ls_states l) \<le> a"
    "(x, Accepted a) \<in> set (zip ops outs) \<Longrightarrow> (y, Accepted a) \<in> set (zip ops outs) \<Longrightarrow> x = y"
proof -
  have "((x, Accepted a) \<in> set (zip ops outs) \<longrightarrow> length (ls_states l) \<le> a) \<and>
    ((x, Accepted a) \<in> set (zip ops outs) \<longrightarrow> (y, Accepted a) \<in> set (zip ops outs) \<longrightarrow> x = y)" for x y
    using assms
  proof (induction ops arbitrary: l outs x y)
    case (Cons z ops)
    obtain out l1 where o: "listener_step E z l = (out, l1)" by (cases "listener_step E z l")
    obtain rest where r: "listener_run E ops l1 = (rest, l')" "outs = out # rest" using Cons.prems o by (auto split: prod.splits)
    note ih = Cons.IH[OF r(1)] and grows = listener_step_grows[OF o]
    have low: "length (ls_states l) \<le> a" if "(x, Accepted a) \<in> set (zip ops rest)" for x using ih that grows(1) by fastforce
    have "\<not> (out = Accepted a \<and> (x, Accepted a) \<in> set (zip ops rest))" for x using ih[of x] grows(2) by fastforce
    then show ?case using ih low grows(2) r(2) by auto
  qed simp
  then show "(x, Accepted a) \<in> set (zip ops outs) \<Longrightarrow> length (ls_states l) \<le> a"
    "(x, Accepted a) \<in> set (zip ops outs) \<Longrightarrow> (y, Accepted a) \<in> set (zip ops outs) \<Longrightarrow> x = y" by blast+
qed

lemma clients_apart:
  assumes "listener_run E ops l = (outs, l')" "ep \<noteq> ep'"
  shows "dom (p_streams (peer_run E ep (zip ops outs) peer_new)) \<inter> dom (p_streams (peer_run E ep' (zip ops outs) peer_new)) = {}"
proof (rule equals0I)
  fix a assume a: "a \<in> dom (p_streams (peer_run E ep (zip ops outs) peer_new)) \<inter> dom (p_streams (peer_run E ep' (zip ops outs) peer_new))"
  have none: "dom (p_streams peer_new) = {}" by (simp add: peer_new_def)
  obtain m m' where "(LMessage (m, ep), Accepted a) \<in> set (zip ops outs)" "(LMessage (m', ep'), Accepted a) \<in> set (zip ops outs)"
    using a peer_run_dom[of E _ "zip ops outs" peer_new] unfolding none by blast
  from accepted_fresh(2)[OF assms(1) this] show False using assms(2) by simp
qed

section \<open>One stream\<close>

text \<open>
  What a run makes of the stream at the address \<open>a\<close>, if all its client sends is for it; \<open>None\<close> once a tick finds
  the stream dead.
\<close>

fun stream_step ::
    "('r, 't, 'z) stream_env_scheme \<Rightarrow> endpoint \<Rightarrow> nat \<Rightarrow> 't listener_op \<Rightarrow> 't \<times> stream_task \<Rightarrow> ('t \<times> stream_task) option" where
  "stream_step E client a (LMessage (msg, src)) (st, t) =
     Some (if src = client then (case destdcode_stream E msg of None \<Rightarrow> st | Some m \<Rightarrow> inject_incoming E m st) else st, t)"
| "stream_step E client a (LTick b) (st, t) =
     (if b = a \<and> t = Ticking then (case tick E st of (_, st', Some _) \<Rightarrow> Some (st', Waiting) | (_, _, None) \<Rightarrow> None) else Some (st, t))"
| "stream_step E client a (LWake b) (st, t) = Some (st, if b = a \<and> t = Waiting then Ticking else t)"
| "stream_step E client a (LDrop b) (st, t) = Some (st, if b = a then Ended else t)"
| "stream_step E client a (LUse b g) (st, t) = Some (if b = a then g st else st, t)"

primrec stream_run ::
    "('r, 't, 'z) stream_env_scheme \<Rightarrow> endpoint \<Rightarrow> nat \<Rightarrow> 't listener_op list \<Rightarrow> 't \<times> stream_task \<Rightarrow> ('t \<times> stream_task) option" where
  "stream_run E client a [] x = Some x"
| "stream_run E client a (b # ops) x = Option.bind (stream_step E client a b x) (stream_run E client a ops)"

definition stream_traffic :: "('r, 't, 'z) stream_env_scheme \<Rightarrow> endpoint \<Rightarrow> 't listener_op \<Rightarrow> bool" where
  "stream_traffic E client x \<longleftrightarrow> (\<forall>msg. x = LMessage (msg, client) \<longrightarrow> (\<exists>k i q p. destdcode_stream E msg = Some (Reliable k i q p) \<and> data_kind k))"

definition alone :: "nat \<Rightarrow> 't \<times> stream_task \<Rightarrow> 't peer \<Rightarrow> bool" where
  "alone a x P \<longleftrightarrow> p_current P = Some a \<and> p_streams P a = Some x \<and> (\<forall>b y. p_streams P b = Some y \<longrightarrow> b \<noteq> a \<longrightarrow> snd y = Ended)"

definition all_ended :: "'t peer \<Rightarrow> bool" where
  "all_ended P \<longleftrightarrow> p_current P = None \<and> (\<forall>b y. p_streams P b = Some y \<longrightarrow> snd y = Ended)"

lemma traffic_events:
  assumes "stream_traffic E client (LMessage (msg, src))"
  shows "events_of E client (LMessage (msg, src), out) =
    (if src \<noteq> client \<or> failed out then [] else [PData (the (destdcode_stream E msg))])"
  using assms by (auto simp: stream_traffic_def data_kind_def split: rel_kind.splits)

lemma all_ended_step: "all_ended P \<Longrightarrow> stream_traffic E client x \<Longrightarrow> all_ended (peer_run E client [(x, out)] P)"
proof (cases x)
  case (LMessage m)
  assume "all_ended P" "stream_traffic E client x"
  then show ?thesis using LMessage by (cases m) (simp add: peer_run_def traffic_events all_ended_def del: events_of.simps)
qed (auto simp: peer_run_def all_ended_def on_stream_def split: option.splits prod.splits stream_task.splits if_splits)

lemma alone_step:
  assumes al: "alone a x P" and tr: "stream_traffic E client b" and ok: "\<And>msg. b = LMessage (msg, client) \<Longrightarrow> \<not> failed out"
  shows "case stream_step E client a b x of None \<Rightarrow> all_ended (peer_run E client [(b, out)] P) | Some y \<Rightarrow> alone a y (peer_run E client [(b, out)] P)"
proof (cases b)
  case (LMessage m)
  obtain msg src where m: "m = (msg, src)" by (cases m)
  obtain st t where x: "x = (st, t)" by (cases x)
  show ?thesis
  proof (cases "src = client")
    case True
    then obtain k i q p where "destdcode_stream E msg = Some (Reliable k i q p)" using tr LMessage m by (auto simp: stream_traffic_def)
    then show ?thesis using True tr ok al LMessage m x
      by (simp add: peer_run_def traffic_events alone_def on_stream_def del: events_of.simps)
  next
    case False
    then show ?thesis using al LMessage m x by (simp add: peer_run_def)
  qed
next
  case (LTick c)
  have other: "c = a" if "p_streams P c = Some (st, Ticking)" for st using al that by (auto simp: alone_def)
  show ?thesis
  proof (cases "c = a \<and> snd x = Ticking")
    case True
    then show ?thesis using LTick al
      by (cases x) (auto simp: peer_run_def alone_def all_ended_def on_stream_def split: option.splits prod.splits)
  next
    case False
    then have "p_streams P c \<noteq> Some (st, Ticking)" for st using other[of st] al by (auto simp: alone_def)
    then have "peer_step E (PTick c) P = P" by (auto split: option.splits stream_task.splits)
    moreover have "stream_step E client a (LTick c) x = Some x" using False by (cases x) auto
    ultimately show ?thesis using LTick al by (simp add: peer_run_def del: peer_step.simps)
  qed
qed (use al in \<open>cases x; auto simp: peer_run_def alone_def on_stream_def split: if_splits prod.splits\<close>)+


lemma own_message_kept:
  assumes s: "sim client P l" and al: "alone a x P" and tr: "stream_traffic E client (LMessage (msg, client))"
    and step: "listener_step E (LMessage (msg, client)) l = (out, l')"
  shows "\<not> failed out"
proof -
  obtain k i q p where m: "destdcode_stream E msg = Some (Reliable k i q p)" "data_kind k" using tr by (auto simp: stream_traffic_def)
  have "ls_table l client = Some a" using simD(1)[OF s] al by (simp add: alone_def)
  then show ?thesis using step accept_data[OF m, of client l] by auto
qed

lemma stream_alone:
  assumes "sim client P l" "listener_run E ops l = (outs, l')" "\<And>b. b \<in> set ops \<Longrightarrow> stream_traffic E client b"
  shows "(alone a x P \<longrightarrow> (case stream_run E client a ops x of
      None \<Rightarrow> all_ended (peer_run E client (zip ops outs) P) | Some y \<Rightarrow> alone a y (peer_run E client (zip ops outs) P))) \<and>
    (all_ended P \<longrightarrow> all_ended (peer_run E client (zip ops outs) P))"
  using assms
proof (induction ops arbitrary: P l outs x)
  case Nil then show ?case by (simp add: peer_run_def)
next
  case (Cons b ops)
  obtain out l1 where o: "listener_step E b l = (out, l1)" by (cases "listener_step E b l")
  obtain rest where r: "listener_run E ops l1 = (rest, l')" "outs = out # rest" using Cons.prems(2) o by (auto split: prod.splits)
  let ?P = "peer_run E client [(b, out)] P"
  have eq: "peer_run E client (zip (b # ops) outs) P = peer_run E client (zip ops rest) ?P" by (simp add: r(2) peer_run_def)
  have tr: "stream_traffic E client b" using Cons.prems(3) by simp
  have IH: "(alone a y ?P \<longrightarrow> (case stream_run E client a ops y of
      None \<Rightarrow> all_ended (peer_run E client (zip ops rest) ?P) | Some z \<Rightarrow> alone a z (peer_run E client (zip ops rest) ?P))) \<and>
    (all_ended ?P \<longrightarrow> all_ended (peer_run E client (zip ops rest) ?P))" for y
    by (rule Cons.IH[OF sim_step[OF Cons.prems(1) o] r(1)]) (use Cons.prems(3) in simp)
  have "\<not> failed out" if "alone a x P" "b = LMessage (msg, client)" for msg
    using own_message_kept[OF Cons.prems(1) that(1)] tr o that(2) by simp
  then have "case stream_step E client a b x of None \<Rightarrow> all_ended ?P | Some y \<Rightarrow> alone a y ?P" if "alone a x P"
    using alone_step[OF that tr] that by blast
  then show ?case unfolding eq using IH all_ended_step[OF _ tr, of P out] by (cases "stream_step E client a b x") auto
qed

section \<open>An instance for the witnesses\<close>

definition kind_no :: "rel_kind \<Rightarrow> nat" where
  "kind_no k = (case k of Syn \<Rightarrow> 0 | SynAck \<Rightarrow> 1 | Rst \<Rightarrow> 2 | OtherKind n \<Rightarrow> n + 3)"

definition no_kind :: "nat \<Rightarrow> rel_kind" where
  "no_kind n = (if n = 0 then Syn else if n = 1 then SynAck else if n = 2 then Rst else OtherKind (n - 3))"

definition put_stream :: "stream_message \<Rightarrow> bytes" where
  "put_stream m = (case m of
     OtherMessage n \<Rightarrow> 0 # put_nat n
   | Reliable k i q p \<Rightarrow> 1 # put_nat (kind_no k) @ le_bytes 2 i @ le_bytes 8 q @ p)"

definition get_stream :: "bytes \<Rightarrow> stream_message option" where
  "get_stream b = (case b of
     [] \<Rightarrow> None
   | t # r \<Rightarrow> (let (n, x) = get_nat r in
       if t = 0 then Some (OtherMessage n)
       else Some (Reliable (no_kind n) (of_le_bytes (take 2 x)) (of_le_bytes (take 8 (drop 2 x))) (drop 10 x))))"

text \<open>A stream here is its identifier and what it received; it ends when it has received something.\<close>

definition demo_senv :: "(u64 set, u16 \<times> stream_message list) stream_env" where
  "demo_senv = haven_env.extend demo_henv \<lparr>stdcode_stream = put_stream, destdcode_stream = get_stream,
     new_established = (\<lambda>i. (i, [])), inject_incoming = (\<lambda>m (i, ms). (i, ms @ [m])),
     tick = (\<lambda>(i, ms). ([], (i, ms), if ms = [] then Some 0 else None)), show_session_error = (\<lambda>_. [])\<rparr>"

lemma get_put_stream: "get_stream (put_stream m) = Some m"
proof (cases m)
  case (OtherMessage n)
  then show ?thesis using get_put_nat[of n "[]"] by (simp add: put_stream_def get_stream_def)
next
  case (Reliable k i q p)
  have "no_kind (kind_no k) = k" by (cases k) (simp_all add: no_kind_def kind_no_def)
  then show ?thesis using Reliable by (simp add: put_stream_def get_stream_def of_le_bytes_le_bytes)
qed

definition stream_code_laws :: "('r, 't, 'z) stream_env_scheme \<Rightarrow> bool" where
  "stream_code_laws E \<longleftrightarrow> (\<forall>m. destdcode_stream E (stdcode_stream E m) = Some m)"

lemma demo_stream_laws: "stream_code_laws demo_senv"
  by (simp add: stream_code_laws_def demo_senv_def haven_env.defs get_put_stream)

lemma demo_senv_sel:
  "stdcode_stream demo_senv = put_stream" "destdcode_stream demo_senv = get_stream" "new_established demo_senv i = (i, [])"
  "inject_incoming demo_senv m (i, ms) = (i, ms @ [m])" "tick demo_senv (i, ms) = ([], (i, ms), if ms = [] then Some 0 else None)"
  by (simp_all add: demo_senv_def haven_env.defs)

section \<open>Properties\<close>

text \<open>
  (C14) The listener implements one independent machine per client.  Whatever happens at it, in whichever
  order, messages from any clients, turns of the tickers of all streams, streams dropped or used by their
  holders, the entry its table has for a client, and the state and the ticker of each stream of
  that client, are those of the client's own machine: a request to connect that is answered makes a new
  stream the current one, a reset forgets the current one, other messages are injected into the
  current one, and the end of any of the client's streams forgets the current one, be it the same
  or not.  No two clients share a stream, and a stream is handed out exactly for the requests to connect whose
  handling did not fail.
\<close>

theorem listener_demultiplexes:
  assumes "listener_run E ops (listen socket) = (outs, l)"
  shows "ls_table l ep = p_current (peer_run E ep (zip ops outs) peer_new) \<and>
    (\<forall>a x. p_streams (peer_run E ep (zip ops outs) peer_new) a = Some x \<longrightarrow> stream_of l a = x) \<and>
    (\<forall>a. ls_table l ep = Some a \<longrightarrow> p_streams (peer_run E ep (zip ops outs) peer_new) a \<noteq> None) \<and>
    (\<forall>ep'. ep' \<noteq> ep \<longrightarrow> dom (p_streams (peer_run E ep (zip ops outs) peer_new)) \<inter>
       dom (p_streams (peer_run E ep' (zip ops outs) peer_new)) = {}) \<and>
    (\<forall>(x, out) \<in> set (zip ops outs). (\<exists>a. out = Accepted a) \<longleftrightarrow> syn_op E x \<and> \<not> failed out)"
proof -
  have s: "sim ep (peer_run E ep (zip ops outs) peer_new) l"
      and acc: "\<forall>(x, out) \<in> set (zip ops outs). (\<exists>a. out = Accepted a) \<longleftrightarrow> syn_op E x \<and> \<not> failed out"
    using listener_refines[OF sim_new assms] by blast+
  have "p_streams (peer_run E ep (zip ops outs) peer_new) a \<noteq> None" if "ls_table l ep = Some a" for a
    using simD(7)[OF s that] by (metis domIff)
  moreover have "dom (p_streams (peer_run E ep (zip ops outs) peer_new)) \<inter> dom (p_streams (peer_run E ep' (zip ops outs) peer_new)) = {}"
    if "ep' \<noteq> ep" for ep' using clients_apart[OF assms] that by metis
  ultimately show ?thesis using simD(1,3)[OF s] acc by blast
qed

theorem listener_demultiplexes_witness:
  "\<exists>outs l. listener_run demo_senv [LMessage (put_stream (Reliable Syn 7 0 []), endpoint_new (demo_fp 2) 6), LTick 0,
       LMessage (put_stream (Reliable Syn 8 0 []), endpoint_new (demo_fp 3) 6),
       LMessage (put_stream (Reliable (OtherKind 0) 8 1 [5]), endpoint_new (demo_fp 3) 6), LTick 1, LWake 0,
       LMessage (put_stream (Reliable (OtherKind 0) 7 1 [9]), endpoint_new (demo_fp 2) 6)] (listen (N2r demo_socket)) = (outs, l) \<and>
     ls_table l (endpoint_new (demo_fp 2) 6) = Some 0 \<and> stream_of l 0 = ((7, [Reliable (OtherKind 0) 7 1 [9]]), Ticking) \<and>
     ls_table l (endpoint_new (demo_fp 3) 6) = None"
proof -
  let ?a = "endpoint_new (demo_fp 2) 6" and ?b = "endpoint_new (demo_fp 3) 6"
  let ?ops = "[LMessage (put_stream (Reliable Syn 7 0 []), ?a), LTick 0, LMessage (put_stream (Reliable Syn 8 0 []), ?b),
       LMessage (put_stream (Reliable (OtherKind 0) 8 1 [5]), ?b), LTick 1, LWake 0, LMessage (put_stream (Reliable (OtherKind 0) 7 1 [9]), ?a)]"
  have ne: "?a \<noteq> ?b" by (simp add: demo_fp_bytes endpoint_new_def)
  obtain outs l where r: "listener_run demo_senv ?ops (listen (N2r demo_socket)) = (outs, l)"
    by (cases "listener_run demo_senv ?ops (listen (N2r demo_socket))")
  have outs: "outs = [Accepted 0, Continue, Accepted 1, Continue, Continue, Continue, Continue]"
    using r ne by (auto simp: accept_message_def listener_send_def socket_send_to_def n2r_send_to_def listen_def demo_senv_sel
        get_put_stream ticker_tick_def ticker_wake_def)
  show ?thesis
    using listener_demultiplexes[OF r, of ?a] listener_demultiplexes[OF r, of ?b] ne
    by (intro exI[of _ outs] exI[of _ l] conjI r)
      (simp_all add: outs peer_run_def peer_new_def on_stream_def demo_senv_sel get_put_stream)
qed

text \<open>
  (C15) A connection carries what its client sends.  At a listener with any past, let a client that has no
  running ticker there connect.  Its request makes the listener hand out a stream, and the listener's
  answer establishes the client's end with the same identifier.  From then on, whatever other clients send
  and however the tickers and the holders of all streams act in between, every message of the client's
  stream is injected into the listener's end of it, in order with the stream's own ticks and uses, and
  the table leads to it, until a tick finds the stream dead, which empties the client's entry.
\<close>

theorem stream_connects_and_carries:
  assumes law: "stream_code_laws E" and past: "listener_run E before (listen first_socket) = (outs0, l)"
    and idle: "\<forall>a tk. ls_tickers l a = Some tk \<longrightarrow> tk_client tk \<noteq> client"
    and c: "c = connect_begin stream_id socket server"
    and sent: "socket_send_to E (show_session_error E) (stdcode_stream E (Reliable Syn stream_id 0 [])) server socket = (Inr (), socket')"
    and answered: "socket_send_to E (show_session_error E) (stdcode_stream E (Reliable SynAck stream_id 0 [])) client (ls_socket l) = (Inr (), lsocket)"
  shows "\<exists>l1. sc_socket (connect_send_syn E c) = socket' \<and>
    accept_message E (stdcode_stream E (Reliable Syn stream_id 0 []), client) l = (Accepted (length (ls_states l)), l1) \<and>
    ls_socket l1 = lsocket \<and>
    sc_phase (client_message E (stdcode_stream E (Reliable SynAck stream_id 0 []), server) (connect_send_syn E c)) =
      Established (new_established E stream_id) \<and>
    (\<forall>ops outs l2. listener_run E ops l1 = (outs, l2) \<longrightarrow> (\<forall>b \<in> set ops. stream_traffic E client b) \<longrightarrow>
       (case stream_run E client (length (ls_states l)) ops (new_established E stream_id, Ticking) of
          Some x \<Rightarrow> ls_table l2 client = Some (length (ls_states l)) \<and> stream_of l2 (length (ls_states l)) = x
        | None \<Rightarrow> ls_table l2 client = None))"
proof -
  let ?syn = "stdcode_stream E (Reliable Syn stream_id 0 [])" and ?n = "length (ls_states l)"
  have syn: "destdcode_stream E ?syn = Some (Reliable Syn stream_id 0 [])"
    "destdcode_stream E (stdcode_stream E (Reliable SynAck stream_id 0 [])) = Some (Reliable SynAck stream_id 0 [])"
    using law by (simp_all add: stream_code_laws_def)
  obtain l1 where l1: "accept_message E (?syn, client) l = (Accepted ?n, l1)" "ls_socket l1 = lsocket"
    using syn(1) answered by (auto simp: accept_message_def listener_send_def Let_def)
  have client: "sc_socket (connect_send_syn E c) = socket'"
    "sc_phase (client_message E (stdcode_stream E (Reliable SynAck stream_id 0 []), server) (connect_send_syn E c)) =
      Established (new_established E stream_id)"
    using c sent syn(2) by (simp_all add: connect_send_syn_def connect_begin_def client_message_def)
  obtain P where s: "sim client P l" using listener_refines[OF sim_new past] by blast
  let ?P = "peer_run E client [(LMessage (?syn, client), Accepted ?n)] P"
  have ended: "snd y = Ended" if "p_streams P b = Some y" for b y
    using simD(3)[OF s that] simD(5)[OF s, of b] that idle by (auto simp: stream_of_def split: option.splits)
  have alone: "alone ?n (new_established E stream_id, Ticking) ?P"
    using syn(1) ended by (auto simp: alone_def peer_run_def)
  have s1: "sim client ?P l1" by (rule sim_message[OF s l1(1)])
  have "case stream_run E client ?n ops (new_established E stream_id, Ticking) of
      Some x \<Rightarrow> ls_table l2 client = Some ?n \<and> stream_of l2 ?n = x | None \<Rightarrow> ls_table l2 client = None"
    if run: "listener_run E ops l1 = (outs, l2)" and tr: "\<forall>b \<in> set ops. stream_traffic E client b" for ops outs l2
  proof -
    have s2: "sim client (peer_run E client (zip ops outs) ?P) l2" using listener_refines[OF s1 run] by blast
    have end_of: "case stream_run E client ?n ops (new_established E stream_id, Ticking) of
        None \<Rightarrow> all_ended (peer_run E client (zip ops outs) ?P) | Some y \<Rightarrow> alone ?n y (peer_run E client (zip ops outs) ?P)"
      using stream_alone[OF s1 run, of ?n "(new_established E stream_id, Ticking)"] tr alone by blast
    show ?thesis
    proof (cases "stream_run E client ?n ops (new_established E stream_id, Ticking)")
      case None
      then show ?thesis using end_of simD(1)[OF s2] by (simp add: all_ended_def)
    next
      case (Some y)
      then have "alone ?n y (peer_run E client (zip ops outs) ?P)" using end_of by simp
      then show ?thesis using Some simD(1)[OF s2] simD(3)[OF s2, of ?n y] by (simp add: alone_def)
    qed
  qed
  then show ?thesis using l1 client by blast
qed

theorem stream_connects_and_carries_witness:
  "\<exists>l1. accept_message demo_senv (put_stream (Reliable Syn 7 0 []), endpoint_new (demo_fp 2) 6) (listen (N2r demo_socket)) = (Accepted 0, l1) \<and>
     (\<forall>outs l2. listener_run demo_senv
       [LMessage (put_stream (Reliable (OtherKind 0) 7 1 [9]), endpoint_new (demo_fp 2) 6), LUse 0 (\<lambda>(i, ms). (i, [])), LTick 0,
        LMessage (put_stream (Reliable Syn 8 0 []), endpoint_new (demo_fp 3) 6), LWake 0,
        LMessage (put_stream (Reliable (OtherKind 0) 7 2 [8]), endpoint_new (demo_fp 2) 6)] l1 = (outs, l2) \<longrightarrow>
     ls_table l2 (endpoint_new (demo_fp 2) 6) = Some 0 \<and> stream_of l2 0 = ((7, [Reliable (OtherKind 0) 7 2 [8]]), Ticking))"
proof -
  let ?a = "endpoint_new (demo_fp 2) 6" and ?b = "endpoint_new (demo_fp 3) 6"
  let ?ops = "[LMessage (put_stream (Reliable (OtherKind 0) 7 1 [9]), ?a), LUse 0 (\<lambda>(i, ms). (i, [])), LTick 0,
        LMessage (put_stream (Reliable Syn 8 0 []), ?b), LWake 0, LMessage (put_stream (Reliable (OtherKind 0) 7 2 [8]), ?a)]"
  have ne: "?a \<noteq> ?b" by (simp add: demo_fp_bytes endpoint_new_def)
  have send: "socket_send_to demo_senv sh m ep (N2r demo_socket) =
      (Inr (), N2r (snd (n2r_send_to m ep demo_socket)))" for sh m ep
    by (simp add: socket_send_to_def n2r_send_to_def)
  have start: "ls_socket (listen (N2r demo_socket)) = N2r demo_socket" "length (ls_states (listen (N2r demo_socket))) = 0"
      "\<forall>a tk. ls_tickers (listen (N2r demo_socket)) a = Some tk \<longrightarrow> tk_client tk \<noteq> ?a" by (simp_all add: listen_def)
  have tr: "\<forall>b \<in> set ?ops. stream_traffic demo_senv ?a b"
    using ne by (auto simp: stream_traffic_def demo_senv_sel get_put_stream data_kind_def)
  have run: "stream_run demo_senv ?a 0 ?ops (new_established demo_senv 7, Ticking) = Some ((7, [Reliable (OtherKind 0) 7 2 [8]]), Ticking)"
    using ne by (simp add: demo_senv_sel get_put_stream)
  have "listener_run demo_senv [] (listen (N2r demo_socket)) = ([], listen (N2r demo_socket))" by simp
  then obtain l1 where acc: "accept_message demo_senv (stdcode_stream demo_senv (Reliable Syn 7 0 []), ?a) (listen (N2r demo_socket)) = (Accepted 0, l1)"
      and all: "\<And>ops outs l2. listener_run demo_senv ops l1 = (outs, l2) \<Longrightarrow> (\<forall>b \<in> set ops. stream_traffic demo_senv ?a b) \<Longrightarrow>
        (case stream_run demo_senv ?a 0 ops (new_established demo_senv 7, Ticking) of
           Some x \<Rightarrow> ls_table l2 ?a = Some 0 \<and> stream_of l2 0 = x | None \<Rightarrow> ls_table l2 ?a = None)"
    using stream_connects_and_carries[OF demo_stream_laws _ start(3) refl send[of _ _ "endpoint_new (demo_fp 1) 5"],
      unfolded start, OF _ send, of "[]" _ "[]" 7] by blast
  have "ls_table l2 ?a = Some 0 \<and> stream_of l2 0 = ((7, [Reliable (OtherKind 0) 7 2 [8]]), Ticking)"
    if "listener_run demo_senv ?ops l1 = (outs, l2)" for outs l2
    using all[OF that tr] unfolding run by simp
  then show ?thesis using acc unfolding demo_senv_sel(1) by blast
qed

text \<open>
  (C35) A repeated request to connect costs the client its stream.  The listener does not look for an
  existing stream when a request arrives (clients repeat theirs after four seconds): it hands out a
  second stream and points its table at that.  When the first stream dies, its ticker removes the
  client's entry, which is the second stream's by then: the second stream still runs, but the
  next message of the client, whichever it is, is answered with a reset and reaches no stream.
\<close>

theorem second_syn_orphans_stream:
  assumes existing: "ls_table l ep = Some a" "ls_tickers l a = Some \<lparr>tk_client = ep, tk_outgoing = None\<rparr>" "a < length (ls_states l)"
    and again: "destdcode_stream E m = Some (Reliable Syn i q p)" "accept_message E (m, ep) l = (Accepted b, l2)"
    and dies: "tick E (ls_states l ! a) = (out, st, None)"
  shows "a \<noteq> b \<and> ls_table l2 ep = Some b \<and> ls_tickers (ticker_tick E a l2) b = Some \<lparr>tk_client = ep, tk_outgoing = None\<rparr> \<and>
    (\<forall>msg k i q p. destdcode_stream E msg = Some (Reliable k i q p) \<longrightarrow> data_kind k \<longrightarrow>
       ls_states (snd (accept_message E (msg, ep) (ticker_tick E a l2))) = ls_states (ticker_tick E a l2) \<and>
       ls_socket (snd (accept_message E (msg, ep) (ticker_tick E a l2))) =
         ls_socket (snd (listener_send E (Reliable Rst i q p) ep (ticker_tick E a l2))))"
proof -
  have b: "b = length (ls_states l)" "ls_table l2 ep = Some b" "ls_tickers l2 = (ls_tickers l)(b \<mapsto> \<lparr>tk_client = ep, tk_outgoing = None\<rparr>)"
      "ls_states l2 ! a = ls_states l ! a"
    using accept_syn[OF again] existing(3) by (auto simp: nth_append)
  let ?l = "ticker_tick E a l2"
  have l: "ls_tickers ?l b = Some \<lparr>tk_client = ep, tk_outgoing = None\<rparr>" "ls_table ?l ep = None"
    using dies existing b by (simp_all add: ticker_tick_def)
  have "ls_states (snd (accept_message E (msg, ep) ?l)) = ls_states ?l \<and>
      ls_socket (snd (accept_message E (msg, ep) ?l)) = ls_socket (snd (listener_send E (Reliable Rst i q p) ep ?l))"
    if "destdcode_stream E msg = Some (Reliable k i q p)" "data_kind k" for msg k i q p
  proof -
    obtain r l' where s: "listener_send E (Reliable Rst i q p) ep ?l = (r, l')" by (cases "listener_send E (Reliable Rst i q p) ep ?l")
    show ?thesis using listener_send_keeps[OF s] s l(2) by (cases r) (simp_all add: accept_data[OF that])
  qed
  then show ?thesis using b l(1) existing(3) by simp
qed

definition demo_listener :: "(u64 set, u16 \<times> stream_message list) listener" where
  "demo_listener = snd (listener_run demo_senv [LMessage (put_stream (Reliable Syn 7 0 []), endpoint_new (demo_fp 2) 6),
     LMessage (put_stream (Reliable (OtherKind 0) 7 1 [9]), endpoint_new (demo_fp 2) 6)] (listen (N2r demo_socket)))"

theorem second_syn_orphans_stream_witness:
  "\<exists>l2. accept_message demo_senv (put_stream (Reliable Syn 7 0 []), endpoint_new (demo_fp 2) 6) demo_listener = (Accepted 1, l2) \<and>
     ls_states (snd (accept_message demo_senv (put_stream (Reliable (OtherKind 0) 7 2 [8]), endpoint_new (demo_fp 2) 6)
       (ticker_tick demo_senv 0 l2))) = ls_states (ticker_tick demo_senv 0 l2)"
proof -
  let ?syn = "put_stream (Reliable Syn 7 0 [])" and ?ep = "endpoint_new (demo_fp 2) 6"
  have syn: "destdcode_stream demo_senv ?syn = Some (Reliable Syn 7 0 [])"
    "destdcode_stream demo_senv (put_stream (Reliable (OtherKind 0) 7 2 [8])) = Some (Reliable (OtherKind 0) 7 2 [8])"
    by (simp_all add: demo_senv_sel get_put_stream)
  have l: "ls_table demo_listener ?ep = Some 0" "ls_tickers demo_listener 0 = Some \<lparr>tk_client = ?ep, tk_outgoing = None\<rparr>"
      "ls_states demo_listener = [(7, [Reliable (OtherKind 0) 7 1 [9]])]" "\<exists>k. ls_socket demo_listener = N2r k"
    by (simp_all add: demo_listener_def accept_message_def listener_send_def socket_send_to_def n2r_send_to_def listen_def
        demo_senv_sel get_put_stream)
  then obtain l2 where acc: "accept_message demo_senv (?syn, ?ep) demo_listener = (Accepted 1, l2)"
    by (auto simp: accept_message_def listener_send_def socket_send_to_def n2r_send_to_def demo_senv_sel get_put_stream)
  have "0 < length (ls_states demo_listener)" "tick demo_senv (ls_states demo_listener ! 0) = ([], (7, [Reliable (OtherKind 0) 7 1 [9]]), None)"
    by (simp_all add: l(3) demo_senv_sel)
  from second_syn_orphans_stream[OF l(1,2) this(1) syn(1) acc this(2)] show ?thesis
    using acc syn(2) by (auto simp: data_kind_def)
qed

text \<open>
  Once a stream is established, its client injects what arrives at its socket, from any sender.
\<close>

lemma client_injects_any_sender:
  "sc_phase c = Established st \<Longrightarrow> destdcode_stream E msg = Some smsg \<Longrightarrow>
     sc_phase (client_message E (msg, ep) c) = Established (inject_incoming E smsg st)"
  by (simp add: client_message_def)

text \<open>
  One message that does not decode ends the call of \<open>accept\<close>, and with it the loop that serves the haven.
\<close>

lemma undecodable_ends_accept:
  "socket_recv_from (ls_socket l) s = Some (Inr (msg, ep), skt, s') \<Longrightarrow> destdcode_stream E msg = None \<Longrightarrow>
     accept E l s = Some (Inl BadStreamMessage, l\<lparr>ls_socket := skt\<rparr>, s')"
  by (simp add: accept.simps accept_turn_def accept_message_def)

end
