(* ===== verification/Forwarding.thy ===== *)
theory Forwarding
  imports Stream_Layer
begin

text \<open>
  The applications on top of sockets and streams: \<open>src/daemon/socks5.rs\<close>, \<open>src/daemon/udp_forward.rs\<close> and the
  forwarding loops of \<open>src/haven_util.rs\<close>.  Strings are their UTF-8 bytes, and \<open>String::from_utf8_lossy\<close> is
  modelled as the standard library defines it.  The SOCKS protocol, UDP and TCP are third-party code
  or system calls: what they deliver is an argument, what is sent through them a result.
\<close>

section \<open>Lossy decoding of UTF-8\<close>

definition cont_byte :: "byte \<Rightarrow> bool" where
  "cont_byte b \<longleftrightarrow> 0x80 \<le> b \<and> b \<le> 0xBF"

text \<open>The second byte of sequences of three and of four bytes.\<close>

definition second3 :: "byte \<Rightarrow> byte \<Rightarrow> bool" where
  "second3 a b \<longleftrightarrow> (if a = 0xE0 then 0xA0 \<le> b \<and> b \<le> 0xBF else if a = 0xED then 0x80 \<le> b \<and> b \<le> 0x9F else cont_byte b)"

definition second4 :: "byte \<Rightarrow> byte \<Rightarrow> bool" where
  "second4 a b \<longleftrightarrow> (if a = 0xF0 then 0x90 \<le> b \<and> b \<le> 0xBF else if a = 0xF4 then 0x80 \<le> b \<and> b \<le> 0x8F else cont_byte b)"

text \<open>How many continuation bytes follow, and whether the sequence is complete.\<close>

fun utf8_tail :: "(byte \<Rightarrow> bool) list \<Rightarrow> bytes \<Rightarrow> nat \<times> bool" where
  "utf8_tail [] r = (0, True)"
| "utf8_tail (p # ps) [] = (0, False)"
| "utf8_tail (p # ps) (b # r) = (if p b then (let (n, ok) = utf8_tail ps r in (Suc n, ok)) else (0, False))"

definition utf8_expect :: "byte \<Rightarrow> (byte \<Rightarrow> bool) list option" where
  "utf8_expect a =
     (if a < 0x80 then Some []
      else if 0xC2 \<le> a \<and> a \<le> 0xDF then Some [cont_byte]
      else if 0xE0 \<le> a \<and> a \<le> 0xEF then Some [second3 a, cont_byte]
      else if 0xF0 \<le> a \<and> a \<le> 0xF4 then Some [second4 a, cont_byte, cont_byte]
      else None)"

definition utf8_head :: "byte \<Rightarrow> bytes \<Rightarrow> nat \<times> bool" where
  "utf8_head a r = (case utf8_expect a of None \<Rightarrow> (0, False) | Some ps \<Rightarrow> utf8_tail ps r)"

definition replacement :: bytes where
  "replacement = [0xEF, 0xBF, 0xBD]"

function utf8_lossy :: "bytes \<Rightarrow> bytes" where
  "utf8_lossy [] = []"
| "utf8_lossy (a # r) =
     (let (n, ok) = utf8_head a r in (if ok then a # take n r else replacement) @ utf8_lossy (drop n r))"
  by pat_completeness auto
termination by (relation "measure length") auto

section \<open>SOCKS requests\<close>

datatype socks_host = Domain bytes | Ipv4 byte byte byte byte | Ipv6

datatype fallback = Block | PassThrough | SimpleProxyTo endpoint

datatype socks_error = Ipv6NotSupported | InvalidAddress fp_parse_error

text \<open>
  What a request comes to: a stream to a haven, nothing, a TCP connection, or a stream to a proxy with
  the first bytes written to it.
\<close>

datatype socks_action = ToHaven endpoint | Blocked | ToInternet bytes | ToProxy endpoint bytes

definition string_of_bytes :: "bytes \<Rightarrow> string" where
  "string_of_bytes b = map (\<lambda>x. char_of (unat x)) b"

definition socks_domain :: "socks_host \<Rightarrow> socks_error + bytes" where
  "socks_domain host = (case host of
     Domain name \<Rightarrow> Inr (utf8_lossy name)
   | Ipv4 a b c d \<Rightarrow> Inr (bytes_of_string (show_nat (unat a) @ ''.'' @ show_nat (unat b) @ ''.'' @ show_nat (unat c) @ ''.'' @ show_nat (unat d)))
   | Ipv6 \<Rightarrow> Inl Ipv6NotSupported)"

definition socks_addr :: "bytes \<Rightarrow> u16 \<Rightarrow> bytes" where
  "socks_addr domain port = domain @ bytes_of_string ('':'' @ show_nat (unat port))"

text \<open>\<open>accepted\<close> tells how many bytes of a buffer one \<open>write\<close> to the stream takes.\<close>

definition socks5_once ::
    "'z crypto_scheme \<Rightarrow> (bytes \<Rightarrow> nat) \<Rightarrow> fallback \<Rightarrow> socks_host \<Rightarrow> u16 \<Rightarrow> socks_error + socks_action" where
  "socks5_once C accepted fb host port =
     (case socks_domain host of
        Inl e \<Rightarrow> Inl e
      | Inr domain \<Rightarrow>
          let addr = socks_addr domain port;
              split_domain = split_on CHR ''.'' (string_of_bytes domain)
          in if last split_domain = ''haven'' then
               (case fingerprint_from_str C (hd split_domain) of
                  Inl e \<Rightarrow> Inl (InvalidAddress e)
                | Inr fp \<Rightarrow> Inr (ToHaven (endpoint_new fp (ucast port))))
             else
               (case fb of
                  Block \<Rightarrow> Inr Blocked
                | PassThrough \<Rightarrow> Inr (ToInternet addr)
                | SimpleProxyTo remote \<Rightarrow>
                    let prepend = be_bytes 2 (of_nat (length addr) :: u16)
                    in Inr (ToProxy remote (take (accepted prepend) prepend @ take (accepted addr) addr))))"

section \<open>The simple proxy\<close>

text \<open>
  What the proxy reads from an accepted stream: the address to connect to, and what is left to
  copy; \<open>None\<close> if the stream ends too early.
\<close>

definition read_exact :: "nat \<Rightarrow> bytes \<Rightarrow> (bytes \<times> bytes) option" where
  "read_exact n b = (if length b < n then None else Some (take n b, drop n b))"

definition simple_proxy_read :: "bytes \<Rightarrow> (bytes \<times> bytes) option" where
  "simple_proxy_read stream =
     (case read_exact 2 stream of
        None \<Rightarrow> None
      | Some (len_buf, r) \<Rightarrow>
          (case read_exact (unat (of_be_bytes len_buf :: u16)) r of
             None \<Rightarrow> None
           | Some (addr_buf, rest) \<Rightarrow> Some (utf8_lossy addr_buf, rest)))"
section \<open>UDP services of a haven\<close>

text \<open>
  \<open>udp_forward\<close> of \<open>haven_util.rs\<close>: one UDP socket per client, with a task that sends back what
  arrives at it.  \<open>hu_owner\<close> is the client that task was started for.
\<close>

record 'r haven_udp =
  hu_socket :: "'r inner_socket"
  hu_table :: "endpoint \<rightharpoonup> nat"
  hu_owner :: "nat \<rightharpoonup> endpoint"
  hu_next :: nat

definition haven_udp_new :: "'r inner_socket \<Rightarrow> 'r haven_udp" where
  "haven_udp_new earendil_skt = \<lparr>hu_socket = earendil_skt, hu_table = Map.empty, hu_owner = Map.empty, hu_next = 0\<rparr>"

text \<open>A turn of the loop: the UDP socket from which the message is sent upstream, and the datagram.\<close>

definition haven_udp_up :: "bytes \<times> endpoint \<Rightarrow> 'r haven_udp \<Rightarrow> (nat \<times> bytes) \<times> 'r haven_udp" where
  "haven_udp_up rcvd h =
     (case rcvd of (message, src_endpoint) \<Rightarrow>
        (case hu_table h src_endpoint of
           Some socket \<Rightarrow> ((socket, message), h)
         | None \<Rightarrow> ((hu_next h, message), h\<lparr>hu_table := (hu_table h)(src_endpoint \<mapsto> hu_next h),
          hu_owner := (hu_owner h)(hu_next h \<mapsto> src_endpoint), hu_next := Suc (hu_next h)\<rparr>)))"

text \<open>A turn of \<open>down_loop\<close>: a datagram is cut to the 10000 bytes of the buffer.\<close>

definition haven_udp_down ::
    "('r, 'z) haven_env_scheme \<Rightarrow> (session_error \<Rightarrow> string) \<Rightarrow> nat \<Rightarrow> bytes \<Rightarrow> 'r haven_udp
       \<Rightarrow> ((socket_send_error + unit) \<times> endpoint \<times> bytes) option \<times> 'r haven_udp" where
  "haven_udp_down E show_err socket datagram h =
     (case hu_owner h socket of
        None \<Rightarrow> (None, h)
      | Some ep \<Rightarrow>
          let msg = take 10000 datagram;
              (r, skt) = socket_send_to E show_err msg ep (hu_socket h)
          in (Some (r, ep, msg), h\<lparr>hu_socket := skt\<rparr>))"

text \<open>An entry idle for an hour is dropped, and its task with it.\<close>

definition haven_udp_expire :: "endpoint \<Rightarrow> 'r haven_udp \<Rightarrow> 'r haven_udp" where
  "haven_udp_expire ep h =
     (case hu_table h ep of
        None \<Rightarrow> h
      | Some socket \<Rightarrow> h\<lparr>hu_table := (hu_table h)(ep := None), hu_owner := (hu_owner h)(socket := None)\<rparr>)"

section \<open>UDP forwards of a client\<close>

text \<open>\<open>udp_forward_loop\<close>: one haven socket, of a fresh identity, per local UDP address.\<close>

record 'r udp_forward =
  uf_table :: "string \<rightharpoonup> 'r inner_socket"
  uf_remote :: endpoint

definition udp_forward_up ::
    "('r, 'z) haven_env_scheme \<Rightarrow> (session_error \<Rightarrow> string) \<Rightarrow> (nat \<Rightarrow> dock) \<Rightarrow> identity_secret \<Rightarrow> bytes \<Rightarrow> string
       \<Rightarrow> 'r udp_forward \<Rightarrow> 'l daemon \<Rightarrow> ((socket_send_error + unit) \<times> 'r udp_forward \<times> 'l daemon) option" where
  "udp_forward_up E show_err draw fresh_isk datagram src_udp_addr u s =
     map_option (\<lambda>(skt, s').
         let (r, skt') = socket_send_to E show_err (take 10000 datagram) (uf_remote u) skt
         in (r, u\<lparr>uf_table := (uf_table u)(src_udp_addr \<mapsto> skt')\<rparr>, s'))
       (case uf_table u src_udp_addr of
          Some skt \<Rightarrow> Some (skt, s)
        | None \<Rightarrow> map_option (\<lambda>(h, s'). (Haven h, s')) (haven_bind E draw fresh_isk None None s))"

definition udp_forward_down ::
    "string \<Rightarrow> 'r udp_forward \<Rightarrow> 'l daemon \<Rightarrow> ((socket_recv_error + bytes \<times> string) \<times> 'r udp_forward \<times> 'l daemon) option" where
  "udp_forward_down udp_dest u s =
     (case uf_table u udp_dest of
        None \<Rightarrow> None
      | Some skt \<Rightarrow> map_option (\<lambda>(r, skt', s'). (map_sum id (\<lambda>(msg, _). (msg, udp_dest)) r,
            u\<lparr>uf_table := (uf_table u)(udp_dest \<mapsto> skt')\<rparr>, s')) (socket_recv_from skt s))"

section \<open>Lossy decoding is idempotent\<close>

lemma utf8_tail_ok: "utf8_tail ps r = (n, True) \<Longrightarrow> n = length ps \<and> n \<le> length r \<and> utf8_tail ps (take n r @ x) = (n, True)"
  by (induction ps r arbitrary: n rule: utf8_tail.induct) (auto split: if_splits prod.splits)

lemma utf8_tail_le: "utf8_tail ps r = (n, ok) \<Longrightarrow> n \<le> length ps"
  by (induction ps r arbitrary: n rule: utf8_tail.induct) (auto split: if_splits prod.splits)

lemma utf8_lossy_char:
  assumes "utf8_head a r = (n, True)"
  shows "utf8_lossy ((a # take n r) @ x) = (a # take n r) @ utf8_lossy x"
proof -
  obtain ps where ps: "utf8_expect a = Some ps" using assms by (auto simp: utf8_head_def split: option.splits)
  from ps have t: "utf8_tail ps r = (n, True)" using assms by (simp add: utf8_head_def)
  have "utf8_head a (take n r @ x) = (n, True)" "n \<le> length r" using utf8_tail_ok[OF t, of x] ps by (auto simp: utf8_head_def)
  then show ?thesis by simp
qed

lemma utf8_lossy_replacement: "utf8_lossy (replacement @ x) = replacement @ utf8_lossy x"
  by (simp add: replacement_def utf8_head_def utf8_expect_def second3_def cont_byte_def)

lemma utf8_lossy_append: "utf8_lossy (utf8_lossy b @ x) = utf8_lossy b @ utf8_lossy x"
proof (induction b rule: utf8_lossy.induct)
  case (2 a r)
  obtain n ok where h: "utf8_head a r = (n, ok)" by (cases "utf8_head a r")
  have IH: "utf8_lossy (utf8_lossy (drop n r) @ x) = utf8_lossy (drop n r) @ utf8_lossy x" using 2 h by simp
  show ?case
  proof (cases ok)
    case True
    then show ?thesis using h IH utf8_lossy_char[of a r n "utf8_lossy (drop n r) @ x"] by simp
  next
    case False
    then show ?thesis using h IH utf8_lossy_replacement[of "utf8_lossy (drop n r) @ x"] by simp
  qed
qed simp

lemma utf8_lossy_ascii: "list_all (\<lambda>a. a < 0x80) b \<Longrightarrow> utf8_lossy b = b"
  by (induction b) (simp_all add: utf8_head_def utf8_expect_def)

lemma length_utf8_lossy: "length (utf8_lossy b) \<le> 3 * length b"
proof (induction b rule: utf8_lossy.induct)
  case (2 a r)
  obtain n ok where h: "utf8_head a r = (n, ok)" by (cases "utf8_head a r")
  have IH: "length (utf8_lossy (drop n r)) \<le> 3 * (length r - n)" using 2 h by simp
  have n: "ok \<Longrightarrow> n \<le> length r" using h utf8_tail_ok by (auto simp: utf8_head_def split: option.splits)
  show ?case using h IH n by (cases ok) (auto simp: replacement_def)
qed simp

lemma show_nat_length: "n < 10 ^ k \<Longrightarrow> 0 < k \<Longrightarrow> length (show_nat n) \<le> k"
proof (induction k arbitrary: n)
  case (Suc k)
  show ?case
  proof (cases "n < 10")
    case True then show ?thesis by (simp add: show_nat.simps[of n])
  next
    case False
    then have k: "0 < k" using Suc.prems by (cases k) simp_all
    have "n div 10 < 10 ^ k" using Suc.prems by (simp add: less_mult_imp_div_less)
    then have "length (show_nat (n div 10)) \<le> k" using Suc.IH k by blast
    then show ?thesis using False by (simp add: show_nat.simps[of n])
  qed
qed simp
section \<open>Properties\<close>

definition socks_ok :: "socks_host \<Rightarrow> bool" where
  "socks_ok host = (case host of Domain name \<Rightarrow> length name \<le> 255 | _ \<Rightarrow> True)"

lemma socks_addr_valid:
  assumes "socks_domain host = Inr domain" "socks_ok host"
  shows "utf8_lossy (socks_addr domain port) = socks_addr domain port" "length (socks_addr domain port) < 2 ^ 16"
proof -
  have chars: "list_all (\<lambda>a. a < 0x80) (bytes_of_string (show_nat n))" for n
  proof -
    have "list_all (\<lambda>d. (of_char (digit_char d) :: byte) < 0x80) [0..<10]" by code_simp
    then show ?thesis using show_nat_chars[of _ n] by (fastforce simp: list_all_iff bytes_of_string_def)
  qed
  have short: "length (show_nat (unat (w :: 'b::len word))) \<le> 5" if "LENGTH('b) \<le> 16" for w :: "'b::len word"
  proof (rule show_nat_length)
    have "unat w < 2 ^ LENGTH('b)" by (rule unsigned_less)
    also have "\<dots> \<le> 2 ^ 16" using that by (intro power_increasing) simp_all
    finally show "unat w < 10 ^ 5" by simp
  qed simp
  have suffix: "utf8_lossy (bytes_of_string ('':'' @ show_nat (unat port))) = bytes_of_string ('':'' @ show_nat (unat port))"
    using chars[of "unat port"] by (intro utf8_lossy_ascii) (simp add: bytes_of_string_def list_all_append)
  have "utf8_lossy domain = domain \<and> length domain \<le> 765 \<and> (\<exists>b. domain = utf8_lossy b)"
  proof (cases host)
    case (Domain name)
    have "length (utf8_lossy name) \<le> 765" using length_utf8_lossy[of name] assms(2) Domain by (simp add: socks_ok_def)
    then show ?thesis using utf8_lossy_append[of name "[]"] assms(1) Domain by (auto simp: socks_domain_def)
  next
    case (Ipv4 a b c d)
    let ?s = "bytes_of_string (show_nat (unat a) @ ''.'' @ show_nat (unat b) @ ''.'' @ show_nat (unat c) @ ''.'' @ show_nat (unat d))"
    have "utf8_lossy ?s = ?s"
      using chars[of "unat a"] chars[of "unat b"] chars[of "unat c"] chars[of "unat d"]
      by (intro utf8_lossy_ascii) (simp add: bytes_of_string_def list_all_append)
    moreover have "length ?s \<le> 765" using short[of a] short[of b] short[of c] short[of d] by (simp add: bytes_of_string_def)
    moreover have "domain = ?s" using assms(1) Ipv4 by (simp add: socks_domain_def)
    ultimately show ?thesis by (metis (no_types))
  qed (use assms(1) in \<open>simp add: socks_domain_def\<close>)
  then obtain b where dom: "length domain \<le> 765" "domain = utf8_lossy b" by blast
  show "utf8_lossy (socks_addr domain port) = socks_addr domain port"
    using utf8_lossy_append[of b] suffix dom(2) by (simp add: socks_addr_def)
  show "length (socks_addr domain port) < 2 ^ 16" using short[of port] dom(1) by (simp add: socks_addr_def bytes_of_string_def)
qed

text \<open>
  (C36) What a proxied request comes to at the proxy.  For every SOCKS request whose host is
  not under \<open>haven\<close>, a daemon that falls back to a simple proxy writes a header to the stream, with one \<open>write\<close>
  for the two bytes of the length and one for the address, and then copies what the client sends.  The
  length never wraps around: a SOCKS name has at most 255 bytes.  If the stream takes the address whole, the proxy reads
  back exactly the address the daemon meant, the host as lossily decoded from the request and the
  port, and leaves exactly what follows.  But the code ignores how much a \<open>write\<close> took: if the stream took less of the address, the
  proxy waits for as many bytes as are missing and takes the first bytes of the client for them.
\<close>

theorem proxied_request_arrives:
  assumes "socks_ok host" "socks5_once C accepted (SimpleProxyTo remote) host port = Inr (ToProxy remote' written)"
  shows "\<exists>domain addr. socks_domain host = Inr domain \<and> addr = socks_addr domain port \<and> remote' = remote \<and>
    (2 \<le> accepted (be_bytes 2 (of_nat (length addr) :: u16)) \<longrightarrow>
       (length addr \<le> accepted addr \<longrightarrow> simple_proxy_read (written @ data) = Some (addr, data)) \<and>
       (\<forall>missing. missing = length addr - accepted addr \<longrightarrow> simple_proxy_read (written @ data) =
          (if length data < missing then None
           else Some (utf8_lossy (take (accepted addr) addr @ take missing data), drop missing data))))"
proof -
  obtain domain where d: "socks_domain host = Inr domain" using assms(2) by (cases "socks_domain host") (simp_all add: socks5_once_def)
  let ?addr = "socks_addr domain port"
  let ?hdr = "be_bytes 2 (of_nat (length ?addr) :: u16)"
  note valid = socks_addr_valid[OF d assms(1), of port]
  have two: "length ?hdr = 2" by (simp add: be_bytes_def)
  have written: "remote' = remote" "written = take (accepted ?hdr) ?hdr @ take (accepted ?addr) ?addr"
    using assms(2) d by (auto simp: socks5_once_def Let_def split: if_splits sum.splits)
  have "unat (of_nat (length ?addr) :: u16) = length ?addr"
    using valid(2) take_bit_nat_eq_self[of "length ?addr" 16] by (simp add: unsigned_of_nat)
  moreover have "of_be_bytes ?hdr = (of_nat (length ?addr) :: u16)"
    by (rule of_be_bytes_be_bytes) simp
  ultimately have len: "unat (of_be_bytes ?hdr :: u16) = length ?addr" by simp
  have read: "simple_proxy_read (written @ data) =
      (let missing = length ?addr - accepted ?addr
       in if length data < missing then None
          else Some (utf8_lossy (take (accepted ?addr) ?addr @ take missing data), drop missing data))" if "2 \<le> accepted ?hdr"
  proof -
    have "read_exact 2 (written @ data) = Some (?hdr, take (accepted ?addr) ?addr @ data)"
      using two that by (simp add: written(2) read_exact_def)
    then show ?thesis using len by (auto simp: simple_proxy_read_def read_exact_def Let_def min_def)
  qed
  show ?thesis
    by (intro exI[of _ domain] exI[of _ ?addr] conjI impI allI d refl written(1))
      (use read valid(1) in \<open>simp_all add: Let_def\<close>)
qed

theorem proxied_request_arrives_witness:
  "(\<exists>written. socks5_once demo_crypto length (SimpleProxyTo (endpoint_new (demo_fp 2) 6)) (Domain [0x61, 0xE0, 0x80, 0x62]) 80 =
       Inr (ToProxy (endpoint_new (demo_fp 2) 6) written) \<and>
     simple_proxy_read (written @ [1, 2]) =
       Some ([0x61, 0xEF, 0xBF, 0xBD, 0xEF, 0xBF, 0xBD, 0x62] @ bytes_of_string '':80'', [1, 2])) \<and>
   (\<exists>written. socks5_once demo_crypto (\<lambda>b. 6) (SimpleProxyTo (endpoint_new (demo_fp 2) 6)) (Domain (bytes_of_string ''abc'')) 80 =
       Inr (ToProxy (endpoint_new (demo_fp 2) 6) written) \<and>
     simple_proxy_read (written @ bytes_of_string '':8080'') = Some (bytes_of_string ''abc:80'', bytes_of_string '':8080'')) \<and>
   (\<exists>written. socks5_once demo_crypto (\<lambda>b. 5) (SimpleProxyTo (endpoint_new (demo_fp 2) 6)) (Domain (bytes_of_string ''abc'')) 80 =
       Inr (ToProxy (endpoint_new (demo_fp 2) 6) written) \<and>
     simple_proxy_read (written @ bytes_of_string ''GET'') = Some (bytes_of_string ''abc:8G'', bytes_of_string ''ET''))"
proof (intro conjI)
  let ?ep = "endpoint_new (demo_fp 2) 6"
  have some: "\<exists>written. socks5_once demo_crypto accepted (SimpleProxyTo ?ep) (Domain name) 80 = Inr (ToProxy ?ep written)"
    if "last (split_on CHR ''.'' (string_of_bytes (utf8_lossy name))) \<noteq> ''haven''" for accepted name
    using that by (simp add: socks5_once_def socks_domain_def Let_def)
  have "last (split_on CHR ''.'' (string_of_bytes (utf8_lossy [0x61, 0xE0, 0x80, 0x62]))) \<noteq> ''haven''" by code_simp
  then obtain w1 where w1: "socks5_once demo_crypto length (SimpleProxyTo ?ep) (Domain [0x61, 0xE0, 0x80, 0x62]) 80 = Inr (ToProxy ?ep w1)"
    using some[of "[0x61, 0xE0, 0x80, 0x62]" length] by blast
  have a1: "socks_addr (utf8_lossy [0x61, 0xE0, 0x80, 0x62]) 80 = [0x61, 0xEF, 0xBF, 0xBD, 0xEF, 0xBF, 0xBD, 0x62] @ bytes_of_string '':80''"
    by code_simp
  have "simple_proxy_read (w1 @ [1, 2]) = Some (socks_addr (utf8_lossy [0x61, 0xE0, 0x80, 0x62]) 80, [1, 2])"
    using proxied_request_arrives[OF _ w1, of "[1, 2]"] by (auto simp: socks_ok_def socks_domain_def be_bytes_def simp del: utf8_lossy.simps)
  then show "\<exists>written. socks5_once demo_crypto length (SimpleProxyTo ?ep) (Domain [0x61, 0xE0, 0x80, 0x62]) 80 = Inr (ToProxy ?ep written) \<and>
      simple_proxy_read (written @ [1, 2]) = Some ([0x61, 0xEF, 0xBF, 0xBD, 0xEF, 0xBF, 0xBD, 0x62] @ bytes_of_string '':80'', [1, 2])"
    using w1 unfolding a1 by blast
  have "last (split_on CHR ''.'' (string_of_bytes (utf8_lossy (bytes_of_string ''abc'')))) \<noteq> ''haven''" by code_simp
  note abc = some[OF this]
  have a2: "socks_addr (utf8_lossy (bytes_of_string ''abc'')) 80 = bytes_of_string ''abc:80''" by code_simp
  have l2: "length (bytes_of_string ''abc:80'') = 6" by (simp add: bytes_of_string_def)
  have ok: "socks_ok (Domain (bytes_of_string ''abc''))" by (simp add: socks_ok_def bytes_of_string_def)
  obtain w2 where w2: "socks5_once demo_crypto (\<lambda>b. 6) (SimpleProxyTo ?ep) (Domain (bytes_of_string ''abc'')) 80 = Inr (ToProxy ?ep w2)" using abc by blast
  have "simple_proxy_read (w2 @ bytes_of_string '':8080'') = Some (bytes_of_string ''abc:80'', bytes_of_string '':8080'')"
    using proxied_request_arrives[OF ok w2, of "bytes_of_string '':8080''"] a2 l2 by (auto simp: socks_domain_def simp del: utf8_lossy.simps)
  then show "\<exists>written. socks5_once demo_crypto (\<lambda>b. 6) (SimpleProxyTo ?ep) (Domain (bytes_of_string ''abc'')) 80 = Inr (ToProxy ?ep written) \<and>
      simple_proxy_read (written @ bytes_of_string '':8080'') = Some (bytes_of_string ''abc:80'', bytes_of_string '':8080'')" using w2 by blast
  obtain w3 where w3: "socks5_once demo_crypto (\<lambda>b. 5) (SimpleProxyTo ?ep) (Domain (bytes_of_string ''abc'')) 80 = Inr (ToProxy ?ep w3)" using abc by blast
  have "simple_proxy_read (w3 @ bytes_of_string ''GET'') =
      Some (utf8_lossy (take 5 (bytes_of_string ''abc:80'') @ take 1 (bytes_of_string ''GET'')), drop 1 (bytes_of_string ''GET''))"
    using proxied_request_arrives[OF ok w3, of "bytes_of_string ''GET''"] a2 l2 by (auto simp: socks_domain_def bytes_of_string_def simp del: utf8_lossy.simps)
  moreover have "utf8_lossy (take 5 (bytes_of_string ''abc:80'') @ take 1 (bytes_of_string ''GET'')) = bytes_of_string ''abc:8G''"
    "drop 1 (bytes_of_string ''GET'') = bytes_of_string ''ET''" by code_simp+
  ultimately show "\<exists>written. socks5_once demo_crypto (\<lambda>b. 5) (SimpleProxyTo ?ep) (Domain (bytes_of_string ''abc'')) 80 = Inr (ToProxy ?ep written) \<and>
      simple_proxy_read (written @ bytes_of_string ''GET'') = Some (bytes_of_string ''abc:8G'', bytes_of_string ''ET'')" using w3 by simp
qed

text \<open>
  A haven name in its absolute form, with a final dot, is not recognised: the daemon asks the
  ordinary network for it.
\<close>

lemma haven_with_final_dot_leaks:
  assumes "socks_domain host = Inr (bytes_of_string (name @ ''.haven.''))"
  shows "socks5_once C accepted PassThrough host port = Inr (ToInternet (socks_addr (bytes_of_string (name @ ''.haven.'')) port))"
proof -
  have id: "string_of_bytes (bytes_of_string s) = s" for s
  proof -
    have "char_of (unat (of_char c :: byte)) = c" for c
    proof -
      have "(of_char c :: byte) = of_nat (of_char c)" by (simp add: of_nat_of_char)
      then have "unat (of_char c :: byte) = take_bit 8 (of_char c)" by (simp add: unsigned_of_nat)
      then show ?thesis by (simp add: take_bit_eq_mod)
    qed
    then show ?thesis by (simp add: string_of_bytes_def bytes_of_string_def o_def)
  qed
  have "\<exists>ps. ps \<noteq> [] \<and> split_on CHR ''.'' (s @ ''.'') = ps @ [[]]" for s
  proof (induction s)
    case Nil show ?case by (intro exI[of _ "[[]]"]) simp
  next
    case (Cons c s)
    then obtain p ps where ps: "split_on CHR ''.'' (s @ ''.'') = (p # ps) @ [[]]" by (metis neq_Nil_conv)
    show ?case
    proof (cases "c = CHR ''.''")
      case True
      then show ?thesis using ps by (intro exI[of _ "[] # p # ps"]) simp
    next
      case False
      then show ?thesis using ps by (intro exI[of _ "(c # p) # ps"]) simp
    qed
  qed
  from this[of "name @ ''.haven''"] have "last (split_on CHR ''.'' (name @ ''.haven.'')) = []" by auto
  then show ?thesis using assms by (simp add: socks5_once_def id Let_def)
qed

section \<open>Datagrams return to their sender\<close>

datatype hu_op = HuUp bytes endpoint | HuDown nat bytes | HuExpire endpoint

fun hu_step :: "('r, 'z) haven_env_scheme \<Rightarrow> hu_op \<Rightarrow> 'r haven_udp \<Rightarrow> 'r haven_udp" where
  "hu_step E (HuUp m ep) h = snd (haven_udp_up (m, ep) h)"
| "hu_step E (HuDown u b) h = snd (haven_udp_down E (\<lambda>_. []) u b h)"
| "hu_step E (HuExpire ep) h = haven_udp_expire ep h"

definition hu_inv :: "'r haven_udp \<Rightarrow> bool" where
  "hu_inv h \<longleftrightarrow> (\<forall>ep u. hu_table h ep = Some u \<longleftrightarrow> hu_owner h u = Some ep) \<and> (\<forall>ep u. hu_table h ep = Some u \<longrightarrow> u < hu_next h)"

lemma hu_step_inv: "hu_inv h \<Longrightarrow> hu_inv (hu_step E a h)"
proof (cases a)
  case (HuUp m ep)
  assume inv: "hu_inv h"
  then have "hu_owner h (hu_next h) = None" by (cases "hu_owner h (hu_next h)") (auto simp: hu_inv_def)
  moreover have "hu_owner h u \<noteq> Some ep" if "hu_table h ep = None" for u using inv that unfolding hu_inv_def by (metis option.distinct(1))
  ultimately have "hu_inv (hu_step E (HuUp m ep) h)" if "hu_table h ep = None"
    using inv that by (auto simp: haven_udp_up_def hu_inv_def less_Suc_eq)
  then show ?thesis using inv HuUp by (cases "hu_table h ep") (simp_all add: haven_udp_up_def)
next
  case (HuDown u b)
  assume "hu_inv h"
  then show ?thesis using HuDown by (auto simp: haven_udp_down_def hu_inv_def Let_def split: option.splits prod.splits)
next
  case (HuExpire ep)
  assume inv: "hu_inv h"
  show ?thesis
  proof (cases "hu_table h ep")
    case (Some u)
    then have step: "hu_step E a h = h\<lparr>hu_table := (hu_table h)(ep := None), hu_owner := (hu_owner h)(u := None)\<rparr>"
      using HuExpire by (simp add: haven_udp_expire_def)
    have own: "hu_owner h w = Some ep \<longleftrightarrow> w = u" "hu_table h p = Some u \<longleftrightarrow> p = ep" for w p
      using inv Some unfolding hu_inv_def by (metis option.inject)+
    show ?thesis unfolding step using inv own by (auto simp: hu_inv_def)
  qed (use inv HuExpire in \<open>simp add: haven_udp_expire_def\<close>)
qed

interpretation hu_machine: stable_machine "hu_step E" hu_inv for E :: "('r, 'z) haven_env_scheme"
  by unfold_locales (rule hu_step_inv)

text \<open>A UDP socket serves the client it was made for until that client's entry expires, and no other ever.\<close>

lemma hu_owner_step:
  assumes inv: "hu_inv h" and u: "u < hu_next h"
  shows "u < hu_next (hu_step E a h)"
    "hu_owner (hu_step E a h) u = (case hu_owner h u of None \<Rightarrow> None | Some ep \<Rightarrow> if a = HuExpire ep then None else Some ep)"
proof -
  have own: "hu_owner h w = Some ep \<longleftrightarrow> hu_table h ep = Some w" for w ep using inv by (simp add: hu_inv_def)
  then have one: "hu_table h x = Some w \<Longrightarrow> hu_table h y = Some w \<Longrightarrow> x = y" for x y w by (metis option.inject)
  show "u < hu_next (hu_step E a h)"
    using u by (cases a) (auto simp: haven_udp_up_def haven_udp_down_def haven_udp_expire_def Let_def split: option.splits prod.splits)
  show "hu_owner (hu_step E a h) u = (case hu_owner h u of None \<Rightarrow> None | Some ep \<Rightarrow> if a = HuExpire ep then None else Some ep)"
    using u own by (cases a) (auto simp: haven_udp_up_def haven_udp_down_def haven_udp_expire_def Let_def dest: one split: option.splits prod.splits)
qed

lemma hu_owner_run:
  "hu_inv h \<Longrightarrow> u < hu_next h \<Longrightarrow>
    hu_owner (fold (hu_step E) ops h) u = (case hu_owner h u of None \<Rightarrow> None | Some ep \<Rightarrow> if HuExpire ep \<in> set ops then None else Some ep)"
proof (induction ops arbitrary: h)
  case (Cons a ops)
  then show ?case using hu_owner_step[of h u E a] hu_step_inv[of h E a] by (auto split: option.splits)
qed (simp split: option.splits)

text \<open>
  (C37) A UDP service of a haven answers who asked.  Whatever messages, answers and expiries came
  before, a client's message is sent upstream as it is, from a UDP socket of the client's own; and after whatever messages of
  this and other clients, answers and expiries come later, a datagram that arrives at that UDP
  socket is sent to that client, cut to its first 10000 bytes, unless the client's
  entry has expired in between, and then to nobody.
\<close>

theorem haven_udp_returns:
  assumes "h = fold (hu_step E) ops (haven_udp_new skt)" "haven_udp_up (message, src) h = ((u, up), h1)"
    and "h2 = fold (hu_step E) later h1"
  shows "up = message \<and> (\<forall>ep. hu_table h2 ep = Some u \<longrightarrow> ep = src) \<and>
    (if HuExpire src \<in> set later then haven_udp_down E show_err u datagram h2 = (None, h2)
     else \<exists>r h3. haven_udp_down E show_err u datagram h2 = (Some (r, src, take 10000 datagram), h3))"
proof -
  have "hu_inv (haven_udp_new skt)" by (simp add: hu_inv_def haven_udp_new_def)
  then have "hu_inv h" unfolding assms(1) by (rule hu_machine.run_inv)
  from hu_step_inv[OF this, of E "HuUp message src"] have inv: "hu_inv h1" using assms(2) by simp
  then have inv2: "hu_inv h2" unfolding assms(3) by (rule hu_machine.run_inv)
  have up: "up = message" "hu_table h1 src = Some u" using assms(2) by (auto simp: haven_udp_up_def split: option.splits)
  then have "hu_owner h1 u = Some src" "u < hu_next h1" using inv by (auto simp: hu_inv_def)
  then have own: "hu_owner h2 u = (if HuExpire src \<in> set later then None else Some src)"
    unfolding assms(3) using hu_owner_run[OF inv, of u E later] by simp
  have "ep = src" if "hu_table h2 ep = Some u" for ep
  proof -
    have "hu_owner h2 u = Some ep" using inv2 that by (simp add: hu_inv_def)
    then show ?thesis using own by (simp split: if_splits)
  qed
  then show ?thesis using up(1) own by (simp add: haven_udp_down_def Let_def split: prod.splits)
qed

theorem haven_udp_returns_witness:
  "\<exists>h1 r h3. haven_udp_up ([5], endpoint_new (demo_fp 3) 6)
       (fold (hu_step demo_henv) [HuUp [4] (endpoint_new (demo_fp 2) 6), HuDown 0 [1]] (haven_udp_new (N2r demo_socket))) = ((1, [5]), h1) \<and>
     haven_udp_down demo_henv (\<lambda>_. []) 1 [7]
       (fold (hu_step demo_henv) [HuUp [6] (endpoint_new (demo_fp 2) 6), HuExpire (endpoint_new (demo_fp 2) 6), HuDown 1 [2]] h1) =
     (Some (r, endpoint_new (demo_fp 3) 6, [7]), h3)"
proof -
  have ne: "endpoint_new (demo_fp 3) 6 \<noteq> endpoint_new (demo_fp 2) 6" by (simp add: demo_fp_bytes endpoint_new_def)
  let ?h = "fold (hu_step demo_henv) [HuUp [4] (endpoint_new (demo_fp 2) 6), HuDown 0 [1]] (haven_udp_new (N2r demo_socket))"
  let ?later = "[HuUp [6] (endpoint_new (demo_fp 2) 6), HuExpire (endpoint_new (demo_fp 2) 6), HuDown 1 [2]]"
  have "fst (haven_udp_up ([5], endpoint_new (demo_fp 3) 6) ?h) = (1, [5])"
    using ne by (simp add: haven_udp_up_def haven_udp_down_def haven_udp_new_def socket_send_to_def n2r_send_to_def Let_def)
  then obtain h1 where up: "haven_udp_up ([5], endpoint_new (demo_fp 3) 6) ?h = ((1, [5]), h1)" by (metis prod.collapse)
  have later: "HuExpire (endpoint_new (demo_fp 3) 6) \<notin> set ?later" using ne by simp
  have "take 10000 [7 :: byte] = [7]" by simp
  then obtain r h3 where "haven_udp_down demo_henv (\<lambda>_. []) 1 [7] (fold (hu_step demo_henv) ?later h1) = (Some (r, endpoint_new (demo_fp 3) 6, [7]), h3)"
    using haven_udp_returns[OF refl up refl, of ?later "\<lambda>_. []" "[7]"] later by (metis (no_types, lifting))
  then show ?thesis using up by blast
qed

section \<open>TCP forwards and the services of a haven\<close>

text \<open>\<open>tcp_forward_loop\<close>: a TCP connection becomes a stream over a haven socket of a fresh identity.\<close>

definition tcp_forward_accept ::
    "'z crypto_scheme \<Rightarrow> (nat \<Rightarrow> dock) \<Rightarrow> identity_secret \<Rightarrow> u16 \<Rightarrow> endpoint \<Rightarrow> 'l daemon \<Rightarrow> (('r, 't) stream_client \<times> 'l daemon) option" where
  "tcp_forward_accept C draw fresh_isk stream_id remote s =
     map_option (\<lambda>(h, s'). (connect_begin stream_id (Haven h) remote, s')) (haven_bind C draw fresh_isk None None s)"

text \<open>\<open>haven_loop\<close>: the socket of a configured haven, and the service that starts on it.\<close>

definition haven_serve ::
    "'z crypto_scheme \<Rightarrow> (nat \<Rightarrow> identity_secret) \<Rightarrow> (nat \<Rightarrow> dock) \<Rightarrow> haven_forward_config \<Rightarrow> dock \<Rightarrow> file_system \<Rightarrow> 'l daemon
       \<Rightarrow> ((config_error, 'r inner_socket) res \<times> file_system \<times> 'l daemon) option" where
  "haven_serve C gen draw haven_cfg listen_dock fs s =
     (case actualize C gen (hf_identity haven_cfg) fs of
        None \<Rightarrow> None
      | Some (Inl e, fs') \<Rightarrow> Some (Inl e, fs', s)
      | Some (Inr haven_id, fs') \<Rightarrow>
          map_option (\<lambda>(h, s'). (Inr (Haven h), fs', s'))
            (haven_bind C draw haven_id (Some listen_dock) (Some (hf_rendezvous haven_cfg)) s))"

datatype ('r, 't) haven_service =
  ServeUdp "'r haven_udp" string | ServeTcp "('r, 't) listener" string | ServeProxy "('r, 't) listener"

definition haven_loop ::
    "'z crypto_scheme \<Rightarrow> (nat \<Rightarrow> identity_secret) \<Rightarrow> (nat \<Rightarrow> dock) \<Rightarrow> haven_forward_config \<Rightarrow> file_system \<Rightarrow> 'l daemon
       \<Rightarrow> ((config_error, ('r, 't) haven_service) res \<times> file_system \<times> 'l daemon) option" where
  "haven_loop C gen draw haven_cfg fs s =
     (case hf_handler haven_cfg of
        UdpService listen_dock upstream \<Rightarrow>
          map_option (\<lambda>(r, x). (bind_res r (\<lambda>skt. Inr (ServeUdp (haven_udp_new skt) upstream)), x))
            (haven_serve C gen draw haven_cfg listen_dock fs s)
      | TcpService listen_dock upstream \<Rightarrow>
          map_option (\<lambda>(r, x). (bind_res r (\<lambda>skt. Inr (ServeTcp (listen skt) upstream)), x))
            (haven_serve C gen draw haven_cfg listen_dock fs s)
      | SimpleProxy listen_dock \<Rightarrow>
          map_option (\<lambda>(r, x). (bind_res r (\<lambda>skt. Inr (ServeProxy (listen skt))), x))
            (haven_serve C gen draw haven_cfg listen_dock fs s))"

definition service_socket :: "('r, 't) haven_service \<Rightarrow> 'r inner_socket" where
  "service_socket v = (case v of ServeUdp h _ \<Rightarrow> hu_socket h | ServeTcp l _ \<Rightarrow> ls_socket l | ServeProxy l \<Rightarrow> ls_socket l)"

lemma haven_loop_endpoint:
  assumes "haven_loop C gen draw cfg fs s = Some (Inr v, fs', s')"
  shows "\<exists>isk. actualize C gen (hf_identity cfg) fs = Some (Inr isk, fs') \<and>
    socket_local_endpoint (service_socket v) = endpoint_new (my_fingerprint C isk) (snd (describe_handler (hf_handler cfg)))"
  using assms
  by (cases "hf_handler cfg")
    (auto simp: haven_loop_def haven_serve_def haven_bind_def n2r_bind_def Let_def describe_handler_def service_socket_def
      socket_local_endpoint_def haven_local_endpoint_def n2r_local_endpoint_def haven_udp_new_def listen_def res_simps
      split: option.splits sum.splits)

text \<open>
  What \<open>havens_info\<close> tells is where the havens listen.  For a haven of the configuration whose
  service starts, the control command lists the textual form of exactly the endpoint the
  service's socket is bound to, provided the identity of the haven is the same at both
  times.
\<close>

lemma havens_info_tells_endpoint:
  assumes "haven_loop C gen draw cfg fs s = Some (Inr v, fs', s')"
    and same: "actualize C gen' (hf_identity cfg) fs1 = Some (Inr isk, fs2)" "actualize C gen (hf_identity cfg) fs = Some (Inr isk, fs')"
    and "handle_havens_info C gen' cfgs fs2 = Some (Inr rest, fs3)"
  shows "handle_havens_info C gen' (cfg # cfgs) fs1 =
    Some (Inr ((fst (describe_handler (hf_handler cfg)), endpoint_to_string C (socket_local_endpoint (service_socket v))) # rest), fs3)"
  using haven_loop_endpoint[OF assms(1)] assms(2-)
  by (auto simp: endpoint_to_string_def endpoint_new_def res_simps split: prod.splits)

text \<open>A local UDP address has a socket of its own: traffic of one does not touch another's.\<close>

lemma udp_forward_others:
  "udp_forward_up E show_err draw isk datagram src u s = Some (r, u', s') \<Longrightarrow> a \<noteq> src \<Longrightarrow> uf_table u' a = uf_table u a"
  by (auto simp: udp_forward_up_def Let_def split_beta split: option.splits)

section \<open>The loops that serve streams\<close>

text \<open>
  Turns of the loops of \<open>tcp_forward\<close> and \<open>simple_proxy\<close> in \<open>haven_util.rs\<close> and of \<open>tcp_forward_loop\<close>: \<open>accepted\<close> is the stream or
  connection accepted, nothing if \<open>accept\<close> fails, and \<open>copying\<close> are the streams whose bytes are being copied.  The
  copying tasks belong to the loop and are dropped when it returns.  In the first and the last the
  other side is connected by the loop itself, in the proxy by the task of the stream.
\<close>

datatype serve_error = ListenerFailed | ConnectRefused

definition tcp_service_turn :: "'t option \<Rightarrow> bool \<Rightarrow> 't list \<Rightarrow> (serve_error + unit) \<times> 't list" where
  "tcp_service_turn accepted reached copying = (case accepted of
     None \<Rightarrow> (Inl ListenerFailed, [])
   | Some st \<Rightarrow> if reached then (Inr (), copying @ [st]) else (Inl ConnectRefused, []))"

definition tcp_forward_turn :: "'t option \<Rightarrow> 's option \<Rightarrow> ('t \<times> 's) list \<Rightarrow> (serve_error + unit) \<times> ('t \<times> 's) list" where
  "tcp_forward_turn accepted stream copying = (case accepted of
     None \<Rightarrow> (Inl ListenerFailed, [])
   | Some tcp \<Rightarrow> (case stream of None \<Rightarrow> (Inl ConnectRefused, []) | Some st \<Rightarrow> (Inr (), copying @ [(tcp, st)])))"

definition simple_proxy_turn :: "'t option \<Rightarrow> 't list \<Rightarrow> (serve_error + unit) \<times> 't list" where
  "simple_proxy_turn accepted copying = (case accepted of
     None \<Rightarrow> (Inl ListenerFailed, []) | Some st \<Rightarrow> (Inr (), copying @ [st]))"

text \<open>The task of a proxied stream: what it connects to and the bytes it begins to copy, or nothing if it ends with an error.\<close>

definition simple_proxy_task :: "(bytes \<Rightarrow> bool) \<Rightarrow> bytes \<Rightarrow> (bytes \<times> bytes) option" where
  "simple_proxy_task connects received = (case simple_proxy_read received of
     None \<Rightarrow> None | Some (addr, rest) \<Rightarrow> if connects addr then Some (addr, rest) else None)"

text \<open>
  One client whose connection is refused upstream costs all clients of a TCP service theirs; a proxy
  goes on with the others.
\<close>

lemma refusal_drops_all:
  "fold (\<lambda>st copying. snd (tcp_service_turn (Some st) True copying)) sts [] = sts"
  "tcp_service_turn (Some st) False sts = (Inl ConnectRefused, [])"
  "simple_proxy_task (\<lambda>_. False) received = None" "simple_proxy_turn (Some st) sts = (Inr (), sts @ [st])"
proof -
  have "fold (\<lambda>st copying. snd (tcp_service_turn (Some st) True copying)) sts xs = xs @ sts" for xs
    by (induction sts arbitrary: xs) (simp_all add: tcp_service_turn_def)
  from this[of "[]"] show "fold (\<lambda>st copying. snd (tcp_service_turn (Some st) True copying)) sts [] = sts" by simp
qed (auto simp: tcp_service_turn_def simple_proxy_task_def simple_proxy_turn_def split: option.splits)

end
