(* ===== verification/Startup.thy ===== *)
theory Startup
  imports Graph_Dump Forwarding
begin

text \<open>
  The start of a daemon and what keeps it running: the configuration of \<open>src/config.rs\<close>, the initial
  values of the context in \<open>src/daemon/context.rs\<close>, and \<open>Daemon::init\<close> and \<open>main_daemon\<close> of \<open>src/daemon.rs\<close>, which
  spawn the loops and wait for the tasks of the routes.  Socket addresses other than the port of
  an in-route are texts.
\<close>

section \<open>Configuration\<close>

record out_route_config =
  or_fingerprint :: fingerprint
  or_connect :: string
  or_cookie :: bytes

record forward_config =
  fwd_listen :: string
  fwd_remote :: endpoint

record socks5_config =
  s5_listen :: string
  s5_fallback :: fallback

record config_file =
  cfg_identity :: "identity_cfg option"
  control_listen :: string
  in_routes :: "(string \<times> in_route_config) list"
  out_routes :: "(string \<times> out_route_config) list"
  udp_forwards :: "forward_config list"
  tcp_forwards :: "forward_config list"
  socks5 :: "socks5_config option"
  havens :: "haven_forward_config list"

definition default_control_listen :: string where
  "default_control_listen = ''127.0.0.1:18964''"

section \<open>The context\<close>

text \<open>\<open>GLOBAL_IDENTITY\<close>; \<open>gen n\<close> are the generated identities, and an identity that cannot be initialised is a panic.\<close>

definition global_identity_init ::
    "'z crypto_scheme \<Rightarrow> (nat \<Rightarrow> identity_secret) \<Rightarrow> config_file \<Rightarrow> file_system
       \<Rightarrow> ((unit, identity_secret) res \<times> file_system) option" where
  "global_identity_init C gen cfg fs = (case cfg_identity cfg of
     None \<Rightarrow> Some (Inr (gen 0), fs)
   | Some i \<Rightarrow> map_option (\<lambda>(r, fs'). (case r of Inl _ \<Rightarrow> Inl Panic | Inr isk \<Rightarrow> Inr isk, fs')) (actualize C gen i fs))"

definition daemon_new :: "('l, 'z) daemon_env_scheme \<Rightarrow> identity_secret \<Rightarrow> 'l daemon" where
  "daemon_new E isk = \<lparr>global_identity = isk, global_onion_sk = rand_osk E 0, graph = relay_graph_new,
     anon_dests = rb_store_new (lru E), neigh = neigh_table_new, links = Map.empty, socket_recv_queues = Map.empty,
     degarblers = Map.empty, balance_table = Map.empty, onion_sk_cache = Map.empty, rng = 1\<rparr>"

section \<open>Tasks\<close>

datatype daemon_task =
    TableGc | PeelForwardLoop | GossipLoop | ControlProtocolLoop | GlobalRpcLoop | RendezvousForwardLoop
  | HavenLoop haven_forward_config | UdpForwardLoop forward_config | TcpForwardLoop forward_config
  | Socks5Loop socks5_config
  | InRoute string in_route_config | OutRoute string out_route_config

definition background_tasks :: "nat \<Rightarrow> config_file \<Rightarrow> daemon_task list" where
  "background_tasks parallelism cfg =
     TableGc # replicate parallelism PeelForwardLoop @
     [GossipLoop, ControlProtocolLoop, GlobalRpcLoop, RendezvousForwardLoop] @
     map HavenLoop (havens cfg) @ map UdpForwardLoop (udp_forwards cfg) @ map TcpForwardLoop (tcp_forwards cfg) @
     (case socks5 cfg of None \<Rightarrow> [] | Some c \<Rightarrow> [Socks5Loop c])"

definition route_tasks :: "config_file \<Rightarrow> daemon_task list" where
  "route_tasks cfg = map (\<lambda>(name, c). InRoute name c) (in_routes cfg) @ map (\<lambda>(name, c). OutRoute name c) (out_routes cfg)"

text \<open>
  The task of an in-route.  An element of the list is what \<open>accept\<close> returns: nothing for an error,
  otherwise what comes of the link made with the accepted pipe.  The result is nothing as long as
  the task runs.
\<close>

datatype route_failure = ListenFailed | AcceptFailed

primrec in_route_loop ::
    "('l, 'z) daemon_env_scheme \<Rightarrow> (instant \<times> conn \<times> auth_response option \<times> bytes option) option list \<Rightarrow> 'l daemon
       \<Rightarrow> (route_failure + unit) option \<times> 'l daemon" where
  "in_route_loop E [] s = (None, s)"
| "in_route_loop E (a # accepts) s = (case a of
     None \<Rightarrow> (Some (Inl AcceptFailed), s)
   | Some (now, c, resp, pk) \<Rightarrow> in_route_loop E accepts (after (in_route_accept E now c resp pk) s))"

definition in_route_obfsudp ::
    "('l, 'z) daemon_env_scheme \<Rightarrow> bool \<Rightarrow> (instant \<times> conn \<times> auth_response option \<times> bytes option) option list \<Rightarrow> 'l daemon
       \<Rightarrow> (route_failure + unit) option \<times> 'l daemon" where
  "in_route_obfsudp E bound accepts s = (if bound then in_route_loop E accepts s else (Some (Inl ListenFailed), s))"

text \<open>The loop of an out-route never returns: every failure is logged and the loop goes on.\<close>

primrec out_route_obfsudp ::
    "('l, 'z) daemon_env_scheme \<Rightarrow> fingerprint \<Rightarrow> (instant \<times> conn \<times> bool \<times> bool \<times> auth_response option \<times> bytes option) list \<Rightarrow> 'l daemon
       \<Rightarrow> (route_failure + unit) option \<times> 'l daemon" where
  "out_route_obfsudp E fp [] s = (None, s)"
| "out_route_obfsudp E fp (a # attempts) s = (case a of (now, c, in_time, pipe, resp, pk) \<Rightarrow>
     out_route_obfsudp E fp attempts (after (out_route_turn E now fp c in_time pipe resp pk) s))"

section \<open>Supervision\<close>

text \<open>
  \<open>main_daemon\<close> first asks for the identity, which may panic or, with a file that can be written and not read, never
  return; then it spawns the background tasks, whose handles it holds, and waits for the route tasks.  When it
  returns, with or without an error, \<open>Daemon::init\<close> panics in its task.  The profiles of \<open>Cargo.toml\<close> set \<open>panic = 'abort'\<close>: a
  panic of any task, this one or another, ends the process.
\<close>

record supervisor =
  background :: "daemon_task list"
  waiting_for :: "daemon_task list"
  aborted :: bool

definition process_over :: supervisor where
  "process_over = \<lparr>background = [], waiting_for = [], aborted = True\<rparr>"

text \<open>\<open>None\<close> means that the initialisation of the identity does not return.\<close>

definition main_daemon ::
    "'z crypto_scheme \<Rightarrow> (nat \<Rightarrow> identity_secret) \<Rightarrow> nat \<Rightarrow> config_file \<Rightarrow> file_system \<Rightarrow> supervisor option" where
  "main_daemon C gen parallelism cfg fs =
     (case global_identity_init C gen cfg fs of
        None \<Rightarrow> None
      | Some (Inl _, _) \<Rightarrow> Some process_over
      | Some (Inr _, _) \<Rightarrow> Some
          (if route_tasks cfg = [] then process_over
           else \<lparr>background = background_tasks parallelism cfg, waiting_for = route_tasks cfg, aborted = False\<rparr>))"

text \<open>
  A task returns: a background task is respawned at once, a route task is reported to \<open>main_daemon\<close>.  Or
  some task of the process panics.
\<close>

datatype task_end = TaskReturned daemon_task "route_failure + unit" | SomeTaskPanicked

definition task_ends :: "task_end \<Rightarrow> supervisor \<Rightarrow> supervisor" where
  "task_ends x sv = (case x of
     SomeTaskPanicked \<Rightarrow> process_over
   | TaskReturned t r \<Rightarrow>
       if t \<in> set (waiting_for sv)
       then (case r of
               Inl _ \<Rightarrow> process_over
             | Inr _ \<Rightarrow> if remove1 t (waiting_for sv) = [] then process_over
                        else sv\<lparr>waiting_for := remove1 t (waiting_for sv)\<rparr>)
       else sv)"

section \<open>Properties\<close>

text \<open>A daemon starts consistent, whatever its identity, and without neighbours.\<close>

lemma daemon_new_inv:
  assumes "daemon_laws E ok"
  shows "daemon_inv E ok (daemon_new E isk)"
proof -
  note L = daemon_lawsD(4)[OF assms]
  have "rb_stack (lru E) (rb_store_new (lru E)) fp = []" for fp
    using L by (simp add: lru_laws_def rb_stack_def rb_store_new_def)
  then show ?thesis
    using relay_graph_new_inv[of E] rb_store_new_inv[OF L]
    by (simp add: daemon_inv_def daemon_new_def neigh_table_new_def wf_queue_def)
qed

text \<open>The task of an in-route ends only with an error, the task of an out-route never.\<close>

lemma in_route_only_fails: "fst (in_route_obfsudp E bound accepts s) \<noteq> Some (Inr ())"
proof -
  have "fst (in_route_loop E accepts s) \<noteq> Some (Inr ())"
    by (induction accepts arbitrary: s) (auto split: option.splits)
  then show ?thesis by (simp add: in_route_obfsudp_def)
qed

lemma out_route_never_ends: "fst (out_route_obfsudp E fp attempts s) = None"
  by (induction attempts arbitrary: s) (auto split: prod.splits)

text \<open>
  The ways in which a task can end.  The collector of the neighbour table, which would not be respawned, loops
  forever; nothing is said of when the other background tasks return, and of which tasks panic.
\<close>

definition may_end :: "('l, 'z) daemon_env_scheme \<Rightarrow> task_end \<Rightarrow> bool" where
  "may_end E x \<longleftrightarrow> (case x of
     SomeTaskPanicked \<Rightarrow> True
   | TaskReturned (InRoute name c) r \<Rightarrow> \<exists>bound accepts s. fst (in_route_obfsudp E bound accepts s) = Some r
   | TaskReturned (OutRoute name c) r \<Rightarrow> \<exists>attempts s. fst (out_route_obfsudp E (or_fingerprint c) attempts s) = Some r
   | TaskReturned TableGc r \<Rightarrow> False
   | TaskReturned _ r \<Rightarrow> True)"

definition fatal_end :: "config_file \<Rightarrow> task_end \<Rightarrow> bool" where
  "fatal_end cfg x \<longleftrightarrow> x = SomeTaskPanicked \<or> (\<exists>name c r. x = TaskReturned (InRoute name c) r \<and> (name, c) \<in> set (in_routes cfg))"

lemma task_ends_over [simp]: "task_ends x process_over = process_over"
  by (cases x) (simp_all add: task_ends_def process_over_def)

lemma task_ends_running:
  assumes "may_end E x" "sv = \<lparr>background = b, waiting_for = route_tasks cfg, aborted = False\<rparr>"
  shows "task_ends x sv = (if fatal_end cfg x then process_over else sv)"
proof (cases x)
  case (TaskReturned t r)
  have "\<exists>e. r = Inl e" if "t = InRoute name c" for name c
    using assms(1) that in_route_only_fails TaskReturned by (cases r) (auto simp: may_end_def)
  moreover have False if "t = OutRoute name c" for name c
    using assms(1) that TaskReturned by (auto simp: may_end_def out_route_never_ends)
  ultimately show ?thesis using assms(2) TaskReturned by (auto simp: task_ends_def fatal_end_def route_tasks_def)
qed (simp add: task_ends_def fatal_end_def)

text \<open>
  (C39) What keeps a daemon running.  Once the initialisation of the identity has returned, and however the tasks of
  a daemon return, are respawned and panic, the process is over exactly if the identity could not be
  initialised, or no route is configured at all, or the listener of a configured in-route has
  failed, or some task has panicked; otherwise all background tasks run, each as often as configured, and
  all routes are served.
\<close>

theorem main_daemon_supervises:
  assumes identity: "global_identity_init C gen cfg fs = Some (isk, fs')" and ends: "\<forall>x \<in> set ends. may_end E x"
  shows "map_option (fold task_ends ends) (main_daemon C gen parallelism cfg fs) = Some
    (if (\<exists>e. isk = Inl e) \<or> in_routes cfg = [] \<and> out_routes cfg = [] \<or>
        (\<exists>(name, c) \<in> set (in_routes cfg). \<exists>r. TaskReturned (InRoute name c) r \<in> set ends) \<or> SomeTaskPanicked \<in> set ends
     then \<lparr>background = [], waiting_for = [], aborted = True\<rparr>
     else \<lparr>background = background_tasks parallelism cfg, waiting_for = route_tasks cfg, aborted = False\<rparr>)"
proof -
  let ?sv = "\<lparr>background = background_tasks parallelism cfg, waiting_for = route_tasks cfg, aborted = False\<rparr>"
  have over: "fold task_ends xs process_over = process_over" for xs by (induction xs) auto
  have run: "fold task_ends xs ?sv = (if \<exists>x \<in> set xs. fatal_end cfg x then process_over else ?sv)" if "\<forall>x \<in> set xs. may_end E x" for xs
    using that by (induction xs) (auto simp: over task_ends_running)
  have fatal: "(\<exists>x \<in> set ends. fatal_end cfg x) \<longleftrightarrow>
      (\<exists>(name, c) \<in> set (in_routes cfg). \<exists>r. TaskReturned (InRoute name c) r \<in> set ends) \<or> SomeTaskPanicked \<in> set ends"
    unfolding fatal_end_def by blast
  show ?thesis
    using run[OF ends] over[of ends] identity unfolding fatal
    by (cases isk) (auto simp: main_daemon_def process_over_def route_tasks_def)
qed

definition demo_config :: config_file where
  "demo_config = \<lparr>cfg_identity = None, control_listen = default_control_listen,
     in_routes = [(''main'', \<lparr>ir_listen_ip = ''0.0.0.0'', ir_listen_port = 19999, ir_secret = ''s''\<rparr>)],
     out_routes = [(''peer'', \<lparr>or_fingerprint = demo_fp 2, or_connect = ''10.0.0.2:19999'', or_cookie = [1]\<rparr>)],
     udp_forwards = [], tcp_forwards = [], socks5 = Some \<lparr>s5_listen = ''127.0.0.1:23456'', s5_fallback = Block\<rparr>, havens = []\<rparr>"

definition demo_fs :: file_system where
  "demo_fs = \<lparr>files = Map.empty, creatable = (\<lambda>_. True)\<rparr>"

theorem main_daemon_supervises_witness:
  "map_option (fold task_ends [TaskReturned GossipLoop (Inr ()),
       TaskReturned (Socks5Loop \<lparr>s5_listen = ''127.0.0.1:23456'', s5_fallback = Block\<rparr>) (Inl ListenFailed)])
     (main_daemon demo_denv demo_isk 2 demo_config demo_fs) =
   Some \<lparr>background = [TableGc, PeelForwardLoop, PeelForwardLoop, GossipLoop, ControlProtocolLoop, GlobalRpcLoop, RendezvousForwardLoop,
     Socks5Loop \<lparr>s5_listen = ''127.0.0.1:23456'', s5_fallback = Block\<rparr>], waiting_for = route_tasks demo_config, aborted = False\<rparr>"
proof -
  let ?ends = "[TaskReturned GossipLoop (Inr ()),
       TaskReturned (Socks5Loop \<lparr>s5_listen = ''127.0.0.1:23456'', s5_fallback = Block\<rparr>) (Inl ListenFailed)]"
  have identity: "global_identity_init demo_denv demo_isk demo_config demo_fs = Some (Inr (demo_isk 0), demo_fs)"
    by (simp add: global_identity_init_def demo_config_def)
  have tasks: "background_tasks 2 demo_config = [TableGc, PeelForwardLoop, PeelForwardLoop, GossipLoop, ControlProtocolLoop, GlobalRpcLoop,
      RendezvousForwardLoop, Socks5Loop \<lparr>s5_listen = ''127.0.0.1:23456'', s5_fallback = Block\<rparr>]" "in_routes demo_config \<noteq> []"
    by (simp_all add: demo_config_def background_tasks_def numeral_2_eq_2)
  have "\<forall>x \<in> set ?ends. may_end demo_denv x" by (simp add: may_end_def)
  from main_daemon_supervises[OF identity this, of 2] show ?thesis using tasks(2) unfolding tasks(1) by simp
qed

text \<open>The configuration file without routes is accepted; a daemon started with it stops at once.\<close>

lemma no_routes_no_daemon:
  "in_routes cfg = [] \<Longrightarrow> out_routes cfg = [] \<Longrightarrow> main_daemon C gen parallelism cfg fs \<in> {None, Some process_over}"
  by (auto simp: main_daemon_def route_tasks_def split: option.splits sum.splits)

end
