(* ===== verification/Command_Line.thy ===== *)
theory Command_Line
  imports Startup Global_Rpc
begin

text \<open>
  The command-line client: the commands of \<open>src/commands.rs\<close> and \<open>main_control\<close> of \<open>src/control_protocol.rs\<close>.  The
  trait \<open>ControlProtocol\<close> is the record \<open>control_client\<close>, one field per method; a call may fail in transport,
  which is an error of the procedure.  \<open>local_client\<close> is the client of a daemon that runs the handlers of
  \<open>src/daemon/control_protocol_impl.rs\<close>.  A command yields the lines it prints on standard output.  JSON,
  YAML and the debug formats are third-party code, the fields of \<open>cli_env\<close>.
\<close>

section \<open>Commands\<close>

datatype control_command =
    BindN2r string "string option" "dock option"
  | BindHaven string "string option" "dock option" "fingerprint option"
  | SktInfo string
  | HavensInfo
  | SendMsg string endpoint string
  | RecvMsg string
  | GlobalRpc "string option" fingerprint string "string list"
  | InsertRendezvous string string fingerprint
  | GetRendezvous fingerprint
  | RendezvousHavenTest
  | GraphDump bool
  | MyRoutes

datatype cli_error =
    TransportFailed | ControlFailed control_err | ArgumentsNotYaml | GlobalRpcFailed global_rpc_error
  | BadKey decode_key_error | DhtFailed dht_error | YamlFailed

record ('w, 'j) control_client =
  cl_bind_n2r :: "string \<Rightarrow> string option \<Rightarrow> dock option \<Rightarrow> ('w, cli_error, unit) proc"
  cl_bind_haven :: "string \<Rightarrow> string option \<Rightarrow> dock option \<Rightarrow> fingerprint option \<Rightarrow> ('w, cli_error, unit) proc"
  cl_skt_info :: "string \<Rightarrow> ('w, cli_error, control_err + endpoint) proc"
  cl_havens_info :: "('w, cli_error, (string \<times> string) list) proc"
  cl_send_message :: "string \<Rightarrow> endpoint \<Rightarrow> bytes \<Rightarrow> ('w, cli_error, control_err + unit) proc"
  cl_recv_message :: "string \<Rightarrow> ('w, cli_error, control_err + bytes \<times> endpoint) proc"
  cl_send_global_rpc :: "string option \<Rightarrow> fingerprint \<Rightarrow> string \<Rightarrow> 'j list \<Rightarrow> ('w, cli_error, global_rpc_error + 'j) proc"
  cl_graph_dump :: "bool \<Rightarrow> ('w, cli_error, string) proc"
  cl_my_routes :: "('w, cli_error, 'j) proc"
  cl_insert_rendezvous :: "haven_locator \<Rightarrow> ('w, cli_error, dht_error + unit) proc"
  cl_get_rendezvous :: "fingerprint \<Rightarrow> ('w, cli_error, dht_error + haven_locator option) proc"

record 'j cli_env =
  yaml_value :: "string \<Rightarrow> 'j option"
  json_text :: "'j \<Rightarrow> string"
  yaml_text :: "'j \<Rightarrow> string option"
  show_bytes :: "bytes \<Rightarrow> string"
  show_control_err :: "control_err \<Rightarrow> string"
  show_locator :: "haven_locator \<Rightarrow> string"

section \<open>Running a command\<close>

text \<open>\<open>call.await??\<close>: first the error of the transport, then that of the method.\<close>

definition flat :: "('e \<Rightarrow> cli_error) \<Rightarrow> ('w, cli_error, 'e + 'a) proc \<Rightarrow> ('w, cli_error, 'a) proc" where
  "flat h m = bind_proc m (\<lambda>r. case r of Inl e \<Rightarrow> raise (h e) | Inr x \<Rightarrow> ret x)"

primrec yaml_args :: "'j cli_env \<Rightarrow> string list \<Rightarrow> 'j list option" where
  "yaml_args V [] = Some []"
| "yaml_args V (a # args) = (case yaml_value V a of
     None \<Rightarrow> None
   | Some v \<Rightarrow> map_option ((#) v) (yaml_args V args))"

definition send_global_rpc_command ::
    "'j cli_env \<Rightarrow> ('w, 'j) control_client \<Rightarrow> string option \<Rightarrow> fingerprint \<Rightarrow> string \<Rightarrow> string list \<Rightarrow> ('w, cli_error, string list) proc" where
  "send_global_rpc_command V cl i dest method args = (case yaml_args V args of
     None \<Rightarrow> raise ArgumentsNotYaml
   | Some js \<Rightarrow> bind_proc (flat GlobalRpcFailed (cl_send_global_rpc cl i dest method js)) (\<lambda>res. ret [json_text V res]))"

definition insert_rendezvous_command ::
    "'z dht_env_scheme \<Rightarrow> ('w, 'j) control_client \<Rightarrow> string \<Rightarrow> string \<Rightarrow> fingerprint \<Rightarrow> ('w, cli_error, string list) proc" where
  "insert_rendezvous_command H cl isk_text opk_text rdv =
     (case identity_secret_from_str H isk_text of
        Inl e \<Rightarrow> raise (BadKey e)
      | Inr isk \<Rightarrow>
          (case onion_public_from_str H opk_text of
             Inl e \<Rightarrow> raise (BadKey e)
           | Inr opk \<Rightarrow> bind_proc (flat DhtFailed (cl_insert_rendezvous cl (locator_new H isk opk rdv))) (\<lambda>_. ret [])))"

text \<open>The random values of the test are arguments; a failed assertion is a panic.\<close>

definition rendezvous_haven_test ::
    "'z dht_env_scheme \<Rightarrow> ('w, 'j) control_client \<Rightarrow> bytes \<Rightarrow> identity_secret \<Rightarrow> onion_secret \<Rightarrow> ('w, cli_error, string list) proc" where
  "rendezvous_haven_test H cl fingerprint_bytes id_sk osk =
     (let locator = locator_new H id_sk (onion_public_of H osk) (Fingerprint fingerprint_bytes)
      in bind_proc (flat DhtFailed (cl_insert_rendezvous cl locator)) (\<lambda>_.
         bind_proc (flat DhtFailed (cl_get_rendezvous cl (my_fingerprint H id_sk))) (\<lambda>fetched.
         case fetched of
           None \<Rightarrow> ret []
         | Some fetched_locator \<Rightarrow>
             if rendezvous_point locator = rendezvous_point fetched_locator then ret [] else lift_res (\<lambda>_. Inl Panic))))"

fun main_control ::
    "'z dht_env_scheme \<Rightarrow> 'j cli_env \<Rightarrow> ('w, 'j) control_client \<Rightarrow> bytes \<times> identity_secret \<times> onion_secret \<Rightarrow> control_command
       \<Rightarrow> ('w, cli_error, string list) proc" where
  "main_control H V cl rnd (BindN2r skt_id anon_id dk) = bind_proc (cl_bind_n2r cl skt_id anon_id dk) (\<lambda>_. ret [])"
| "main_control H V cl rnd (BindHaven skt_id anon_id dk rendezvous) =
     bind_proc (cl_bind_haven cl skt_id anon_id dk rendezvous) (\<lambda>_. ret [])"
| "main_control H V cl rnd (SktInfo skt_id) =
     bind_proc (flat ControlFailed (cl_skt_info cl skt_id)) (\<lambda>skt_info. ret [endpoint_to_string H skt_info])"
| "main_control H V cl rnd (SendMsg skt_id dest msg) =
     bind_proc (flat ControlFailed (cl_send_message cl skt_id dest (bytes_of_string msg))) (\<lambda>_. ret [])"
| "main_control H V cl rnd (RecvMsg skt_id) =
     bind_proc (cl_recv_message cl skt_id) (\<lambda>r. case r of
       Inr (msg, src) \<Rightarrow> ret [show_bytes V msg @ '' from '' @ endpoint_to_string H src]
     | Inl e \<Rightarrow> ret [''error receiving message: '' @ show_control_err V e])"
| "main_control H V cl rnd (GlobalRpc i dest method args) = send_global_rpc_command V cl i dest method args"
| "main_control H V cl rnd (InsertRendezvous isk_text opk_text rdv) = insert_rendezvous_command H cl isk_text opk_text rdv"
| "main_control H V cl rnd (GetRendezvous key) =
     bind_proc (flat DhtFailed (cl_get_rendezvous cl key)) (\<lambda>locator. case locator of
       Some l \<Rightarrow> ret [show_locator V l]
     | None \<Rightarrow> ret [''No haven locator found for fingerprint '' @ fingerprint_to_string H key])"
| "main_control H V cl (fp_bts, isk, osk) RendezvousHavenTest = rendezvous_haven_test H cl fp_bts isk osk"
| "main_control H V cl rnd (GraphDump human) = bind_proc (cl_graph_dump cl human) (\<lambda>res. ret [res])"
| "main_control H V cl rnd MyRoutes =
     bind_proc (cl_my_routes cl) (\<lambda>routes. case yaml_text V routes of None \<Rightarrow> raise YamlFailed | Some t \<Rightarrow> ret [t])"
| "main_control H V cl rnd HavensInfo =
     bind_proc (cl_havens_info cl) (\<lambda>infos. ret (map (\<lambda>(name, info). name @ '' - '' @ info) infos))"

section \<open>The client of a running daemon\<close>

text \<open>The state behind the control protocol: the sockets, the daemon, its files, the servers of the hash table and the cache of lookups.\<close>

record ('l, 'r) control_world =
  w_control :: "'r control"
  w_daemon :: "'l daemon"
  w_files :: file_system
  w_net :: network
  w_cache :: "fingerprint \<rightharpoonup> haven_locator"

text \<open>What the handlers take from outside: random docks and identities, the network, orders of iteration, third-party formats.\<close>

record 'j control_inputs =
  in_draw :: "nat \<Rightarrow> dock"
  in_gen :: "nat \<Rightarrow> identity_secret"
  in_session_err :: "session_error \<Rightarrow> string"
  in_timely :: bool
  in_arrival :: "fingerprint list \<Rightarrow> fingerprint list"
  in_order :: "fingerprint list"
  in_cookie :: "bytes \<Rightarrow> string"
  in_config :: config_file
  in_call :: "fingerprint \<Rightarrow> string \<Rightarrow> 'j list \<Rightarrow> call_error + (unit + 'j) option"
  in_routes_value :: "(string \<times> route_info) list \<Rightarrow> 'j"

text \<open>A handler that panics is seen by the client as a failed call.\<close>

definition answer_of :: "(unit, 'a) res \<Rightarrow> (cli_error, 'a) res" where
  "answer_of r = (case r of Inl _ \<Rightarrow> Inl (Err TransportFailed) | Inr x \<Rightarrow> Inr x)"

definition local_client ::
    "('l, 'y) daemon_env_scheme \<Rightarrow> ('r, 'z) haven_env_scheme \<Rightarrow> 'j control_inputs \<Rightarrow> (('l, 'r) control_world, 'j) control_client" where
  "local_client E H I = \<lparr>
     cl_bind_n2r = (\<lambda>i anon dk w. map_option (\<lambda>(c, s). (Inr (), w\<lparr>w_control := c, w_daemon := s\<rparr>))
       (handle_bind_n2r E (in_draw I) i anon dk (w_control w) (w_daemon w))),
     cl_bind_haven = (\<lambda>i anon dk rdv w. map_option (\<lambda>(c, s). (Inr (), w\<lparr>w_control := c, w_daemon := s\<rparr>))
       (handle_bind_haven E (in_draw I) i anon dk rdv (w_control w) (w_daemon w))),
     cl_skt_info = (\<lambda>i. gets (\<lambda>w. handle_skt_info i (w_control w))),
     cl_havens_info = (\<lambda>w. map_option (\<lambda>(r, fs). (answer_of r, w\<lparr>w_files := fs\<rparr>))
       (handle_havens_info E (in_gen I) (havens (in_config I)) (w_files w))),
     cl_send_message = (\<lambda>i dest b w.
       let (r, c) = handle_send_message H (in_session_err I) i dest b (w_control w) in Some (Inr r, w\<lparr>w_control := c\<rparr>)),
     cl_recv_message = (\<lambda>i w. map_option (\<lambda>(r, c, s). (Inr r, w\<lparr>w_control := c, w_daemon := s\<rparr>))
       (handle_recv_message i (w_control w) (w_daemon w))),
     cl_send_global_rpc = (\<lambda>i dest method args. ret (handle_send_global_rpc (in_call I dest method args))),
     cl_graph_dump = (\<lambda>human. lift_res (\<lambda>w. answer_of (graph_dump E (in_order I) (in_routes (in_config I)) human (w_daemon w)))),
     cl_my_routes = gets (\<lambda>w. in_routes_value I (my_routes E (in_cookie I) (in_routes (in_config I)) (w_daemon w))),
     cl_insert_rendezvous = (\<lambda>l w.
       let (r, net) = handle_insert_rendezvous H (graph (w_daemon w)) l (w_net w) in Some (Inr r, w\<lparr>w_net := net\<rparr>)),
     cl_get_rendezvous = (\<lambda>fp w.
       let g = graph (w_daemon w);
           (r, cache) = handle_get_rendezvous H (in_timely I) g (in_arrival I) (ask_network H g (w_net w) fp) fp (w_cache w)
       in Some (Inr r, w\<lparr>w_cache := cache\<rparr>))\<rparr>"

section \<open>Properties\<close>

text \<open>Bad input is refused before anything is asked of the daemon, whatever client is used.\<close>

lemma yaml_args_None: "yaml_args V args = None \<longleftrightarrow> (\<exists>a \<in> set args. yaml_value V a = None)"
  by (induction args) (auto split: option.splits)

lemma bad_input_refused:
  "a \<in> set args \<Longrightarrow> yaml_value V a = None \<Longrightarrow> main_control H V cl rnd (GlobalRpc i dest method args) w = Some (Inl (Err ArgumentsNotYaml), w)"
  "identity_secret_from_str H isk_text = Inl e \<Longrightarrow>
     main_control H V cl rnd (InsertRendezvous isk_text opk_text rdv) w = Some (Inl (Err (BadKey e)), w)"
  "identity_secret_from_str H isk_text = Inr isk \<Longrightarrow> onion_public_from_str H opk_text = Inl e \<Longrightarrow>
     main_control H V cl rnd (InsertRendezvous isk_text opk_text rdv) w = Some (Inl (Err (BadKey e)), w)"
  using yaml_args_None[of V args]
  by (auto simp: send_global_rpc_command_def insert_rendezvous_command_def raise_def)

lemma local_client_sel:
  "cl_bind_n2r (local_client E H I) i anon dk w = map_option (\<lambda>(c, s). (Inr (), w\<lparr>w_control := c, w_daemon := s\<rparr>))
     (handle_bind_n2r E (in_draw I) i anon dk (w_control w) (w_daemon w))"
  "cl_skt_info (local_client E H I) i = gets (\<lambda>w. handle_skt_info i (w_control w))"
  "cl_recv_message (local_client E H I) i w = map_option (\<lambda>(r, c, s). (Inr r, w\<lparr>w_control := c, w_daemon := s\<rparr>))
     (handle_recv_message i (w_control w) (w_daemon w))"
  "cl_send_message (local_client E H I) i dest b w =
     (let (r, c) = handle_send_message H (in_session_err I) i dest b (w_control w) in Some (Inr r, w\<lparr>w_control := c\<rparr>))"
  by (simp_all add: local_client_def)

text \<open>The two ends of a message: \<open>send-msg\<close> on an idle N2R socket and \<open>recv-msg\<close> on one whose queue holds a message.\<close>

lemma send_command:
  assumes "ctl_sockets (w_control w) i = Some (N2r k)" "outgoing_queue k = []"
  shows "main_control H V (local_client E H I) rnd (SendMsg i dest text) w =
    Some (Inr [], w\<lparr>w_control := (w_control w)\<lparr>ctl_sockets := (ctl_sockets (w_control w))(i \<mapsto>
      N2r (k\<lparr>outgoing_queue := [(bytes_of_string text, dest)]\<rparr>))\<rparr>\<rparr>)"
  using assms
  by (simp add: local_client_sel flat_def bind_proc_def handle_send_message_def socket_send_to_def n2r_send_to_def ret_def)

lemma recv_command:
  assumes "ctl_sockets (w_control w) i = Some (N2r k)" "incoming_queue k = []"
    and "socket_recv_queues (w_daemon w) (bound_dock k) = Some [(m, src)]" "body m = [b]"
  shows "\<exists>w'. main_control H V (local_client E H I) rnd (RecvMsg i) w =
    Some (Inr [show_bytes V b @ '' from '' @ endpoint_to_string H (endpoint_new src (source_dock m))], w')"
  using assms
  by (simp add: local_client_sel bind_proc_def handle_recv_message_def socket_recv_from_def n2r_recv_from_def unbatch_def ret_def)

text \<open>
  The socket commands work together.  After a socket has been bound under an unused name to a dock, \<open>skt-info\<close> prints the
  endpoint of that dock under the identity asked for; a message that arrives at that endpoint is
  what \<open>recv-msg\<close> prints, with its sender; and without a message \<open>recv-msg\<close> waits.
\<close>

theorem socket_commands:
  assumes unused: "ctl_sockets (w_control w) i = None"
    and isk: "fst (bind_identity E anon (w_control w) (w_daemon w)) = isk" "dst = endpoint_new (my_fingerprint E isk) d"
    and one: "body m = [b]" "dest_dock m = d"
  shows "\<exists>w1. main_control H V (local_client E H I) rnd (BindN2r i anon (Some d)) w = Some (Inr [], w1) \<and>
     main_control H V (local_client E H I) rnd (SktInfo i) w1 = Some (Inr [endpoint_to_string H dst], w1) \<and>
     main_control H V (local_client E H I) rnd (RecvMsg i) w1 = None \<and>
     (\<exists>s2 w3. process_inner_pkt E (Message m) src (my_fingerprint E isk) (w_daemon w1) = Some (Inr (), s2) \<and>
        main_control H V (local_client E H I) rnd (RecvMsg i) (w1\<lparr>w_daemon := s2\<rparr>) =
          Some (Inr [show_bytes V b @ '' from '' @ endpoint_to_string H (endpoint_new src (source_dock m))], w3))"
proof -
  obtain c1 where c1: "bind_identity E anon (w_control w) (w_daemon w) = (isk, c1)"
    using isk(1) by (cases "bind_identity E anon (w_control w) (w_daemon w)") auto
  let ?k = "\<lparr>sock_isk = isk, bound_dock = dst, incoming_queue = [], outgoing_queue = []\<rparr>"
  have same: "ctl_sockets c1 = ctl_sockets (w_control w)"
    using c1 by (auto simp: bind_identity_def anon_get_def Let_def split: option.splits)
  let ?w1 = "w\<lparr>w_control := c1\<lparr>ctl_sockets := (ctl_sockets c1)(i \<mapsto> N2r ?k)\<rparr>,
      w_daemon := (w_daemon w)\<lparr>socket_recv_queues := (socket_recv_queues (w_daemon w))(dst \<mapsto> [])\<rparr>\<rparr>"
  have 1: "main_control H V (local_client E H I) rnd (BindN2r i anon (Some d)) w = Some (Inr [], ?w1)"
    using unused same
    by (simp add: local_client_sel bind_proc_def handle_bind_n2r_def c1 n2r_bind_def Let_def isk(2) store_socket_def ret_def)
  have 2: "main_control H V (local_client E H I) rnd (SktInfo i) ?w1 = Some (Inr [endpoint_to_string H dst], ?w1)"
    by (simp add: local_client_sel flat_def bind_proc_def gets_def ret_def handle_skt_info_def socket_local_endpoint_def n2r_local_endpoint_def)
  have 3: "main_control H V (local_client E H I) rnd (RecvMsg i) ?w1 = None"
    by (simp add: local_client_sel bind_proc_def handle_recv_message_def socket_recv_from_def n2r_recv_from_def)
  let ?s2 = "(w_daemon ?w1)\<lparr>socket_recv_queues := (socket_recv_queues (w_daemon w))(dst \<mapsto> [(m, src)])\<rparr>"
  have 4: "process_inner_pkt E (Message m) src (my_fingerprint E isk) (w_daemon ?w1) = Some (Inr (), ?s2)"
    using one isk(2) by (simp add: process_inner_pkt_def try_send_def)
  have 5: "\<exists>w3. main_control H V (local_client E H I) rnd (RecvMsg i) (?w1\<lparr>w_daemon := ?s2\<rparr>) =
      Some (Inr [show_bytes V b @ '' from '' @ endpoint_to_string H (endpoint_new src (source_dock m))], w3)"
    by (rule recv_command[where k = ?k]) (use one in \<open>simp_all add: fun_upd_def\<close>)
  show ?thesis using 1 2 3 4 5 by blast
qed

definition demo_world :: "(demo_cache, u64 set) control_world" where
  "demo_world = \<lparr>w_control = control_new, w_daemon = demo_daemon, w_files = \<lparr>files = Map.empty, creatable = (\<lambda>_. True)\<rparr>,
     w_net = Map.empty, w_cache = Map.empty\<rparr>"

definition demo_inputs :: "string control_inputs" where
  "demo_inputs = \<lparr>in_draw = of_nat, in_gen = demo_isk, in_session_err = (\<lambda>_. ''session''), in_timely = True, in_arrival = id,
     in_order = [], in_cookie = (\<lambda>_. ''cookie''), in_config = demo_config, in_call = (\<lambda>_ _ _. Inl ReceiveFailed),
     in_routes_value = (\<lambda>_. ''routes'')\<rparr>"

definition demo_cli :: "string cli_env" where
  "demo_cli = \<lparr>yaml_value = Some, json_text = id, yaml_text = Some, show_bytes = string_of_bytes, show_control_err = (\<lambda>_. ''error''),
     show_locator = (\<lambda>_. ''locator'')\<rparr>"

theorem socket_commands_witness:
  "\<exists>w1 s2 w3. main_control demo_henv demo_cli (local_client demo_denv demo_henv demo_inputs) ([], demo_isk 9, OnionSecret [])
       (BindN2r ''chat'' None (Some 6)) demo_world = Some (Inr [], w1) \<and>
     process_inner_pkt demo_denv (Message (message_new 7 6 [[104, 105]])) (demo_fp 2) (demo_fp 1) (w_daemon w1) = Some (Inr (), s2) \<and>
     main_control demo_henv demo_cli (local_client demo_denv demo_henv demo_inputs) ([], demo_isk 9, OnionSecret [])
       (RecvMsg ''chat'') (w1\<lparr>w_daemon := s2\<rparr>) =
         Some (Inr [''hi from '' @ endpoint_to_string demo_henv (endpoint_new (demo_fp 2) 7)], w3)"
proof -
  have unused: "ctl_sockets (w_control demo_world) ''chat'' = None" by (simp add: demo_world_def control_new_def)
  have isk: "fst (bind_identity demo_denv None (w_control demo_world) (w_daemon demo_world)) = demo_isk 1"
    by (simp add: bind_identity_def demo_world_def)
  have fp: "my_fingerprint demo_denv (demo_isk 1) = demo_fp 1" by (simp add: demo_denv_same demo_fp_def)
  have m: "body (message_new 7 6 [[104, 105]]) = [[104, 105]]" "dest_dock (message_new 7 6 [[104, 105]]) = 6"
    "source_dock (message_new 7 6 [[104, 105]]) = 7" by (simp_all add: message_new_def)
  have "show_bytes demo_cli [104, 105] = ''hi''" by (simp add: demo_cli_def string_of_bytes_def char_of_def bit_0)
  then show ?thesis
    using socket_commands[of demo_world "''chat''" demo_denv None "demo_isk 1" _ 6 "message_new 7 6 [[104, 105]]" "[104, 105]"
        demo_henv demo_cli demo_inputs "([], demo_isk 9, OnionSecret [])" "demo_fp 2", OF unused isk refl m(1,2), unfolded fp m]
    by fastforce
qed

text \<open>
  The self-test of the hash table never fails its assertion when a replica of the fresh key is
  reachable and the lookup is in time.
\<close>

lemma haven_test_passes:
  assumes laws: "ed25519_laws H" "iter_laws H" and g: "g = graph (w_daemon w)" "finite (dom (fp_to_id g))"
    and ranks: "inj_on (\<lambda>fp. blake3_hash H (stdcode_dht_key H (fingerprint_to_string H (my_fingerprint H isk)) fp)) (relays g)"
    and reach: "\<exists>r \<in> set (dht_replicas H g (my_fingerprint H isk)). r \<in> dom (w_net w)"
    and I: "in_timely I" "\<And>rs. set (in_arrival I rs) = set rs" and fresh: "w_cache w (my_fingerprint H isk) = None"
  shows "\<exists>w'. main_control H V (local_client E H I) (fp_bts, isk, osk) RendezvousHavenTest w = Some (Inr [], w')"
proof -
  let ?l = "locator_new H isk (onion_public_of H osk) (Fingerprint fp_bts)" and ?key = "my_fingerprint H isk"
  have "dht_get H g (in_arrival I) (ask_network H g (dht_insert H g ?l (w_net w)) ?key) ?key (w_cache w) =
      (Inr (Some ?l), (w_cache w)(?key \<mapsto> ?l))"
    by (rule dht_publish_lookup[where order = "fps_iter H"]) (use assms in simp_all)
  then show ?thesis
    by (simp add: rendezvous_haven_test_def local_client_def handle_insert_rendezvous_def handle_get_rendezvous_def I(1)
        flat_def bind_proc_def ret_def g(1) Let_def)
qed

section \<open>The program\<close>

text \<open>\<open>src/main.rs\<close>: parsing YAML and reading a configuration from it are third-party code.\<close>

datatype main_command = RunDaemon string | RunControl string control_command | GenerateSeed

datatype main_error = CannotReadConfig | ConfigSyntax | ConfigInvalid

definition load_config ::
    "(bytes \<Rightarrow> 'j option) \<Rightarrow> ('j \<Rightarrow> config_file option) \<Rightarrow> string \<Rightarrow> file_system \<Rightarrow> main_error + config_file" where
  "load_config yaml_slice from_value path fs =
     (case fs_read path fs of
        None \<Rightarrow> Inl CannotReadConfig
      | Some b \<Rightarrow>
          (case yaml_slice b of
             None \<Rightarrow> Inl ConfigSyntax
           | Some j \<Rightarrow> (case from_value j of None \<Rightarrow> Inl ConfigInvalid | Some cfg \<Rightarrow> Inr cfg)))"

text \<open>\<open>mnemonic\<close> gives the words of the entropy, with spaces between them.\<close>

definition gen_seed :: "(bytes \<Rightarrow> string) \<Rightarrow> bytes \<Rightarrow> string" where
  "gen_seed mnemonic entropy = map (\<lambda>c. if c = CHR '' '' then CHR ''-'' else c) (mnemonic entropy)"

text \<open>A generated seed can be written unquoted as one word, and the words can be read back from it.\<close>

lemma gen_seed_words:
  assumes "mnemonic entropy = concat (map (\<lambda>w. w @ '' '') ws) @ w" "\<forall>x \<in> set (w # ws). CHR '' '' \<notin> set x \<and> CHR ''-'' \<notin> set x"
  shows "CHR '' '' \<notin> set (gen_seed mnemonic entropy)" "split_on CHR ''-'' (gen_seed mnemonic entropy) = ws @ [w]"
proof -
  let ?f = "\<lambda>c. if c = CHR '' '' then CHR ''-'' else c"
  show "CHR '' '' \<notin> set (gen_seed mnemonic entropy)" by (auto simp: gen_seed_def)
  have same: "map ?f x = x" if "CHR '' '' \<notin> set x" for x using that by (induction x) auto
  have "split_on CHR ''-'' (map ?f (concat (map (\<lambda>w. w @ '' '') ws) @ w)) = ws @ [w]"
    using assms(2) by (induction ws) (simp_all add: same split_on_sep split_on_none)
  then show "split_on CHR ''-'' (gen_seed mnemonic entropy) = ws @ [w]" by (simp add: gen_seed_def assms(1))
qed

end
