(* ===== verification/Network.thy ===== *)
theory Network
  imports N2r_Socket Routes "HOL-Library.Sublist"
begin

text \<open>
  A network of daemons.  A network gives the state of the daemon of each fingerprint; \<open>wires\<close> tells at
  which connection of which node a connection of a node ends.  The tasks that move packets (the
  peeling loop of a node, the two loops of a link, the task that empties a link into the neighbour
  table) take their turns in any order.  The onion packets of a link are sent unreliably; a wire here hands on
  every packet it is given, so that what is proved to arrive arrives in runs in which the wires
  lose nothing.
\<close>

type_synonym 'l mesh = "fingerprint \<Rightarrow> 'l daemon"
type_synonym wiring = "fingerprint \<times> conn \<rightharpoonup> fingerprint \<times> conn"

datatype net_turn = PeelTurn fingerprint | WireTurn fingerprint conn | PumpTurn fingerprint conn

fun net_step :: "('l, 'z) daemon_env_scheme \<Rightarrow> wiring \<Rightarrow> net_turn \<Rightarrow> 'l mesh \<Rightarrow> 'l mesh" where
  "net_step E wires (PeelTurn x) N = N(x := node_step E OpPacket (N x))"
| "net_step E wires (PumpTurn x c) N = N(x := node_step E (OpPump c) (N x))"
| "net_step E wires (WireTurn x c) N =
     (case Option.bind (links (N x) c) onion_up of
        None \<Rightarrow> N
      | Some (b, _) \<Rightarrow>
          let N1 = N(x := node_step E (OpWireUp c) (N x))
          in (case wires (x, c) of
                None \<Rightarrow> N1
              | Some (y, d) \<Rightarrow> N1(y := node_step E (OpWireDn d b) (N1 y))))"

context stable_node
begin

lemma keeps_net_step: "P (N x) \<Longrightarrow> P (net_step E wires u N x)"
  by (cases u) (auto simp: keeps_node_step Let_def simp del: node_step.simps split: option.split)

lemma keeps_net_run: "P (N x) \<Longrightarrow> P (fold (net_step E wires) us N x)"
  by (induction us arbitrary: N) (simp_all add: keeps_net_step)

end

text \<open>A turn has nothing to do; a node with empty queues.\<close>

fun idle :: "net_turn \<Rightarrow> 'l mesh \<Rightarrow> bool" where
  "idle (PeelTurn x) N = (neigh_incoming (neigh (N x)) = [])"
| "idle (PumpTurn x c) N = (case links (N x) c of None \<Rightarrow> True | Some l \<Rightarrow> recv_incoming l = [])"
| "idle (WireTurn x c) N = (case links (N x) c of None \<Rightarrow> True | Some l \<Rightarrow> send_outgoing l = [])"

lemma idle_step: "idle u N \<Longrightarrow> net_step E wires u N = N"
  by (cases u) (auto simp: peel_forward_turn_def recv_raw_packet_def neigh_pump_def onion_up_def split: option.splits)

definition quiet :: "'l daemon \<Rightarrow> bool" where
  "quiet s \<longleftrightarrow> neigh_incoming (neigh s) = [] \<and>
     (\<forall>c l. links s c = Some l \<longrightarrow> send_outgoing l = [] \<and> recv_incoming l = [])"

lemma quiet_idle: "(\<And>x. quiet (N x)) \<Longrightarrow> idle u N"
  by (cases u) (auto simp: quiet_def split: option.splits)

section \<open>Runs with one thing to do\<close>

text \<open>
  \<open>leads step ts s s'\<close>: from \<open>s\<close>, exactly the turns \<open>ts\<close> have something to do, each when the ones before it are
  done, and they end in \<open>s'\<close>.  \<open>drives\<close>: moreover, in \<open>s'\<close> no turn has anything to do.
\<close>

inductive leads :: "('o \<Rightarrow> 's \<Rightarrow> 's) \<Rightarrow> 'o list \<Rightarrow> 's \<Rightarrow> 's \<Rightarrow> bool" for step :: "'o \<Rightarrow> 's \<Rightarrow> 's" where
  there: "leads step [] s s"
| act: "(\<And>u. u \<noteq> t \<Longrightarrow> step u s = s) \<Longrightarrow> leads step ts (step t s) s' \<Longrightarrow> leads step (t # ts) s s'"

definition drives :: "('o \<Rightarrow> 's \<Rightarrow> 's) \<Rightarrow> 'o list \<Rightarrow> 's \<Rightarrow> 's \<Rightarrow> bool" where
  "drives step ts s s' \<longleftrightarrow> leads step ts s s' \<and> (\<forall>u. step u s' = s')"

text \<open>In whatever order turns are taken, once \<open>ts\<close> have been among them the run has been in \<open>s'\<close>.\<close>

lemma leads_any_order:
  assumes "leads step ts s s'" "subseq ts us"
  shows "\<exists>vs. fold step us s = fold step vs s'"
  using assms
proof (induction us arbitrary: ts s)
  case Nil
  then have "s' = s" by (auto elim: leads.cases)
  then show ?case by (auto intro: exI[of _ "[]"])
next
  case (Cons u us)
  show ?case
    using Cons.prems(1)
  proof cases
    case there
    then show ?thesis by blast
  next
    case (act t ts')
    show ?thesis
    proof (cases "u = t")
      case True
      then show ?thesis using Cons.IH[of ts' "step t s"] Cons.prems(2) act by simp
    next
      case False
      then show ?thesis using Cons.IH[of ts s] Cons.prems act by (metis fold_simps(2) subseq_Cons2_neq)
    qed
  qed
qed

lemma drives_any_order:
  assumes "drives step ts s s'" "subseq ts us"
  shows "fold step us s = s'"
proof -
  have "fold step vs s' = s'" for vs using assms(1) by (induction vs) (simp_all add: drives_def)
  then show ?thesis using leads_any_order[of step ts s s' us] assms by (auto simp: drives_def)
qed

section \<open>One hop\<close>

definition holding :: "raw_packet list \<Rightarrow> 'l daemon \<Rightarrow> 'l daemon" where
  "holding ps s = s\<lparr>neigh := (neigh s)\<lparr>neigh_incoming := ps\<rparr>\<rparr>"

text \<open>Node \<open>a\<close> lists \<open>b\<close> as a neighbour, over a link that ends at a link of \<open>b\<close>.\<close>

definition joined :: "wiring \<Rightarrow> 'l mesh \<Rightarrow> fingerprint \<Rightarrow> fingerprint \<Rightarrow> bool" where
  "joined wires N a b \<longleftrightarrow> (case neigh_lookup (neigh (N a)) b of
     None \<Rightarrow> False
   | Some c \<Rightarrow> links (N a) c \<noteq> None \<and> (case wires (a, c) of
        None \<Rightarrow> False
      | Some (y, d) \<Rightarrow> y = b \<and> links (N b) d \<noteq> None))"

text \<open>The turns that move a packet from \<open>a\<close> to its neighbour \<open>b\<close>, and along a path.\<close>

definition hop_turns :: "wiring \<Rightarrow> 'l mesh \<Rightarrow> fingerprint \<Rightarrow> fingerprint \<Rightarrow> net_turn list" where
  "hop_turns wires N a b =
     (let c = the (neigh_lookup (neigh (N a)) b)
      in [PeelTurn a, WireTurn a c, PumpTurn b (snd (the (wires (a, c))))])"

fun path_turns :: "wiring \<Rightarrow> 'l mesh \<Rightarrow> fingerprint list \<Rightarrow> net_turn list" where
  "path_turns wires N (a # b # p) = hop_turns wires N a b @ path_turns wires N (b # p)"
| "path_turns wires N [a] = [PeelTurn a]"
| "path_turns wires N [] = []"

lemma emptied:
  "neigh_incoming t = [] \<Longrightarrow> t\<lparr>neigh_incoming := []\<rparr> = t" "send_outgoing l = [] \<Longrightarrow> l\<lparr>send_outgoing := []\<rparr> = l"
  "recv_incoming l = [] \<Longrightarrow> l\<lparr>recv_incoming := []\<rparr> = l" "s\<lparr>neigh := neigh s\<rparr> = s" "s\<lparr>links := links s\<rparr> = s"
  by (cases t; cases l; cases s; simp)+

lemma links_restored: "links s c = Some l \<Longrightarrow> (links s)(c \<mapsto> l) = links s"
  by (rule fun_upd_idem)

lemma holding_idle:
  assumes "\<And>x. quiet (N x)" "u \<noteq> PeelTurn a"
  shows "idle u (N(a := holding ps (N a)))"
  using assms by (cases u) (auto simp: holding_def quiet_def split: option.splits)

lemma holding_none: "quiet s \<Longrightarrow> holding [] s = s"
  by (simp add: holding_def quiet_def emptied)

text \<open>The three turns, with the packets \<open>rest\<close> waiting behind the one that moves.\<close>

lemma hop_moves:
  assumes quiet: "quiet (N a)" "quiet (N b)" and j: "joined wires N a b" and ab: "a \<noteq> b"
    and peel: "peel E pkt (global_onion_sk (N a)) = Inr (Forward b pkt')" and wf: "wf_packet pkt'"
  obtains c d l l' where "hop_turns wires N a b = [PeelTurn a, WireTurn a c, PumpTurn b d]"
    "links (N a) c = Some l" "links (N b) d = Some l'"
    "net_step E wires (PeelTurn a) (N(a := holding (pkt # rest) (N a))) =
       N(a := (holding rest (N a))\<lparr>links := (links (N a))(c \<mapsto> l\<lparr>send_outgoing := [pkt']\<rparr>)\<rparr>)"
    "net_step E wires (WireTurn a c) (N(a := (holding rest (N a))\<lparr>links := (links (N a))(c \<mapsto> l\<lparr>send_outgoing := [pkt']\<rparr>)\<rparr>)) =
       N(a := holding rest (N a), b := (N b)\<lparr>links := (links (N b))(d \<mapsto> l'\<lparr>recv_incoming := [pkt']\<rparr>)\<rparr>)"
    "net_step E wires (PumpTurn b d) (N(a := holding rest (N a), b := (N b)\<lparr>links := (links (N b))(d \<mapsto> l'\<lparr>recv_incoming := [pkt']\<rparr>)\<rparr>)) =
       N(a := holding rest (N a), b := holding [pkt'] (N b))"
proof -
  obtain c ex l d l' where entry: "neigh_entries (neigh (N a)) b = Some (c, ex)" and c: "links (N a) c = Some l"
      "wires (a, c) = Some (b, d)" "links (N b) d = Some l'"
    using j by (auto simp: joined_def neigh_lookup_def split: option.splits)
  have look: "neigh_lookup (neigh (N a)) b = Some c" using entry by (simp add: neigh_lookup_def)
  have q: "send_outgoing l = []" "recv_incoming l' = []" "neigh_incoming (neigh (N b)) = []"
    using quiet c by (auto simp: quiet_def)
  let ?a = "holding rest (N a)" and ?b = "(N b)\<lparr>links := (links (N b))(d \<mapsto> l'\<lparr>recv_incoming := [pkt']\<rparr>)\<rparr>"
  show thesis
  proof (rule that[of c d l l'])
    show "hop_turns wires N a b = [PeelTurn a, WireTurn a c, PumpTurn b d]" by (simp add: hop_turns_def look c(2))
    show "net_step E wires (PeelTurn a) (N(a := holding (pkt # rest) (N a))) = N(a := ?a\<lparr>links := (links (N a))(c \<mapsto> l\<lparr>send_outgoing := [pkt']\<rparr>)\<rparr>)"
      using c q peel entry
      by (simp add: holding_def peel_forward_turn_def recv_raw_packet_def peel_forward_def bind_proc_def lift_res_def
          forward_packet_def neigh_lookup_def send_raw_packet_def fun_eq_iff)
    show "net_step E wires (WireTurn a c) (N(a := ?a\<lparr>links := (links (N a))(c \<mapsto> l\<lparr>send_outgoing := [pkt']\<rparr>)\<rparr>)) = N(a := ?a, b := ?b)"
      using c q ab packet_wire_roundtrip[of "packet_bytes pkt'" pkt'] wf
      by (simp add: holding_def onion_up_def onion_dn_def try_send_def emptied links_restored fun_upd_twist)
    show "net_step E wires (PumpTurn b d) (N(a := ?a, b := ?b)) = N(a := ?a, b := holding [pkt'] (N b))"
      using c q ab by (simp add: neigh_pump_def inject_asif_incoming_def holding_def emptied links_restored)
  qed (rule c)+
qed

lemma hop:
  assumes quiet: "\<And>x. quiet (N x)" and j: "joined wires N a b" and ab: "a \<noteq> b"
    and peel: "peel E pkt (global_onion_sk (N a)) = Inr (Forward b pkt')" and wf: "wf_packet pkt'"
    and next_part: "leads (net_step E wires) ts (N(b := holding [pkt'] (N b))) N'"
  shows "leads (net_step E wires) (hop_turns wires N a b @ ts) (N(a := holding [pkt] (N a))) N'"
proof -
  obtain c d l l' where turns: "hop_turns wires N a b = [PeelTurn a, WireTurn a c, PumpTurn b d]"
      and c: "links (N a) c = Some l" "links (N b) d = Some l'"
      and moves: "net_step E wires (PeelTurn a) (N(a := holding [pkt] (N a))) =
          N(a := (N a)\<lparr>links := (links (N a))(c \<mapsto> l\<lparr>send_outgoing := [pkt']\<rparr>)\<rparr>)" (is "_ = ?S1")
        "net_step E wires (WireTurn a c) (N(a := (N a)\<lparr>links := (links (N a))(c \<mapsto> l\<lparr>send_outgoing := [pkt']\<rparr>)\<rparr>)) =
          N(b := (N b)\<lparr>links := (links (N b))(d \<mapsto> l'\<lparr>recv_incoming := [pkt']\<rparr>)\<rparr>)" (is "_ = ?S2")
        "net_step E wires (PumpTurn b d) (N(b := (N b)\<lparr>links := (links (N b))(d \<mapsto> l'\<lparr>recv_incoming := [pkt']\<rparr>)\<rparr>)) = N(b := holding [pkt'] (N b))"
    using hop_moves[OF quiet quiet j ab peel wf, of "[]"] unfolding holding_none[OF quiet] fun_upd_triv by blast
  have q: "send_outgoing l = []" "recv_incoming l' = []" "neigh_incoming (neigh (N x)) = []"
     "links (N x) k = Some m \<Longrightarrow> send_outgoing m = []" "links (N x) k = Some m \<Longrightarrow> recv_incoming m = []" for x k m
    using quiet c by (auto simp: quiet_def)
  have i2: "idle u ?S1" if "u \<noteq> WireTurn a c" for u
    using that q c by (cases u) (auto split: option.splits)
  have i3: "idle u ?S2" if "u \<noteq> PumpTurn b d" for u
    using that q c by (cases u) (auto split: option.splits)
  show ?thesis unfolding turns append_Cons append_Nil
    using next_part by (intro leads.act; (unfold moves)?) (auto intro: idle_step holding_idle quiet i2 i3)
qed

section \<open>A journey\<close>

text \<open>A packet travels along a path of joined honest nodes.\<close>

lemma journey_leads:
  assumes laws: "packet_laws E" and quiet: "\<And>x. quiet (N x)"
    and arrival: "\<And>u. u \<noteq> PeelTurn dst \<Longrightarrow> idle u (N(dst := holding [final] (N dst)))"
      "net_step E wires (PeelTurn dst) (N(dst := holding [final] (N dst))) = N'"
  shows "p \<noteq> [] \<Longrightarrow> last p = dst \<Longrightarrow> (\<And>x. x \<in> set p \<Longrightarrow> global_onion_sk (N x) = osk x) \<Longrightarrow>
    successively (\<lambda>a b. joined wires N a b \<and> a \<noteq> b) p \<Longrightarrow> wf_packet pkt \<Longrightarrow>
    relay_path E (map osk (butlast p)) pkt = Some (tl p, final) \<Longrightarrow>
    leads (net_step E wires) (path_turns wires N p) (N(hd p := holding [pkt] (N (hd p)))) N'"
proof (induction p arbitrary: pkt rule: induct_list012)
  case (2 a)
  then have "hd [a] = dst" "pkt = final" "path_turns wires N [a] = [PeelTurn dst]" by auto
  moreover have "leads (net_step E wires) [PeelTurn dst] (N(dst := holding [final] (N dst))) N'"
    by (intro leads.act; (unfold arrival(2))?) (use arrival(1) in \<open>auto intro: idle_step leads.there\<close>)
  ultimately show ?case by (simp only:)
next
  case (3 a b p)
  obtain pkt' where peel: "peel E pkt (global_onion_sk (N a)) = Inr (Forward b pkt')"
      and rest: "relay_path E (map osk (butlast (b # p))) pkt' = Some (tl (b # p), final)"
    using 3 by (auto split: sum.splits peeled_packet.splits)
  have "wf_packet pkt'" using peel_sizes[OF laws 3(7), of "global_onion_sk (N a)"] peel by simp
  then have "leads (net_step E wires) (path_turns wires N (b # p)) (N(b := holding [pkt'] (N b))) N'"
    using 3 rest by (simp add: fun_upd_def)
  then show ?case using hop[of N, OF quiet _ _ peel, of wires] \<open>wf_packet pkt'\<close> 3 by (simp add: fun_upd_def)
qed simp

lemma journey:
  assumes laws: "packet_laws E" and quiet: "\<And>x. quiet (N x)"
    and arrival: "\<And>u. u \<noteq> PeelTurn dst \<Longrightarrow> idle u (N(dst := holding [final] (N dst)))"
      "net_step E wires (PeelTurn dst) (N(dst := holding [final] (N dst))) = N'" "\<And>u. idle u N'"
    and p: "p \<noteq> []" "last p = dst" "\<And>x. x \<in> set p \<Longrightarrow> global_onion_sk (N x) = osk x"
      "successively (\<lambda>a b. joined wires N a b \<and> a \<noteq> b) p" "wf_packet pkt" "relay_path E (map osk (butlast p)) pkt = Some (tl p, final)"
  shows "drives (net_step E wires) (path_turns wires N p) (N(hd p := holding [pkt] (N (hd p)))) N'"
proof -
  have "net_step E wires u N' = N'" for u by (rule idle_step[OF arrival(3)])
  then show ?thesis using journey_leads[OF laws quiet arrival(1,2) p] unfolding drives_def by blast
qed

lemma path_turns_cong: "(\<And>x. neigh (N x) = neigh (N' x)) \<Longrightarrow> path_turns wires N p = path_turns wires N' p"
  by (induction p rule: induct_list012) (simp_all add: hop_turns_def)

lemma joined_cong: "(\<And>x. neigh (N x) = neigh (N' x)) \<Longrightarrow> (\<And>x. links (N x) = links (N' x)) \<Longrightarrow> joined wires N a b = joined wires N' a b"
  by (simp add: joined_def split: option.split)

lemma linked_irrefl:
  assumes "graph_inv E g" "linked g a b"
  shows "a \<noteq> b"
proof -
  obtain l r doc where "documents g (l, r) = Some doc" "left doc = a \<and> right doc = b \<or> left doc = b \<and> right doc = a"
    using assms(2) by (auto simp: linked_def ran_def)
  moreover have "left doc < right doc" using assms(1) calculation(1) unfolding graph_inv_def docs_ok_def by blast
  ultimately show ?thesis by auto
qed

text \<open>The state of the network after a message has been delivered.\<close>

definition delivered :: "fingerprint \<Rightarrow> message \<times> fingerprint \<Rightarrow> 'l mesh \<Rightarrow> 'l mesh" where
  "delivered dst mf N = N(dst := (N dst)\<lparr>socket_recv_queues :=
     (socket_recv_queues (N dst))(endpoint_new dst (dest_dock (fst mf)) \<mapsto>
       the (socket_recv_queues (N dst) (endpoint_new dst (dest_dock (fst mf)))) @ [mf])\<rparr>)"

lemma send_crosses:
  assumes laws: "daemon_laws E ok" and inv: "daemon_inv E ok (N src)" and quiet: "\<And>x. quiet (N x)"
    and names: "my_fp E (N src) = src" "my_fp E (N dst) = dst"
    and honest: "\<And>fp d. identity (graph (N src)) fp = Some d \<Longrightarrow> onion_pk d = onion_public_of E (global_onion_sk (N fp))"
    and links: "\<And>a b. linked (graph (N src)) a b \<Longrightarrow> joined wires N a b"
    and no_rb: "rb_stack (lru E) (anon_dests (N src)) dst = []"
    and route: "is_route (graph (N src)) src dst q" "length q \<le> 10"
    and fits: "length (bincode_serialize E (Message (message_new sd dd content))) \<le> 8172"
    and room: "socket_recv_queues (N dst) (endpoint_new dst dd) = Some w" "length w < 1000"
  shows "\<exists>s' p base. send_n2r E (global_identity (N src)) sd dst dd content (N src) = Some (Inr (), s') \<and>
     is_route (graph (N src)) src dst p \<and> length p \<le> length q \<and>
     base = (N src)\<lparr>anon_dests := anon_dests s', rng := rng s'\<rparr> \<and>
     drives (net_step E wires) (path_turns wires N p) (N(src := s'))
       (delivered dst (message_new sd dd content, src) (N(src := base)))"
proof -
  let ?osk = "\<lambda>fp. global_onion_sk (N fp)" and ?m = "message_new sd dd content"
  obtain p pkt final where sent: "send_n2r E (global_identity (N src)) sd dst dd content (N src) = Some (Inr (), sent E dst pkt (N src))"
      "is_route (graph (N src)) src dst p" "length p \<le> length q"
      "relay_path E (map ?osk (butlast p)) pkt = Some (tl p, final)"
      "peel E final (?osk dst) = Inr (Received src (Message ?m))"
    using send_n2r_own[OF laws inv _ no_rb _ route(2) fits, of ?osk] honest route(1) names(1) by metis
  let ?s' = "sent E dst pkt (N src)"
  let ?base = "(N src)\<lparr>anon_dests := anon_dests ?s', rng := rng ?s'\<rparr>" and ?N = "N(src := (N src)\<lparr>anon_dests := anon_dests ?s', rng := rng ?s'\<rparr>)"
  have same: "neigh (?N x) = neigh (N x)" "links (?N x) = links (N x)" "global_onion_sk (?N x) = ?osk x"
      "socket_recv_queues (?N x) = socket_recv_queues (N x)" "global_identity (?N x) = global_identity (N x)" for x
    by auto
  have quiet': "quiet (?N x)" for x using quiet[of x] unfolding quiet_def same .
  have empty: "neigh_incoming (neigh (N x)) = []" for x using quiet by (simp add: quiet_def)
  have start: "N(src := ?s') = ?N(src := holding [pkt] (?N src))"
    using empty by (simp add: sent_def inject_asif_incoming_def holding_def)
  have "daemon_inv E ok ?s'" using safe_send_n2r[OF laws inv, of "global_identity (N src)" sd dst dd content] sent(1)
    by (simp add: safe_def total_def)
  then have wf: "wf_packet pkt" using empty by (simp add: daemon_inv_def sent_def inject_asif_incoming_def wf_queue_def)
  have arrival: "net_step E wires (PeelTurn dst) (?N(dst := holding [final] (?N dst))) = delivered dst (?m, src) ?N"
    using sent(5) room names(2) empty
    by (cases "src = dst") (simp_all add: message_new_def holding_def peel_forward_turn_def recv_raw_packet_def peel_forward_def bind_proc_def lift_res_def gets_def
        process_inner_pkt_def try_send_def delivered_def emptied)
  have after: "idle u (delivered dst (?m, src) ?N)" for u
    by (rule quiet_idle) (use quiet' in \<open>auto simp: delivered_def quiet_def\<close>)
  have p: "p \<noteq> []" "hd p = src" "last p = dst" and path: "successively (linked (graph (N src))) p"
    using sent(2) by (auto simp: is_route_def)
  have "successively (\<lambda>a b. joined wires ?N a b \<and> a \<noteq> b) p"
  proof (rule successively_mono[OF path])
    fix a b assume "linked (graph (N src)) a b"
    then show "joined wires ?N a b \<and> a \<noteq> b"
      using links linked_irrefl[of E "graph (N src)" a b] inv joined_cong[of ?N N wires, OF same(1,2)] by (simp add: daemon_inv_def)
  qed
  then have "drives (net_step E wires) (path_turns wires ?N p) (?N(hd p := holding [pkt] (?N (hd p)))) (delivered dst (?m, src) ?N)"
    using journey[of E ?N, OF daemon_lawsD(1)[OF laws] quiet' holding_idle[of ?N, OF quiet'] arrival after, of p ?osk pkt] p same(3) wf sent(4) by blast
  then have "drives (net_step E wires) (path_turns wires N p) (N(src := ?s')) (delivered dst (?m, src) ?N)"
    unfolding p(2) start path_turns_cong[of ?N N, OF same(1)] .
  then show ?thesis using sent(1-3) by blast
qed

section \<open>From socket to socket\<close>

lemma fill_subbatch_all: "n + batch_size ms \<le> LIMIT \<Longrightarrow> fill_subbatch n ms = (ms, [])"
  by (induction ms arbitrary: n) (simp_all add: Let_def)

lemma send_batch_whole:
  assumes "ms \<noteq> []" "batch_size ms \<le> LIMIT" "send_n2r E isk d (ep_fingerprint ep) (ep_dock ep) ms s = Some (Inr (), s')"
  shows "send_batch E isk d ep ms s = Some (Inr (), s')"
  using assms fill_subbatch_all[of 0 ms] by (simp add: send_batch.simps[of E isk d ep ms] send_batch.simps[of E isk d ep "[]"])

lemma batcher_single:
  assumes "outgoing_queue k = map (\<lambda>m. (m, ep)) ms" "ms \<noteq> []" "batch_size ms \<le> LIMIT" "iter [ep \<mapsto> ms] = [ep]"
    "send_n2r E (sock_isk k) (ep_dock (bound_dock k)) (ep_fingerprint ep) (ep_dock ep) ms s = Some (Inr (), s')"
  shows "send_batcher_turn E iter k s = Some (Some (Inr (), s'), k\<lparr>outgoing_queue := []\<rparr>)"
proof -
  have "fold push_batch (map (\<lambda>m. (m, ep)) ms) Map.empty = [ep \<mapsto> ms]"
    using assms(2) by (auto simp: fun_eq_iff batches_spec filter_map comp_def image_image image_constant_conv)
  then show ?thesis
    using assms send_batch_whole[OF assms(2,3,5)]
    by (simp add: send_batcher_turn_def Let_def bind_proc_def proc_simps)
qed

lemma batch_crosses:
  assumes laws: "daemon_laws E ok" and inv: "daemon_inv E ok (N src)" and quiet: "\<And>x. quiet (N x)"
    and names: "my_fp E (N src) = src" "my_fp E (N dst) = dst"
    and honest: "\<And>fp d. identity (graph (N src)) fp = Some d \<Longrightarrow> onion_pk d = onion_public_of E (global_onion_sk (N fp))"
    and up: "\<And>a b. linked (graph (N src)) a b \<Longrightarrow> joined wires N a b"
    and no_rb: "rb_stack (lru E) (anon_dests (N src)) dst = []"
    and route: "is_route (graph (N src)) src dst q" "length q \<le> 10"
    and sender: "sock_isk k = global_identity (N src)" "bound_dock k = endpoint_new src sd"
      "outgoing_queue k = map (\<lambda>m. (m, endpoint_new dst dd)) ms"
    and batch: "ms \<noteq> []" "batch_size ms \<le> LIMIT" "iter [endpoint_new dst dd \<mapsto> ms] = [endpoint_new dst dd]"
      "length (bincode_serialize E (Message (message_new sd dd ms))) \<le> 8172"
    and receiver: "socket_recv_queues (N dst) (endpoint_new dst dd) = Some []"
  shows "\<exists>s' p. send_batcher_turn E iter k (N src) = Some (Some (Inr (), s'), k\<lparr>outgoing_queue := []\<rparr>) \<and>
     is_route (graph (N src)) src dst p \<and>
     (\<forall>us. subseq (path_turns wires N p) us \<longrightarrow>
        socket_recv_queues (fold (net_step E wires) us (N(src := s')) dst) (endpoint_new dst dd) = Some [(message_new sd dd ms, src)])"
proof -
  let ?m = "message_new sd dd ms"
  obtain s' p base where sent: "send_n2r E (global_identity (N src)) sd dst dd ms (N src) = Some (Inr (), s')"
      "is_route (graph (N src)) src dst p" "base = (N src)\<lparr>anon_dests := anon_dests s', rng := rng s'\<rparr>"
      "drives (net_step E wires) (path_turns wires N p) (N(src := s')) (delivered dst (?m, src) (N(src := base)))"
    using send_crosses[OF laws inv quiet names honest up no_rb route batch(4) receiver] by auto
  have 1: "send_batcher_turn E iter k (N src) = Some (Some (Inr (), s'), k\<lparr>outgoing_queue := []\<rparr>)"
    by (rule batcher_single[where iter = iter, OF sender(3) batch(1-3)]) (use sent(1) sender in \<open>simp add: endpoint_new_def\<close>)
  have "socket_recv_queues (fold (net_step E wires) us (N(src := s')) dst) (endpoint_new dst dd) = Some [(?m, src)]"
    if "subseq (path_turns wires N p) us" for us
  proof -
    have "fold (net_step E wires) us (N(src := s')) = delivered dst (?m, src) (N(src := base))"
      using drives_any_order[OF sent(4) that] .
    then show ?thesis using receiver sent(3) by (cases "src = dst") (simp_all add: delivered_def message_new_def)
  qed
  then show ?thesis using 1 sent(2) by blast
qed

text \<open>A message queued for a socket is what the socket yields.\<close>

lemma queued_received:
  assumes "bound_dock r = endpoint_new dst dd" "incoming_queue r = []"
    and "socket_recv_queues s (endpoint_new dst dd) = Some [(message_new sd dd ms, src)]"
  shows "\<exists>r' t. takes n2r_next (length ms) (r, s) = Some (map (\<lambda>m. (m, endpoint_new src sd)) ms, (r', t)) \<and> n2r_recv_from r' t = None"
proof -
  have live: "n2r_live (r, s)" and pend: "n2r_pending (r, s) = map (\<lambda>m. (m, endpoint_new src sd)) ms"
    using assms by (simp_all add: n2r_live_def n2r_pending_def unbatch_def message_new_def)
  obtain r' t where t: "takes n2r_next (length ms) (r, s) = Some (map (\<lambda>m. (m, endpoint_new src sd)) ms, (r', t))"
      "n2r_pending (r', t) = []" "n2r_live (r', t)"
    using n2r_source.takes_pending[OF live, of "length ms"] pend by auto
  moreover have "n2r_recv_from r' t = None" using n2r_recv_spec[OF t(3)] t(2) by simp
  ultimately show ?thesis by blast
qed

text \<open>Of a message at the head of the queue, whatever is queued behind it.\<close>

lemma head_received:
  assumes "bound_dock r = endpoint_new dst dd" "incoming_queue r = []"
    and "socket_recv_queues s (endpoint_new dst dd) = Some ((message_new sd dd ms, src) # rest)"
  shows "\<exists>r' t. takes n2r_next (length ms) (r, s) = Some (map (\<lambda>m. (m, endpoint_new src sd)) ms, (r', t))"
proof -
  have live: "n2r_live (r, s)" and pend: "n2r_pending (r, s) = map (\<lambda>m. (m, endpoint_new src sd)) ms @ concat (map unbatch rest)"
    using assms by (simp_all add: n2r_live_def n2r_pending_def unbatch_def message_new_def)
  then show ?thesis using n2r_source.takes_pending[OF live, of "length ms"] by auto
qed

text \<open>
  (C2) What is sent on one socket is received on another.  In a network at rest, let a batch of messages
  that fits one packet wait on a socket of the node \<open>src\<close>, bound under its own identity, for a
  socket of the node \<open>dst\<close>.  If \<open>src\<close> knows a route of at most ten nodes, holds no reply block for \<open>dst\<close>,
  and the links of its graph are up, a turn of the batcher succeeds and there is a route such
  that, in whatever order the packet-moving tasks of all nodes then take their turns, as soon as
  those of the route have had theirs in the order of the route, the receiving socket yields exactly
  the messages, in their order, each with the sender's endpoint, and then waits.  The wires lose nothing.
\<close>

theorem sockets_across_network:
  assumes laws: "daemon_laws E ok" and inv: "daemon_inv E ok (N src)" and quiet: "\<And>x. quiet (N x)"
    and names: "my_fp E (N src) = src" "my_fp E (N dst) = dst"
    and honest: "\<And>fp d. identity (graph (N src)) fp = Some d \<Longrightarrow> onion_pk d = onion_public_of E (global_onion_sk (N fp))"
    and up: "\<And>a b. linked (graph (N src)) a b \<Longrightarrow> joined wires N a b"
    and no_rb: "rb_stack (lru E) (anon_dests (N src)) dst = []"
    and route: "is_route (graph (N src)) src dst q" "length q \<le> 10"
    and sender: "sock_isk k = global_identity (N src)" "bound_dock k = endpoint_new src sd"
      "outgoing_queue k = map (\<lambda>m. (m, endpoint_new dst dd)) ms"
    and batch: "ms \<noteq> []" "batch_size ms \<le> LIMIT" "iter [endpoint_new dst dd \<mapsto> ms] = [endpoint_new dst dd]"
      "length (bincode_serialize E (Message (message_new sd dd ms))) \<le> 8172"
    and receiver: "bound_dock r = endpoint_new dst dd" "incoming_queue r = []"
      "socket_recv_queues (N dst) (endpoint_new dst dd) = Some []"
  shows "\<exists>s' p. send_batcher_turn E iter k (N src) = Some (Some (Inr (), s'), k\<lparr>outgoing_queue := []\<rparr>) \<and>
     is_route (graph (N src)) src dst p \<and>
     (\<forall>us. subseq (path_turns wires N p) us \<longrightarrow>
        (\<exists>r' t. takes n2r_next (length ms) (r, fold (net_step E wires) us (N(src := s')) dst) =
           Some (map (\<lambda>m. (m, endpoint_new src sd)) ms, (r', t)) \<and> n2r_recv_from r' t = None))"
proof -
  obtain s' p where sent: "send_batcher_turn E iter k (N src) = Some (Some (Inr (), s'), k\<lparr>outgoing_queue := []\<rparr>)"
      "is_route (graph (N src)) src dst p"
      "\<And>us. subseq (path_turns wires N p) us \<Longrightarrow>
         socket_recv_queues (fold (net_step E wires) us (N(src := s')) dst) (endpoint_new dst dd) = Some [(message_new sd dd ms, src)]"
    using batch_crosses[where iter = iter, OF laws inv quiet names honest up no_rb route sender batch receiver(3)] by auto
  then show ?thesis using queued_received[OF receiver(1,2)] by blast
qed

text \<open>Two nodes with a link between them, for the witness.\<close>

definition demo_node :: "nat \<Rightarrow> nat \<Rightarrow> demo_cache daemon" where
  "demo_node n peer = demo_daemon\<lparr>global_identity := demo_isk n, global_onion_sk := OnionSecret [of_nat n],
     neigh := neigh_insert_pinned 0 (demo_fp peer) 4 neigh_table_new,
     links := [4 \<mapsto> \<lparr>mux_peer_pk = [], remote_idpk = identity_public_of demo_denv (demo_isk peer), send_outgoing = [], recv_incoming = []\<rparr>],
     socket_recv_queues := [endpoint_new (demo_fp n) 6 \<mapsto> []]\<rparr>"

definition demo_net :: "demo_cache mesh" where
  "demo_net = (\<lambda>_. demo_node 1 2)(demo_fp 2 := demo_node 2 1)"

definition demo_wires :: wiring where
  "demo_wires = [(demo_fp 1, 4) \<mapsto> (demo_fp 2, 4), (demo_fp 2, 4) \<mapsto> (demo_fp 1, 4)]"

lemma demo_net_nodes: "demo_net (demo_fp 1) = demo_node 1 2" "demo_net (demo_fp 2) = demo_node 2 1"
  using demo_fps by (simp_all add: demo_net_def)

lemma demo_node_graph: "graph (demo_node n m) = demo_graph" "anon_dests (demo_node n m) = rb_store_new demo_lru"
  by (simp_all add: demo_node_def)

lemma demo_net_quiet: "quiet (demo_net x)"
  by (simp add: demo_net_def demo_node_def quiet_def neigh_insert_pinned_def neigh_insert_inner_def neigh_table_new_def)

lemma demo_net_joined: "linked demo_graph a b \<Longrightarrow> joined demo_wires demo_net a b"
  using demo_fps by (auto simp: linked_def demo_graph_facts demo_adj_def Let_def joined_def demo_net_nodes demo_net_nodes[simplified] demo_node_def
      demo_wires_def neigh_insert_pinned_def neigh_insert_inner_def neigh_lookup_def)

lemma demo_node_inv: "daemon_inv demo_denv demo_lru_ok (demo_node n m)"
  using demo_daemon_inv
  by (auto simp: daemon_inv_def demo_node_def wf_queue_def neigh_insert_pinned_def neigh_insert_inner_def neigh_table_new_def)

lemma demo_net_honest:
  "identity demo_graph fp = Some d \<Longrightarrow> onion_pk d = onion_public_of demo_denv (global_onion_sk (demo_net fp))"
  by (auto dest!: demo_identities simp: demo_net_nodes demo_net_nodes[simplified] demo_node_def demo_denv_same)

lemma demo_net_facts:
  "my_fp demo_denv (demo_net (demo_fp 1)) = demo_fp 1" "my_fp demo_denv (demo_net (demo_fp 2)) = demo_fp 2"
  "graph (demo_net (demo_fp 1)) = demo_graph" "global_identity (demo_net (demo_fp 1)) = demo_isk 1"
  "daemon_inv demo_denv demo_lru_ok (demo_net (demo_fp 1))"
  "rb_stack (lru demo_denv) (anon_dests (demo_net (demo_fp 1))) (demo_fp 2) = []"
  "socket_recv_queues (demo_net (demo_fp 2)) (endpoint_new (demo_fp 2) 6) = Some []"
proof -
  show "daemon_inv demo_denv demo_lru_ok (demo_net (demo_fp 1))" unfolding demo_net_nodes by (rule demo_node_inv)
qed (unfold demo_net_nodes, simp_all add: demo_node_def demo_denv_same demo_fp_def)

theorem sockets_across_network_witness:
  "\<exists>s' p. send_batcher_turn demo_denv (\<lambda>_. [endpoint_new (demo_fp 2) 6]) demo_socket (demo_net (demo_fp 1)) =
       Some (Some (Inr (), s'), demo_socket\<lparr>outgoing_queue := []\<rparr>) \<and>
     is_route (graph (demo_net (demo_fp 1))) (demo_fp 1) (demo_fp 2) p \<and>
     (\<forall>us. subseq (path_turns demo_wires demo_net p) us \<longrightarrow>
       (\<exists>r' t. takes n2r_next 2 (demo_socket\<lparr>bound_dock := endpoint_new (demo_fp 2) 6\<rparr>,
            fold (net_step demo_denv demo_wires) us (demo_net(demo_fp 1 := s')) (demo_fp 2)) =
          Some ([([1, 2], endpoint_new (demo_fp 1) 5), ([3], endpoint_new (demo_fp 1) 5)], (r', t)) \<and> n2r_recv_from r' t = None))"
proof -
  let ?r = "demo_socket\<lparr>bound_dock := endpoint_new (demo_fp 2) 6\<rparr>"
  note net = demo_net_facts
  have fits: "length (bincode_serialize demo_denv (Message (message_new 5 6 [[1, 2], [3]]))) \<le> 8172"
    by (simp add: demo_denv_same demo_serialize_def put_message_def put_nat_def put_bytes_def message_new_def)
  have sizes: "batch_size [[1, 2], [3]] \<le> LIMIT" by (simp add: OVERHEAD_def LIMIT_def)
  have sender: "sock_isk demo_socket = global_identity (demo_net (demo_fp 1))" "bound_dock demo_socket = endpoint_new (demo_fp 1) 5"
      "outgoing_queue demo_socket = map (\<lambda>m. (m, endpoint_new (demo_fp 2) 6)) [[1, 2], [3]]"
    unfolding net by (simp_all add: demo_socket_def)
  have two: "length [demo_fp 1, demo_fp 2] \<le> 10" and ne: "[[1, 2], [3 :: 8 word]] \<noteq> []" by simp_all
  have receiver: "bound_dock ?r = endpoint_new (demo_fp 2) 6" "incoming_queue ?r = []" by (simp_all add: demo_socket_def)
  show ?thesis
    using sockets_across_network[of demo_denv demo_lru_ok demo_net "demo_fp 1" "demo_fp 2" demo_wires "[demo_fp 1, demo_fp 2]"
        demo_socket 5 6 "[[1, 2], [3]]" "\<lambda>_. [endpoint_new (demo_fp 2) 6]" ?r, unfolded net(3),
        OF demo_daemon_laws net(5) demo_net_quiet net(1,2) demo_net_honest demo_net_joined net(6) demo_route_exists two
          sender ne sizes refl fits receiver net(7)]
    unfolding net(3) by (simp add: numeral_2_eq_2)
qed

end
