(* ===== verification/Node_Run.thy ===== *)
theory Node_Run
  imports Startup Network
begin

text \<open>
  Runs of a whole daemon.  Everything that changes the state of a daemon, by its own tasks, its
  neighbours, its sockets or the expiry of its caches, is an operation; a run is any sequence of them from
  the start of the daemon on.  The states that runs reach are consistent, and from each of
  them every operation ends without a panic.
\<close>

section \<open>Operations\<close>

datatype run_op =
    NodeOp node_op
  | BindOp "nat \<Rightarrow> dock" identity_secret "dock option"
  | RecvOp n2r_socket
  | DropOp n2r_socket
  | ExpireOp "u64 set" "(identity_secret \<times> fingerprint) set"

fun run_step :: "('l, 'z) daemon_env_scheme \<Rightarrow> run_op \<Rightarrow> 'l daemon \<Rightarrow> 'l daemon" where
  "run_step E (NodeOp a) s = node_step E a s"
| "run_step E (BindOp draw isk d) s = (case n2r_bind E draw isk d s of None \<Rightarrow> s | Some (_, s') \<Rightarrow> s')"
| "run_step E (RecvOp k) s = (case n2r_recv_from k s of None \<Rightarrow> s | Some (_, _, s') \<Rightarrow> s')"
| "run_step E (DropOp k) s = n2r_drop k s"
| "run_step E (ExpireOp ids keys) s = expire ids keys s"

text \<open>A procedure returns, and not with a panic.\<close>

definition returns :: "(('e, 'a) res \<times> 's) option \<Rightarrow> bool" where
  "returns run \<longleftrightarrow> (case run of None \<Rightarrow> False | Some (r, _) \<Rightarrow> r \<noteq> Inl Panic)"

fun node_fine :: "('l, 'z) daemon_env_scheme \<Rightarrow> node_op \<Rightarrow> 'l daemon \<Rightarrow> bool" where
  "node_fine E OpPacket s = (case peel_forward_turn E s of None \<Rightarrow> True | Some run \<Rightarrow> returns run)"
| "node_fine E (OpSend isk d dst dd content) s = returns (send_n2r E isk d dst dd content s)"
| "node_fine E (OpGossip now sample peer remote) s = returns (gossip_once E now sample peer remote s)"
| "node_fine E (OpGossipTurn now am_i_relay order pick) s = returns (gossip_turn E now am_i_relay order pick s)"
| "node_fine E (OpInRoute now c resp pk) s = returns (in_route_accept E now c resp pk s)"
| "node_fine E (OpOutRoute now fp c in_time pipe resp pk) s = returns (out_route_turn E now fp c in_time pipe resp pk s)"
| "node_fine E _ s = True"

text \<open>A neighbour answers with at most \<open>n\<close> adjacencies at a time.\<close>

definition modest :: "nat \<Rightarrow> run_op \<Rightarrow> bool" where
  "modest n a \<longleftrightarrow> (\<forall>now sample peer remote fps adjs.
     a = NodeOp (OpGossip now sample peer remote) \<longrightarrow> rpc_adjacencies peer fps = Inr adjs \<longrightarrow> length adjs \<le> n)"

section \<open>The invariant\<close>

definition links_in :: "'l daemon \<Rightarrow> conn \<rightharpoonup> raw_packet list" where
  "links_in s = (\<lambda>c. map_option recv_incoming (links s c))"

interpretation inbox_frame: graphless_view links_in
  by unfold_locales (auto simp: links_in_def send_raw_packet_def option.map_comp o_def)

definition node_ok :: "('l, 'z) daemon_env_scheme \<Rightarrow> ('l \<Rightarrow> bool) \<Rightarrow> nat \<Rightarrow> 'l daemon \<Rightarrow> bool" where
  "node_ok E ok k s \<longleftrightarrow> roomy E ok k s \<and> (\<forall>c q. links_in s c = Some q \<longrightarrow> wf_queue q)"

lemma node_ok_inv: "node_ok E ok k s \<Longrightarrow> daemon_inv E ok s"
  by (simp add: node_ok_def roomy_def)

lemma node_ok_mono: "node_ok E ok k s \<Longrightarrow> j \<le> k \<Longrightarrow> node_ok E ok j s"
  by (auto simp: node_ok_def elim: roomy_mono)

text \<open>What sending and peeling do.\<close>

lemma safe_step:
  assumes "safe E ok m s P" "node_ok E ok k s" "unchanged graph m" "unchanged links_in m"
  shows "returns (m s) \<and> node_ok E ok k (after m s)"
proof -
  obtain r s' where m: "m s = Some (r, s')" "r \<noteq> Inl Panic" "daemon_inv E ok s'"
    using assms(1) by (auto simp: safe_def total_def)
  moreover have "graph s' = graph s" "links_in s' = links_in s"
    using assms(3,4)[THEN framedD] m(1) by auto
  ultimately show ?thesis using assms(2) by (simp add: returns_def after_def node_ok_def roomy_def)
qed

lemma total_step:
  assumes "total m s (\<lambda>r s'. roomy E ok j s')" "node_ok E ok k s" "unchanged links_in m"
  shows "returns (m s) \<and> node_ok E ok j (after m s)"
proof -
  obtain r s' where m: "m s = Some (r, s')" "r \<noteq> Inl Panic" "roomy E ok j s'" using assms(1) by (auto simp: total_def)
  moreover have "links_in s' = links_in s" using framedD[OF assms(3)] m(1) by auto
  ultimately show ?thesis using assms(2) by (simp add: returns_def after_def node_ok_def)
qed

lemma node_ok_upd:
  assumes "node_ok E ok k s" "graph s' = graph s" "anon_dests s' = anon_dests s" "wf_queue (neigh_incoming (neigh s'))"
    "\<And>ep q. socket_recv_queues s' ep = Some q \<Longrightarrow> length q \<le> 1000"
    "\<And>c l. links s' c = Some l \<Longrightarrow> wf_queue (send_outgoing l) \<and> wf_queue (recv_incoming l)"
  shows "node_ok E ok k s'"
  using assms by (auto simp: node_ok_def roomy_def daemon_inv_def links_in_def)

lemma node_ok_parts:
  assumes "node_ok E ok k s"
  shows "wf_queue (neigh_incoming (neigh s))" "\<And>ep q. socket_recv_queues s ep = Some q \<Longrightarrow> length q \<le> 1000"
    "\<And>c l. links s c = Some l \<Longrightarrow> wf_queue (send_outgoing l)" "\<And>c l. links s c = Some l \<Longrightarrow> wf_queue (recv_incoming l)"
proof -
  show "wf_queue (neigh_incoming (neigh s))" "\<And>ep q. socket_recv_queues s ep = Some q \<Longrightarrow> length q \<le> 1000"
    "\<And>c l. links s c = Some l \<Longrightarrow> wf_queue (send_outgoing l)"
    using node_ok_inv[OF assms] by (simp_all add: daemon_inv_def)
  show "wf_queue (recv_incoming l)" if "links s c = Some l" for c l
  proof -
    have "links_in s c = Some (recv_incoming l)" using that by (simp add: links_in_def)
    then show ?thesis using assms unfolding node_ok_def by blast
  qed
qed

lemma wf_queue_Cons: "wf_queue (p # ps) \<longleftrightarrow> wf_packet p \<and> wf_queue ps \<and> length ps < 100"
  by (auto simp: wf_queue_def)

lemma wf_queue_Nil [simp]: "wf_queue []"
  by (simp add: wf_queue_def)

text \<open>New links start with empty queues.\<close>

lemma link_connect_empty: "link_connect C resp pk = Inr l \<Longrightarrow> send_outgoing l = [] \<and> recv_incoming l = []"
  unfolding link_connect_def by (auto split: option.splits sum.splits)

lemma node_ok_in_route:
  assumes "node_ok E ok k s"
  shows "returns (in_route_accept E now c resp pk s) \<and> node_ok E ok k (after (in_route_accept E now c resp pk) s)"
proof (cases "link_connect E resp pk")
  case (Inl e)
  then show ?thesis using assms by (simp add: in_route_accept_def returns_def after_def)
next
  case (Inr l)
  then show ?thesis using node_ok_parts[OF assms] link_connect_empty[OF Inr]
    by (auto simp: in_route_accept_def returns_def after_def neigh_insert_def neigh_insert_inner_def
        intro!: node_ok_upd[OF assms] split: if_splits)
qed

lemma node_ok_out_route:
  assumes "node_ok E ok k s"
  shows "returns (out_route_turn E now fp c in_time pipe resp pk s) \<and> node_ok E ok k (after (out_route_turn E now fp c in_time pipe resp pk) s)"
proof (cases "link_connect E resp pk")
  case (Inl e)
  then show ?thesis using assms by (simp add: out_route_turn_def returns_def after_def)
next
  case (Inr l)
  then show ?thesis using assms node_ok_parts[OF assms] link_connect_empty[OF Inr]
    by (auto simp: out_route_turn_def returns_def after_def neigh_insert_pinned_def neigh_insert_inner_def
        intro!: node_ok_upd[OF assms] split: if_splits)
qed

lemma node_ok_pump:
  assumes "node_ok E ok k s"
  shows "node_ok E ok k (node_step E (OpPump c) s)"
proof (cases "links s c")
  case (Some l)
  show ?thesis
  proof (cases "recv_incoming l")
    case (Cons p ps)
    have "wf_packet p" "wf_queue ps" using node_ok_parts(4)[OF assms Some] Cons by (auto simp: wf_queue_Cons)
    then show ?thesis using Some Cons node_ok_parts[OF assms]
      by (auto simp: neigh_pump_def inject_asif_incoming_def wf_queue_send intro!: node_ok_upd[OF assms] split: if_splits)
  qed (use assms Some in \<open>simp add: neigh_pump_def\<close>)
qed (use assms in simp)

lemma node_ok_wire:
  assumes "node_ok E ok k s"
  shows "node_ok E ok k (node_step E (OpWireUp c) s)" "node_ok E ok k (node_step E (OpWireDn c b) s)"
proof -
  have tl: "wf_queue ps" if "links s d = Some l" "send_outgoing l = p # ps" for d l p ps
    using node_ok_parts(3)[OF assms that(1)] that(2) by (simp add: wf_queue_Cons)
  show "node_ok E ok k (node_step E (OpWireUp c) s)"
    using assms node_ok_parts[OF assms] tl
    by (auto simp: onion_up_def intro!: node_ok_upd[OF assms] split: option.splits list.splits if_splits)
  show "node_ok E ok k (node_step E (OpWireDn c b) s)"
    using assms node_ok_parts[OF assms]
    by (auto simp: onion_dn_def try_send_def packet_wire_roundtrip wf_queue_def intro!: node_ok_upd[OF assms] split: option.splits if_splits)
qed

lemma node_ok_packet:
  assumes laws: "daemon_laws E ok" and s: "node_ok E ok k s"
  shows "node_fine E OpPacket s \<and> node_ok E ok k (node_step E OpPacket s)"
proof (cases "neigh_incoming (neigh s)")
  case Nil
  then show ?thesis using s by (simp add: peel_forward_turn_def recv_raw_packet_def)
next
  case (Cons p ps)
  let ?t = "s\<lparr>neigh := (neigh s)\<lparr>neigh_incoming := ps\<rparr>\<rparr>"
  have p: "wf_packet p" "wf_queue ps" using node_ok_parts(1)[OF s] Cons by (auto simp: wf_queue_Cons)
  have t: "node_ok E ok k ?t" by (rule node_ok_upd[OF s]) (use p node_ok_parts[OF s] in auto)
  have "safe E ok (peel_forward E p) ?t (\<lambda>_. True)" by (rule safe_peel_forward[OF laws node_ok_inv[OF t] p(1)])
  then have "returns (peel_forward E p ?t) \<and> node_ok E ok k (after (peel_forward E p) ?t)"
    using t by (rule safe_step) (intro frame_rules)+
  then show ?thesis using Cons
    by (cases "peel_forward E p ?t") (auto simp: peel_forward_turn_def recv_raw_packet_def after_def returns_def)
qed

lemma node_ok_sign:
  assumes laws: "daemon_laws E ok" and s: "node_ok E ok k s"
  shows "node_ok E ok k (node_step E (OpSign now a) s)"
proof -
  have g: "graph_inv E (graph s)" using node_ok_inv[OF s] by (simp add: daemon_inv_def)
  have "node_ok E ok k (s\<lparr>graph := snd (insert_adjacency E now (graph s) b)\<rparr>)" for b
    using s insert_adjacency_inv[OF g daemon_lawsD(2)[OF laws]] insert_adjacency_unalloc[OF g daemon_lawsD(2)[OF laws]]
    by (simp add: node_ok_def roomy_def daemon_inv_def links_in_def)
  then show ?thesis using s by (auto simp: handle_sign_adjacency_def Let_def split_beta)
qed

lemma node_step_ok:
  assumes laws: "daemon_laws E ok" and s: "node_ok E ok (Suc (k + 2 * n)) s" and m: "modest n (NodeOp a)"
  shows "node_fine E a s \<and> node_ok E ok k (node_step E a s)"
proof -
  have sk: "node_ok E ok k s" and s1: "node_ok E ok (Suc k) s" using s by (auto elim: node_ok_mono)
  show ?thesis
  proof (cases a)
    case OpPacket
    then show ?thesis using node_ok_packet[OF laws sk] by simp
  next
    case (OpSend isk d dst dd content)
    have "safe E ok (send_n2r E isk d dst dd content) s (\<lambda>_. True)" by (rule safe_send_n2r[OF laws node_ok_inv[OF sk]])
    then show ?thesis using safe_step[OF _ sk, of "send_n2r E isk d dst dd content"] OpSend by (simp add: frame_rules)
  next
    case (OpGossip now sample peer remote)
    have few: "length adjs \<le> n" if "rpc_adjacencies peer fps = Inr adjs" for fps adjs
      using m that OpGossip unfolding modest_def by blast
    have "total (gossip_once E now sample peer remote) s (\<lambda>r s'. roomy E ok k s')"
      using total_gossip_once[OF laws _ few] s by (simp add: node_ok_def)
    from total_step[OF this s inbox_frame.framed_gossip_once] show ?thesis using OpGossip by simp
  next
    case (OpGossipTurn now am_i_relay order pick)
    have "total (gossip_turn E now am_i_relay order pick) s (\<lambda>r s'. roomy E ok k s')"
      by (rule total_gossip_turn) (use s1 in \<open>simp add: node_ok_def\<close>)
    from total_step[OF this s inbox_frame.framed_gossip_turn] show ?thesis using OpGossipTurn by simp
  next
    case (OpCollect now)
    then show ?thesis using node_ok_parts[OF sk] by (auto simp: garbage_collect_def intro!: node_ok_upd[OF sk])
  qed (use node_ok_sign[OF laws sk] node_ok_in_route[OF sk] node_ok_out_route[OF sk] node_ok_pump[OF sk] node_ok_wire[OF sk] sk in auto)
qed

text \<open>Sockets and expiry.\<close>

lemma run_step_ok:
  assumes laws: "daemon_laws E ok" and s: "node_ok E ok (Suc (k + 2 * n)) s" and m: "modest n a"
  shows "node_ok E ok k (run_step E a s)"
proof -
  have sk: "node_ok E ok k s" using s by (auto elim: node_ok_mono)
  note parts = node_ok_parts[OF sk]
  show ?thesis
  proof (cases a)
    case (NodeOp b)
    then show ?thesis using node_step_ok[OF laws s] m by simp
  next
    case (BindOp draw isk d)
    then show ?thesis using sk parts
      by (auto simp: n2r_bind_def Let_def intro!: node_ok_upd[OF sk] split: option.splits if_splits)
  next
    case (RecvOp r)
    have shorter: "length q' \<le> length q" if "recv_loop inq q = Some (x, inq', q')" for inq q x inq' q'
      using that by (induction inq q rule: recv_loop.induct) auto
    show ?thesis
    proof (cases "n2r_recv_from r s")
      case (Some y)
      obtain x r' s' where y: "y = (x, r', s')" by (cases y)
      have "node_ok E ok k s'"
        using Some y sk parts shorter unfolding n2r_recv_from_def
        by (fastforce intro!: node_ok_upd[OF sk] split: list.splits option.splits if_splits)
      then show ?thesis using RecvOp Some y by simp
    qed (use RecvOp sk in simp)
  next
    case (DropOp r)
    then show ?thesis using sk parts by (auto simp: n2r_drop_def intro!: node_ok_upd[OF sk] split: if_splits)
  next
    case (ExpireOp ids keys)
    then show ?thesis using sk parts by (auto simp: expire_def intro!: node_ok_upd[OF sk])
  qed
qed

lemma run_ok:
  assumes "daemon_laws E ok"
  shows "node_ok E ok (k + length ops * Suc (2 * n)) s \<Longrightarrow> \<forall>a \<in> set ops. modest n a \<Longrightarrow> node_ok E ok k (fold (run_step E) ops s)"
proof (induction ops arbitrary: s)
  case (Cons a ops)
  have "node_ok E ok (k + length ops * Suc (2 * n)) (run_step E a s)"
    using run_step_ok[OF assms, of "k + length ops * Suc (2 * n)" n s a] Cons.prems by (simp add: algebra_simps)
  then show ?case using Cons by simp
qed simp

section \<open>Properties\<close>

text \<open>
  (C5) A daemon never panics and never hangs.  From the start of a daemon on, let its tasks, its
  neighbours (which may send any bytes and answer anything), its sockets and the expiry of its caches act in any
  order and number.  The state reached is consistent, and from it every operation returns without
  a panic: the processing of the next packet, a send, a round of gossip, a new link.  The bound is
  that of the 64-bit identifiers of the graph, of which an operation uses at most two for each
  adjacency a neighbour reports, and one more.
\<close>

theorem daemon_run_safe:
  assumes laws: "daemon_laws E ok" and modest: "\<forall>a \<in> set ops. modest n a" "modest n (NodeOp a)"
    and bound: "Suc (length ops) * (2 * n + 1) < 2 ^ 64"
  shows "daemon_inv E ok (fold (run_step E) ops (daemon_new E isk)) \<and>
         node_fine E a (fold (run_step E) ops (daemon_new E isk))"
proof -
  let ?k = "Suc (0 + 2 * n)"
  have "roomy E ok (?k + length ops * Suc (2 * n)) (daemon_new E isk)"
    using daemon_new_inv[OF laws, of isk] bound by (simp add: roomy_def daemon_new_def relay_graph_new_def)
  then have "node_ok E ok (?k + length ops * Suc (2 * n)) (daemon_new E isk)"
    by (simp add: node_ok_def links_in_def daemon_new_def)
  then have ok: "node_ok E ok ?k (fold (run_step E) ops (daemon_new E isk))" by (rule run_ok[OF laws _ modest(1)])
  then show ?thesis using node_step_ok[OF laws ok modest(2)] node_ok_inv by blast
qed

theorem daemon_run_safe_witness:
  "daemon_inv demo_denv demo_lru_ok (fold (run_step demo_denv)
     [NodeOp (OpGossipTurn 1000 True [] 0), NodeOp (OpGossip 1000 (take 10) demo_peer (identity_public_of demo_denv (demo_isk 2))),
      BindOp (\<lambda>n. of_nat n) (demo_isk 1) (Some 5), NodeOp (OpSend (demo_isk 1) 5 (demo_fp 1) 5 [[1, 2, 3]])]
     (daemon_new demo_denv (demo_isk 1))) \<and>
   node_fine demo_denv OpPacket (fold (run_step demo_denv)
     [NodeOp (OpGossipTurn 1000 True [] 0), NodeOp (OpGossip 1000 (take 10) demo_peer (identity_public_of demo_denv (demo_isk 2))),
      BindOp (\<lambda>n. of_nat n) (demo_isk 1) (Some 5), NodeOp (OpSend (demo_isk 1) 5 (demo_fp 1) 5 [[1, 2, 3]])]
     (daemon_new demo_denv (demo_isk 1)))"
  by (rule daemon_run_safe[where n = 2]) (simp_all add: demo_daemon_laws modest_def demo_peer_def)

section \<open>Reply blocks answer once\<close>

text \<open>An identifier that has no degarbler and will not be drawn again.\<close>

definition spent :: "('l, 'z) daemon_env_scheme \<Rightarrow> u64 \<Rightarrow> 'l daemon \<Rightarrow> bool" where
  "spent E i s \<longleftrightarrow> degarblers s i = None \<and> (\<forall>n \<ge> rng s. rand_u64 E n \<noteq> i)"

interpretation spent: stable_node E "spent E i" for E :: "('l, 'z) daemon_env_scheme" and i
proof
  show "stable_proc (spent E i) (one_reply_block E ins osk isk)" for ins osk isk
    by (auto simp: stable_proc_def one_reply_block_def spent_def reply_block_new_def Let_def res_simps split: sum.splits)
qed (auto simp: spent_def stable_proc_def inject_def modify_def build_packet_def anon_osk_def process_inner_pkt_def forward_packet_def Let_def
    split: option.splits inner_packet.splits)

lemma spent_run_step:
  assumes "spent E i s"
  shows "spent E i (run_step E a s)"
proof (cases a)
  case (NodeOp b)
  then show ?thesis using spent.keeps_node_step[OF assms] by simp
qed (use assms in \<open>auto simp: spent_def n2r_bind_def Let_def n2r_recv_from_def n2r_drop_def expire_def restrict_map_def split: option.splits list.splits if_splits\<close>)

lemma spent_run: "spent E i s \<Longrightarrow> spent E i (fold (run_step E) ops s)"
  by (induction ops arbitrary: s) (simp_all add: spent_run_step)

text \<open>The packet that uses a reply block removes its degarbler before anything else.\<close>

lemma garbled_spends:
  assumes d: "degarblers s i = Some d" and fresh: "\<And>n. rng s \<le> n \<Longrightarrow> rand_u64 E n \<noteq> i"
    and run: "process_garbled E i b s = Some (r, s')"
  shows "spent E i s'"
proof -
  let ?rest = "bind_proc (lift_res (\<lambda>s. map_err DegarbleError (degarble E d b))) (\<lambda>(p, src_fp).
          bind_proc (modify (decrement_rrb_balance (my_anon_isk d) src_fp)) (\<lambda>_.
          bind_proc (map_err_proc ReplenishError (replenish_rrb E (my_anon_isk d) src_fp)) (\<lambda>_.
            process_inner_pkt E p src_fp (my_fingerprint E (my_anon_isk d)))))"
  have st: "stable_proc (spent E i) ?rest" by (intro stable_rules spent.stable_replenish spent.stable_steps spent.keeps_balance)
  have eq: "process_garbled E i b s = ?rest (s\<lparr>degarblers := (degarblers s)(i := None)\<rparr>)"
    using d by (simp add: process_garbled_def bind_proc_def lift_res_def proc_simps)
  have "spent E i (s\<lparr>degarblers := (degarblers s)(i := None)\<rparr>)" using fresh by (simp add: spent_def)
  then show ?thesis by (rule stable_procD[OF st _ run[unfolded eq]])
qed

lemma spent_refused: "spent E i s \<Longrightarrow> process_garbled E i b s = Some (Inl (Err (NoDegarbler i)), s)"
  by (simp add: spent_def process_garbled_def bind_proc_def lift_res_def)

text \<open>
  (C20) A reply block answers once.  Whatever becomes of the first packet that carries its identifier
  (delivered, undecodable, or stopped by a failed replenishing), and whatever the daemon does afterwards, in any number of
  operations of its tasks, its neighbours, its sockets and the expiry of its caches, a later packet with that
  identifier is refused with \<open>NoDegarbler\<close> and changes nothing.  The identifier is 64 random bits; the
  hypothesis is that no later reply block draws the same one again.
\<close>

theorem reply_block_answers_once:
  assumes "degarblers s i = Some d" and "\<And>n. rng s \<le> n \<Longrightarrow> rand_u64 E n \<noteq> i"
    and "process_garbled E i b s = Some (r, s')" and "s'' = fold (run_step E) ops s'"
  shows "process_garbled E i b' s'' = Some (Inl (Err (NoDegarbler i)), s'')"
  unfolding assms(4) by (rule spent_refused[OF spent_run[OF garbled_spends[OF assms(1-3)]]])

definition demo_degarbler :: reply_degarbler where
  "demo_degarbler = \<lparr>shared_secs = [], my_anon_osk = OnionSecret [1], my_anon_isk = demo_isk 3\<rparr>"

theorem reply_block_answers_once_witness:
  "\<exists>r s'. process_garbled demo_denv 3 [] (demo_daemon\<lparr>degarblers := [3 \<mapsto> demo_degarbler]\<rparr>) = Some (r, s') \<and>
     (let s'' = fold (run_step demo_denv) [NodeOp OpPacket, NodeOp (OpSend (demo_isk 3) 5 (demo_fp 2) 5 [[1, 2, 3]]), NodeOp (OpCollect 0)] s'
      in process_garbled demo_denv 3 [] s'' = Some (Inl (Err (NoDegarbler 3)), s''))"
proof -
  let ?s = "demo_daemon\<lparr>degarblers := [3 \<mapsto> demo_degarbler]\<rparr>"
  have "daemon_inv demo_denv demo_lru_ok ?s" using demo_daemon_inv by (simp add: daemon_inv_def)
  then obtain r s' where r: "process_garbled demo_denv 3 [] ?s = Some (r, s')"
    using safe_process_garbled[OF demo_daemon_laws] unfolding safe_def total_def by blast
  let ?s'' = "fold (run_step demo_denv) [NodeOp OpPacket, NodeOp (OpSend (demo_isk 3) 5 (demo_fp 2) 5 [[1, 2, 3]]), NodeOp (OpCollect 0)] s'"
  have "process_garbled demo_denv 3 [] ?s'' = Some (Inl (Err (NoDegarbler 3)), ?s'')"
    by (rule reply_block_answers_once[OF _ _ r refl]) (simp_all add: demo_denv_defs)
  then show ?thesis using r unfolding Let_def by blast
qed

end
