(* ===== verification/Reply_Network.thy ===== *)
theory Reply_Network
  imports Network
begin

text \<open>
  Replies, one node at a time: a node answers an anonymous correspondent with one of its reply blocks; the
  daemon that made the block degarbles the reply, counts it and queues it for the socket of the
  anonymous identity; a node makes reply blocks and sends them.  \<open>First_Contact\<close> puts these together.
\<close>

section \<open>The arrival of a reply\<close>

lemma replenish_enough:
  assumes "100 \<le> balance_of s isk fp"
  shows "\<exists>bt. replenish_rrb E isk fp s = Some (Inr (), s\<lparr>balance_table := bt\<rparr>)"
proof -
  obtain b s1 where b: "rb_balance isk fp s = (b, s1)" by (cases "rb_balance isk fp s")
  have "b = balance_of s isk fp" using rb_balance_value[of isk fp s] b by simp
  moreover have "\<exists>bt. s1 = s\<lparr>balance_table := bt\<rparr>"
  proof (cases "balance_table s (isk, fp)")
    case (Some x)
    then have "s1 = s\<lparr>balance_table := balance_table s\<rparr>" using b by (simp add: rb_balance_def)
    then show ?thesis by blast
  qed (use b in \<open>auto simp: rb_balance_def\<close>)
  ultimately show ?thesis using b assms by (auto simp: replenish_rrb.simps[of E isk fp s])
qed

text \<open>The state in which the balance of a correspondent is replenished when its reply has been degarbled.\<close>

definition counted :: "u64 \<Rightarrow> reply_degarbler \<Rightarrow> fingerprint \<Rightarrow> 'l daemon \<Rightarrow> 'l daemon" where
  "counted i d src s = decrement_rrb_balance (my_anon_isk d) src (s\<lparr>degarblers := (degarblers s)(i := None)\<rparr>)"

lemma counted_balance: "balance_of (counted i d src s) (my_anon_isk d) src = balance_of s (my_anon_isk d) src - 1"
  by (cases "balance_table s (my_anon_isk d, src)") (simp_all add: counted_def decrement_rrb_balance_def balance_of_def rb_balance_def)

lemma counted_effect: "\<exists>bt. counted i d src s = s\<lparr>degarblers := (degarblers s)(i := None), balance_table := bt\<rparr>"
  by (cases "balance_table s (my_anon_isk d, src)") (auto simp: counted_def decrement_rrb_balance_def rb_balance_def)

lemma garbled_replenished:
  assumes known: "degarblers s i = Some d" "degarble E d b = Inr (Message m, src)"
    and rep: "replenish_rrb E (my_anon_isk d) src (counted i d src s) = Some (Inr (), s')"
    and room: "socket_recv_queues s' (endpoint_new (my_fingerprint E (my_anon_isk d)) (dest_dock m)) = Some w" "length w < 1000"
  shows "process_garbled E i b s = Some (Inr (), s'\<lparr>socket_recv_queues :=
     (socket_recv_queues s')(endpoint_new (my_fingerprint E (my_anon_isk d)) (dest_dock m) \<mapsto> w @ [(m, src)])\<rparr>)"
proof -
  have "process_garbled E i b s = bind_proc (map_err_proc ReplenishError (replenish_rrb E (my_anon_isk d) src))
      (\<lambda>_. process_inner_pkt E (Message m) src (my_fingerprint E (my_anon_isk d))) (counted i d src s)"
    using known by (simp add: process_garbled_def bind_proc_def[where m = "lift_res _"] lift_res_def counted_def)
  then show ?thesis using rep room by (simp add: bind_proc_def map_err_proc_def process_inner_pkt_def try_send_def)
qed

section \<open>A reply is sent\<close>

lemma send_with_block:
  assumes laws: "daemon_laws E ok" and inv: "daemon_inv E ok s"
    and held: "rb_stack (lru E) (anon_dests s) dst = rb # rbs"
    and enc: "inner_encode E (Message (message_new sd dd content)) (global_identity s) = Inr raw"
  shows "send_n2r E (global_identity s) sd dst dd content s = Some (Inr (), s\<lparr>anon_dests := snd (rb_store_pop (lru E) dst (anon_dests s)),
      neigh := inject_asif_incoming \<lparr>header = rb_header rb, onion_body = raw\<rparr> (neigh s)\<rparr>)"
proof -
  have st: "rb_store_inv (lru E) ok (anon_dests s)" using inv by (simp add: daemon_inv_def)
  then have "fst (rb_store_pop (lru E) dst (anon_dests s)) = Some rb"
    using rb_store_pop_effect(2)[OF daemon_lawsD(4)[OF laws]] held by simp
  then show ?thesis using enc
    by (simp add: send_n2r_def bind_proc_def[where m = "lift_res _"] lift_res_def new_reply_def inject_def proc_simps)
qed

section \<open>Reply blocks are made and sent\<close>

text \<open>
  The sizes of two serialised packets: a batch of reply blocks and the empty message a reply block is cut
  from fit the payload of a packet.
\<close>

definition blocks_fit :: "'z packet_env_scheme \<Rightarrow> nat \<Rightarrow> bool" where
  "blocks_fit E k \<longleftrightarrow> length (bincode_serialize E (Message \<lparr>source_dock = 0, dest_dock = 0, body = [[]]\<rparr>)) \<le> 8172 \<and>
     (\<forall>rbs. length rbs = k \<longrightarrow> list_all wf_reply_block rbs \<longrightarrow> length (bincode_serialize E (ReplyBlocks rbs)) \<le> 8172)"

lemma reply_block_ok:
  assumes laws: "packet_laws E" and g: "length garbage = 621" and r: "route_for E sks ins" "length ins < 10" and fit: "blocks_fit E k"
  obtains rb d where "reply_block_new E eph garbage i ins (onion_public_of E osk) aosk aisk = Inr (rb, (i, d))" "wf_reply_block rb"
proof -
  obtain rb d where new: "reply_block_new E eph garbage i ins (onion_public_of E osk) aosk aisk = Inr (rb, (i, d))"
    using reply_block_new_total[OF laws r, of eph garbage i osk aosk aisk] fit unfolding blocks_fit_def by blast
  then obtain raw secs where raw: "raw_new E eph garbage ins (onion_public_of E osk)
        (Message \<lparr>source_dock = 0, dest_dock = 0, body = [[]]\<rparr>) (rb_metadata i) aisk = Inr (raw, secs)"
      and rb: "rb = \<lparr>rb_header = header raw, e2e_dest = onion_public_of E aosk\<rparr>"
    by (auto simp: reply_block_new_def Let_def res_simps)
  have "case raw_new E eph garbage ins (onion_public_of E osk) (Message \<lparr>source_dock = 0, dest_dock = 0, body = [[]]\<rparr>)
      (rb_metadata i) aisk of Inl f \<Rightarrow> f \<noteq> Panic | Inr (pkt, secs) \<Rightarrow> wf_packet pkt"
    by (rule raw_new_safe[OF laws g length_rb_metadata]) (use r(1) in \<open>simp add: route_for_def list_all_iff\<close>)
  then have "wf_packet raw" by (simp add: raw)
  then have "wf_reply_block rb" using laws by (simp add: rb wf_reply_block_def wf_packet_def)
  then show thesis using new that by blast
qed

lemma make_blocks:
  assumes laws: "daemon_laws E ok" and r: "route_for E sks ins" "length ins < 10" and fit: "blocks_fit E k"
  shows "\<exists>rbs rb dg d. make_reply_blocks E (Suc n) ins osk isk s = Some (Inr (rbs @ [rb]), s\<lparr>degarblers := dg, rng := rng s + Suc n\<rparr>) \<and>
     length rbs = n \<and> list_all wf_reply_block (rbs @ [rb]) \<and> dg (rand_u64 E (rng s + n)) = Some d \<and>
     reply_block_new E (rand_eph E (rng s + n)) (rand_garbage E (rng s + n)) (rand_u64 E (rng s + n)) ins
       (onion_public_of E (global_onion_sk s)) osk isk = Inr (rb, (rand_u64 E (rng s + n), d))"
proof (induction n arbitrary: s)
  case 0
  obtain rb d where "reply_block_new E (rand_eph E (rng s)) (rand_garbage E (rng s)) (rand_u64 E (rng s)) ins
       (onion_public_of E (global_onion_sk s)) osk isk = Inr (rb, (rand_u64 E (rng s), d))" "wf_reply_block rb"
    using reply_block_ok[OF daemon_lawsD(1,5)[OF laws] r fit] by blast
  then show ?case by (auto simp: one_reply_block_def bind_proc_def proc_simps)
next
  case (Suc n)
  let ?i = "rand_u64 E (rng s)"
  obtain rb0 d0 where 0: "reply_block_new E (rand_eph E (rng s)) (rand_garbage E (rng s)) ?i ins
       (onion_public_of E (global_onion_sk s)) osk isk = Inr (rb0, (?i, d0))" "wf_reply_block rb0"
    using reply_block_ok[OF daemon_lawsD(1,5)[OF laws] r fit] by blast
  let ?s = "s\<lparr>degarblers := (degarblers s)(?i \<mapsto> d0), rng := Suc (rng s)\<rparr>"
  have one: "one_reply_block E ins osk isk s = Some (Inr rb0, ?s)" using 0 by (simp add: one_reply_block_def)
  obtain rbs rb dg d where more: "make_reply_blocks E (Suc n) ins osk isk ?s = Some (Inr (rbs @ [rb]), ?s\<lparr>degarblers := dg, rng := rng ?s + Suc n\<rparr>)"
      "length rbs = n" "list_all wf_reply_block (rbs @ [rb])" "dg (rand_u64 E (rng ?s + n)) = Some d"
      "reply_block_new E (rand_eph E (rng ?s + n)) (rand_garbage E (rng ?s + n)) (rand_u64 E (rng ?s + n)) ins
       (onion_public_of E (global_onion_sk ?s)) osk isk = Inr (rb, (rand_u64 E (rng ?s + n), d))"
    using Suc.IH[of ?s] by blast
  have "make_reply_blocks E (Suc (Suc n)) ins osk isk s =
      Some (Inr ((rb0 # rbs) @ [rb]), s\<lparr>degarblers := dg, rng := rng s + Suc (Suc n)\<rparr>)"
    unfolding make_reply_blocks.simps(2)[of E "Suc n"] using one more(1) by (simp add: bind_proc_def proc_simps)
  then show ?case using more(2-5) 0(2) by (intro exI[of _ "rb0 # rbs"] exI[of _ rb] exI[of _ dg] exI[of _ d]) simp
qed

lemma is_route_rev: "is_route g a b p \<Longrightarrow> is_route g b a (rev p)"
proof -
  have "linked g x y = linked g y x" for x y by (auto simp: linked_def)
  then show "is_route g a b p \<Longrightarrow> is_route g b a (rev p)"
    by (simp add: is_route_def hd_rev last_rev successively_rev)
qed

lemma shortest_leaves:
  assumes "is_route g a b p" "\<And>q. is_route g a b q \<Longrightarrow> length p \<le> length q"
  shows "a \<notin> set (tl p)"
proof
  assume "a \<in> set (tl p)"
  then obtain xs ys where tl: "tl p = xs @ a # ys" by (meson split_list)
  have p: "p = a # xs @ a # ys" using assms(1) tl by (cases p) (auto simp: is_route_def)
  then have "is_route g a b (a # ys)" using assms(1) by (auto simp: is_route_def successively_append_iff successively_Cons)
  then show False using assms(2)[of "a # ys"] p by simp
qed

lemma shortest_found:
  assumes laws: "daemon_laws E ok" and inv: "daemon_inv E ok s" and route: "is_route (graph s) a b q" "length q \<le> 10"
    and honest: "\<And>fp d. identity (graph s) fp = Some d \<Longrightarrow> onion_pk d = onion_public_of E (osk fp)"
  obtains p ins d where "find_shortest_path E (graph s) a b = Some (Inr (Some p))" "is_route (graph s) a b p"
    "route_to_instructs p (graph s) = Inr ins" "route_for E (map osk (butlast p)) ins" "map next_fingerprint ins = tl p"
    "length ins < 10" "identity (graph s) b = Some d" "onion_pk d = onion_public_of E (osk b)" "a \<notin> set (tl p)"
proof -
  have g: "graph_inv E (graph s)" using inv by (simp add: daemon_inv_def)
  note pl = daemon_lawsD(1)[OF laws]
  obtain p where p: "find_shortest_path E (graph s) a b = Some (Inr (Some p))" "is_route (graph s) a b p" "length p \<le> length q"
      "\<And>q. is_route (graph s) a b q \<Longrightarrow> length p \<le> length q"
    using shortest_path_spec[OF g daemon_lawsD(2)[OF laws], of a b] route by (fastforce split: option.splits)
  obtain ins where ins: "route_to_instructs p (graph s) = Inr ins" "route_for E (map osk (butlast p)) ins"
      "map next_fingerprint ins = tl p" "length ins = length p - 1"
    using honest_instructs[OF pl g p(2), of osk] honest by blast
  have "b \<in> dom (fp_to_id (graph s))" using p(2) unfolding is_route_def by (metis last_in_set subsetD)
  then obtain d where "identity (graph s) b = Some d" using node_fp_length(2)[OF pl g] by blast
  moreover have "length ins < 10" using ins(4) p(2,3) route(2) by (cases p) (auto simp: is_route_def)
  ultimately show thesis using that p(1,2) ins(1-3) honest shortest_leaves[OF p(2,4)] by blast
qed

text \<open>What a successful \<open>send_reply_blocks\<close> leaves behind.\<close>

lemma send_blocks:
  assumes laws: "daemon_laws E ok" and inv: "daemon_inv E ok s" and fit: "blocks_fit E (Suc n)"
    and route: "is_route (graph s) (my_fp E s) b q" "length q \<le> 10"
    and honest: "\<And>fp d. identity (graph s) fp = Some d \<Longrightarrow> onion_pk d = onion_public_of E (osk fp)"
  obtains cache dg k pkt p final rbs rb i d r ins eph garbage aosk where
    "send_reply_blocks E (Suc n) isk b s = Some (Inr (), s\<lparr>onion_sk_cache := cache, degarblers := dg, rng := Suc k,
       neigh := inject_asif_incoming pkt (neigh s)\<rparr>)" "i = rand_u64 E (k - 1)" "rng s < k"
    "is_route (graph s) (my_fp E s) b p" "my_fp E s \<notin> set (tl p)" "relay_path E (map osk (butlast p)) pkt = Some (tl p, final)"
    "peel E final (osk b) = Inr (Received (my_fingerprint E isk) (ReplyBlocks (rbs @ [rb])))" "list_all wf_reply_block (rbs @ [rb])"
    "is_route (graph s) b (my_fp E s) r" "route_to_instructs r (graph s) = Inr ins" "length garbage = 621"
    "reply_block_new E eph garbage i ins (onion_public_of E (global_onion_sk s)) aosk isk = Inr (rb, (i, d))" "dg i = Some d"
proof -
  note pl = daemon_lawsD(1)[OF laws]
  let ?me = "my_fp E s"
  obtain p ins d0 where p: "find_shortest_path E (graph s) ?me b = Some (Inr (Some p))" "is_route (graph s) ?me b p"
      "route_to_instructs p (graph s) = Inr ins" "route_for E (map osk (butlast p)) ins" "map next_fingerprint ins = tl p"
      "length ins < 10" "identity (graph s) b = Some d0" "onion_pk d0 = onion_public_of E (osk b)" "?me \<notin> set (tl p)"
    using shortest_found[OF laws inv route, of osk] honest by blast
  have rev: "length (rev q) \<le> 10" using route(2) by simp
  obtain r rins where r: "find_shortest_path E (graph s) b ?me = Some (Inr (Some r))" "is_route (graph s) b ?me r"
      "route_to_instructs r (graph s) = Inr rins" "route_for E (map osk (butlast r)) rins" "length rins < 10"
    by (rule shortest_found[OF laws inv is_route_rev[OF route(1)] rev, of osk]) (simp_all add: honest)
  obtain aosk cache k0 where osk: "anon_osk E isk s = Some (Inr aosk, s\<lparr>onion_sk_cache := cache, rng := k0\<rparr>)" "rng s \<le> k0"
  proof (cases "onion_sk_cache s (my_fingerprint E isk)")
    case (Some x)
    then have "anon_osk E isk s = Some (Inr x, s\<lparr>onion_sk_cache := onion_sk_cache s, rng := rng s\<rparr>)" by (simp add: anon_osk_def)
    then show thesis using that by blast
  qed (use that in \<open>simp add: anon_osk_def\<close>)
  let ?s0 = "s\<lparr>onion_sk_cache := cache, rng := k0\<rparr>" and ?i = "rand_u64 E (k0 + n)"
  obtain rbs rb dg d where blocks: "make_reply_blocks E (Suc n) rins aosk isk ?s0 = Some (Inr (rbs @ [rb]), ?s0\<lparr>degarblers := dg, rng := k0 + Suc n\<rparr>)"
      "length rbs = n" "list_all wf_reply_block (rbs @ [rb])" "dg ?i = Some d"
      "reply_block_new E (rand_eph E (k0 + n)) (rand_garbage E (k0 + n)) ?i rins (onion_public_of E (global_onion_sk s)) aosk isk = Inr (rb, (?i, d))"
    using make_blocks[OF laws r(4,5) fit, of n aosk isk ?s0] by auto
  let ?k = "k0 + Suc n" and ?payload = "ReplyBlocks (rbs @ [rb])"
  obtain sealed where "inner_encode E ?payload isk = Inr sealed"
    using fit blocks(2,3) inner_encode_ok_iff unfolding blocks_fit_def by (metis length_append_singleton)
  then obtain pkt secs where "raw_new E (rand_eph E ?k) (rand_garbage E ?k) ins (onion_public_of E (osk b)) ?payload (replicate 20 0) isk = Inr (pkt, secs)"
    using raw_new_total[OF pl _ _ p(4,6), of "replicate 20 0"] by fastforce
  then have new: "new_normal E (rand_eph E ?k) (rand_garbage E ?k) ins (onion_public_of E (osk b)) ?payload isk = Inr pkt"
    by (simp add: new_normal_def)
  have "send_reply_blocks E (Suc n) isk b s = Some (Inr (), s\<lparr>onion_sk_cache := cache, degarblers := dg, rng := Suc ?k,
       neigh := inject_asif_incoming pkt (neigh s)\<rparr>)"
    using osk(1) p r blocks(1) new unfolding send_reply_blocks_def
    by (simp add: bind_proc_def route_between_def lift_loop_def instructs_of_def lift_res_def opk_of_def
        build_packet_def inject_def proc_simps del: make_reply_blocks.simps)
  moreover obtain final where "relay_path E (map osk (butlast p)) pkt = Some (tl p, final)"
      "peel E final (osk b) = Inr (Received (my_fingerprint E isk) ?payload)"
    using normal_packet_delivered[OF pl daemon_lawsD(5)[OF laws] _ p(4) new] blocks(3) p(5) by (auto simp: wf_inner_def)
  ultimately show thesis
    using that[where cache = cache and dg = dg and k = ?k and pkt = pkt and i = ?i and p = p and final = final and rbs = rbs
        and rb = rb and r = r and ins = rins and aosk = aosk and d = d
        and eph = "rand_eph E (k0 + n)" and garbage = "rand_garbage E (k0 + n)"] p(2,9) r(2,3) blocks(3,4,5) osk(2) daemon_lawsD(5)[OF laws] by simp
qed

text \<open>The reply blocks in the store of the node they are meant for.\<close>

lemma insert_all_stack:
  assumes L: "lru_laws L ok" and inv: "rb_store_inv L ok l"
  shows "\<exists>rest. rb_stack L (fold (rb_store_insert L fp) (rbs @ [rb]) l) fp = rb # rest"
proof -
  have "rb_store_inv L ok (fold (rb_store_insert L fp) rbs l)"
    using inv by (induction rbs arbitrary: l) (simp_all add: rb_store_insert_effect(1)[OF L])
  then show ?thesis using rb_store_insert_effect(2)[OF L] by simp
qed

lemma demo_blocks_fit: "blocks_fit demo_denv (Suc 9)"
proof -
  have one: "length (put_rb rb) = 722" if "wf_reply_block rb" for rb
    using that by (simp add: put_rb_def wf_reply_block_def wf_header_def)
  have "length (concat (map put_rb rbs)) = 722 * length rbs" if "list_all wf_reply_block rbs" for rbs
    using that one by (induction rbs) simp_all
  then show ?thesis
    by (simp add: blocks_fit_def demo_denv_same demo_serialize_def put_message_def put_nat_def put_bytes_def)
qed

end
