(* ===== verification/First_Contact.thy ===== *)
theory First_Contact
  imports Reply_Network
begin

text \<open>
  First contact: a message under an anonymous identity from a node that has no reply blocks out yet.  The
  sender supplies its correspondent with reply blocks first, twenty batches of ten, then comes the
  message; the correspondent answers with one of them, and the answer, on its arrival, makes the
  sender replace the block.  For the first message the order of the turns is chosen: one packet travels after the
  other.  An answer arrives in every order.
\<close>

section \<open>Packets that wait behind one another\<close>

lemma joined_holding: "joined wires (N(a := holding ps (N a))) x y = joined wires N x y"
  by (simp add: joined_def holding_def neigh_lookup_def split: option.split)

lemma travel:
  assumes laws: "packet_laws E"
  shows "p \<noteq> [] \<Longrightarrow> (\<And>x. x \<in> set p \<Longrightarrow> quiet (N x)) \<Longrightarrow> successively (\<lambda>x y. joined wires N x y \<and> x \<noteq> y) p \<Longrightarrow> wf_packet pkt \<Longrightarrow>
    relay_path E (map (\<lambda>x. global_onion_sk (N x)) (butlast p)) pkt = Some (tl p, final) \<Longrightarrow>
    fold (net_step E wires) (path_turns wires N p) (N(hd p := holding [pkt] (N (hd p)))) =
      N(last p := node_step E OpPacket (holding [final] (N (last p))))"
proof (induction p arbitrary: pkt rule: induct_list012)
  case (3 a b p)
  obtain pkt' where peel: "peel E pkt (global_onion_sk (N a)) = Inr (Forward b pkt')"
      and rest: "relay_path E (map (\<lambda>x. global_onion_sk (N x)) (butlast (b # p))) pkt' = Some (tl (b # p), final)"
    using 3 by (auto split: sum.splits peeled_packet.splits)
  have wf: "wf_packet pkt'" using peel_sizes[OF laws 3(6), of "global_onion_sk (N a)"] peel by simp
  have q: "quiet (N a)" "quiet (N b)" and j: "joined wires N a b" "a \<noteq> b" using 3 by auto
  have "fold (net_step E wires) (hop_turns wires N a b) (N(a := holding [pkt] (N a))) = N(b := holding [pkt'] (N b))"
    by (rule hop_moves[OF q j peel wf, of "[]"]) (simp add: holding_none[OF q(1)])
  moreover have "fold (net_step E wires) (path_turns wires N (b # p)) (N(b := holding [pkt'] (N b))) =
      N(last (b # p) := node_step E OpPacket (holding [final] (N (last (b # p)))))"
    using "3.IH"(2)[of pkt'] 3(4,5) wf rest by (simp add: fun_upd_def)
  ultimately show ?case by (simp add: fun_upd_def)
qed simp_all

text \<open>A packet that reaches \<open>b\<close> from \<open>a\<close> and is read there.\<close>

definition carries ::
    "('l, 'z) daemon_env_scheme \<Rightarrow> (fingerprint \<Rightarrow> onion_secret) \<Rightarrow> relay_graph \<Rightarrow> fingerprint \<Rightarrow> fingerprint \<Rightarrow> fingerprint \<Rightarrow>
       inner_packet \<Rightarrow> raw_packet \<Rightarrow> bool" where
  "carries E osk g a b fp payload pkt \<longleftrightarrow> wf_packet pkt \<and>
     (\<exists>p final. is_route g a b p \<and> a \<notin> set (tl p) \<and> relay_path E (map osk (butlast p)) pkt = Some (tl p, final) \<and>
        peel E final (osk b) = Inr (Received fp payload))"

lemma front_crosses:
  assumes laws: "packet_laws E" and quiet: "\<And>x. quiet (N x)" and ab: "a \<noteq> b" and g: "graph_inv E g"
    and up: "\<And>x y. linked g x y \<Longrightarrow> joined wires N x y"
    and pkt: "carries E (\<lambda>x. global_onion_sk (N x)) g a b fp payload pkt"
    and arrival: "\<And>final. peel E final (global_onion_sk (N b)) = Inr (Received fp payload) \<Longrightarrow>
      node_step E OpPacket (holding [final] (N b)) = s'"
  shows "\<exists>us. fold (net_step E wires) us (N(a := holding (pkt # rest) (N a))) = N(a := holding rest (N a), b := s')"
proof -
  let ?osk = "\<lambda>x. global_onion_sk (N x)" and ?M = "N(a := holding rest (N a))"
  obtain p final where p: "is_route g a b p" "a \<notin> set (tl p)" "relay_path E (map ?osk (butlast p)) pkt = Some (tl p, final)"
      "peel E final (?osk b) = Inr (Received fp payload)" and wf: "wf_packet pkt"
    using pkt by (auto simp: carries_def)
  then obtain c q where pq: "p = a # c # q" using ab by (cases p rule: remdups_adj.cases) (auto simp: is_route_def)
  have "successively (linked g) p" using p(1) by (simp add: is_route_def)
  then have path: "successively (\<lambda>x y. joined wires N x y \<and> x \<noteq> y) p"
    by (rule successively_mono) (use up linked_irrefl[OF g] in simp)
  obtain pkt' where peel: "peel E pkt (?osk a) = Inr (Forward c pkt')"
      and rest: "relay_path E (map ?osk (butlast (c # q))) pkt' = Some (q, final)"
    using p(3) pq by (auto split: sum.splits peeled_packet.splits)
  have wf': "wf_packet pkt'" using peel_sizes[OF laws wf, of "?osk a"] peel by simp
  have ac: "joined wires N a c" "a \<noteq> c" and na: "a \<notin> set (c # q)" using path pq p(2) by auto
  have first: "fold (net_step E wires) (hop_turns wires N a c) (N(a := holding (pkt # rest) (N a))) = ?M(c := holding [pkt'] (?M c))"
    by (rule hop_moves[OF quiet quiet ac peel wf', of rest]) (use ac(2) in simp)
  have others: "fold (net_step E wires) (path_turns wires ?M (c # q)) (?M(hd (c # q) := holding [pkt'] (?M (hd (c # q))))) =
      ?M(last (c # q) := node_step E OpPacket (holding [final] (?M (last (c # q)))))"
  proof (rule travel[OF laws])
    show "quiet (?M x)" if "x \<in> set (c # q)" for x using quiet[of x] that na by auto
    show "successively (\<lambda>x y. joined wires ?M x y \<and> x \<noteq> y) (c # q)" unfolding joined_holding using path pq by (simp add: successively_Cons)
    have same: "map (\<lambda>x. global_onion_sk (?M x)) (butlast (c # q)) = map ?osk (butlast (c # q))" by (simp add: holding_def)
    show "relay_path E (map (\<lambda>x. global_onion_sk (?M x)) (butlast (c # q))) pkt' = Some (tl (c # q), final)"
      unfolding same list.sel by (rule rest)
  qed (use wf' in simp_all)
  have lb: "last (c # q) = b" using p(1) pq by (simp add: is_route_def)
  have "node_step E OpPacket (holding [final] (?M b)) = s'" using arrival[OF p(4)] ab by (simp del: node_step.simps)
  then have "fold (net_step E wires) (hop_turns wires N a c @ path_turns wires ?M (c # q)) (N(a := holding (pkt # rest) (N a))) = ?M(b := s')"
    using others unfolding lb list.sel fold_append by (simp only: comp_apply first)
  then show ?thesis by blast
qed

section \<open>Replenishing in full\<close>

text \<open>Packets are queued at the node itself; besides, only the caches have changed.\<close>

definition posted :: "'l daemon \<Rightarrow> 'l daemon \<Rightarrow> raw_packet list \<Rightarrow> bool" where
  "posted s s' pkts \<longleftrightarrow> s' = s\<lparr>onion_sk_cache := onion_sk_cache s', degarblers := degarblers s', rng := rng s', balance_table := balance_table s',
     neigh := (neigh s)\<lparr>neigh_incoming := neigh_incoming (neigh s) @ pkts\<rparr>\<rparr>"

lemma posted_fields:
  assumes "posted s s' pkts"
  shows "graph s' = graph s" "global_identity s' = global_identity s" "global_onion_sk s' = global_onion_sk s"
    "anon_dests s' = anon_dests s" "links s' = links s" "socket_recv_queues s' = socket_recv_queues s"
    "neigh s' = (neigh s)\<lparr>neigh_incoming := neigh_incoming (neigh s) @ pkts\<rparr>"
  by (subst assms[unfolded posted_def]; simp)+

lemma posted_trans: "posted s s1 ps \<Longrightarrow> posted s1 s2 qs \<Longrightarrow> posted s s2 (ps @ qs)"
proof -
  assume 1: "posted s s1 ps" and 2: "posted s1 s2 qs"
  show ?thesis unfolding posted_def
    by (rule daemon.equality) (simp_all add: posted_fields[OF 1] posted_fields[OF 2])
qed

lemma posted_caches: "posted s (s\<lparr>balance_table := bt\<rparr>) []" "posted s (s\<lparr>rng := n\<rparr>) []"
  by (simp_all add: posted_def)

text \<open>A block whose degarbler \<open>s\<close> keeps and with which \<open>b\<close> can answer the identity \<open>isk\<close> at \<open>s\<close>.\<close>

definition answerable :: "('l, 'z) daemon_env_scheme \<Rightarrow> 'l daemon \<Rightarrow> fingerprint \<Rightarrow> identity_secret \<Rightarrow> reply_block \<Rightarrow> bool" where
  "answerable E s b isk rb \<longleftrightarrow> (\<exists>r ins eph garbage i aosk d. is_route (graph s) b (my_fp E s) r \<and> route_to_instructs r (graph s) = Inr ins \<and>
     length garbage = 621 \<and> reply_block_new E eph garbage i ins (onion_public_of E (global_onion_sk s)) aosk isk = Inr (rb, (i, d)) \<and>
     i \<noteq> 0 \<and> degarblers s i = Some d)"

lemma answerable_cong:
  "graph s' = graph s \<Longrightarrow> global_identity s' = global_identity s \<Longrightarrow> global_onion_sk s' = global_onion_sk s \<Longrightarrow> degarblers s' = degarblers s \<Longrightarrow>
   answerable E s' b isk rb = answerable E s b isk rb"
  by (simp add: answerable_def)

text \<open>What the sender knows of the network: the keys the nodes peel with, and a route to \<open>b\<close>.\<close>

definition reaches :: "('l, 'z) daemon_env_scheme \<Rightarrow> (fingerprint \<Rightarrow> onion_secret) \<Rightarrow> relay_graph \<Rightarrow> fingerprint \<Rightarrow> fingerprint \<Rightarrow> bool" where
  "reaches E osk g a b \<longleftrightarrow> (\<forall>fp d. identity g fp = Some d \<longrightarrow> onion_pk d = onion_public_of E (osk fp)) \<and>
     (\<exists>q. is_route g a b q \<and> length q \<le> 10)"

lemma one_batch:
  assumes laws: "daemon_laws E ok" and inv: "daemon_inv E ok s" and fit: "blocks_fit E BATCH_SIZE"
    and r: "reaches E osk (graph s) (my_fp E s) b" and room: "length (neigh_incoming (neigh s)) < 100"
  obtains s' pkt rbs rb where "send_reply_blocks E BATCH_SIZE isk b s = Some (Inr (), s')" "posted s s' [pkt]" "daemon_inv E ok s'"
    "balance_table s' = balance_table s"
    "carries E osk (graph s) (my_fp E s) b (my_fingerprint E isk) (ReplyBlocks (rbs @ [rb])) pkt" "list_all wf_reply_block (rbs @ [rb])"
    "(\<forall>n. rand_u64 E n \<noteq> 0) \<longrightarrow> answerable E s' b isk rb"
proof -
  have ten: "BATCH_SIZE = Suc 9" by (simp add: BATCH_SIZE_def)
  obtain q where q: "is_route (graph s) (my_fp E s) b q" "length q \<le> 10" using r by (auto simp: reaches_def)
  have honest: "onion_pk d = onion_public_of E (osk fp)" if "identity (graph s) fp = Some d" for fp d using r that by (simp add: reaches_def)
  obtain cache dg k pkt p final rbs rb i d r ins eph garbage aosk where
      send: "send_reply_blocks E BATCH_SIZE isk b s = Some (Inr (), s\<lparr>onion_sk_cache := cache, degarblers := dg, rng := Suc k,
         neigh := inject_asif_incoming pkt (neigh s)\<rparr>)" (is "_ = Some (Inr (), ?s')") and i: "i = rand_u64 E (k - 1)"
      and p: "is_route (graph s) (my_fp E s) b p" "my_fp E s \<notin> set (tl p)" "relay_path E (map osk (butlast p)) pkt = Some (tl p, final)"
        "peel E final (osk b) = Inr (Received (my_fingerprint E isk) (ReplyBlocks (rbs @ [rb])))" "list_all wf_reply_block (rbs @ [rb])"
      and block: "is_route (graph s) b (my_fp E s) r" "route_to_instructs r (graph s) = Inr ins" "length garbage = 621"
        "reply_block_new E eph garbage i ins (onion_public_of E (global_onion_sk s)) aosk isk = Inr (rb, (i, d))" "dg i = Some d"
    using send_blocks[of E ok s 9 b q osk isk, folded ten, OF laws inv fit q honest] by metis
  have inv': "daemon_inv E ok ?s'" using keeping_send_reply_blocks[OF laws inv, of BATCH_SIZE isk b] send
    by (simp add: keeping_def total_def keeps_def)
  then have "wf_packet pkt" using room by (simp add: daemon_inv_def inject_asif_incoming_def wf_queue_def)
  then have carries: "carries E osk (graph s) (my_fp E s) b (my_fingerprint E isk) (ReplyBlocks (rbs @ [rb])) pkt"
    using p(1-4) unfolding carries_def by blast
  have posted: "posted s ?s' [pkt]" using room by (simp add: posted_def inject_asif_incoming_def)
  have answer: "answerable E ?s' b isk rb" if "\<forall>n. rand_u64 E n \<noteq> 0" unfolding answerable_def
    by (intro exI[of _ r] exI[of _ ins] exI[of _ eph] exI[of _ garbage] exI[of _ i] exI[of _ aosk] exI[of _ d]) (use block i that in simp)
  show thesis by (rule that[OF send posted inv' _ carries p(5)]) (use answer in simp_all)
qed

text \<open>The batches of a replenishing, in their order: each packet with the blocks it carries.\<close>

definition batches_to ::
    "('l, 'z) daemon_env_scheme \<Rightarrow> (fingerprint \<Rightarrow> onion_secret) \<Rightarrow> relay_graph \<Rightarrow> fingerprint \<Rightarrow> fingerprint \<Rightarrow> fingerprint \<Rightarrow>
       (raw_packet \<times> reply_block list) list \<Rightarrow> bool" where
  "batches_to E osk g a b fp bs \<longleftrightarrow> (\<forall>(pkt, rbs) \<in> set bs. carries E osk g a b fp (ReplyBlocks rbs) pkt \<and> list_all wf_reply_block rbs)"

lemma rb_balance_effect: "\<exists>bt. rb_balance isk fp s = (balance_of s isk fp, s\<lparr>balance_table := bt\<rparr>)"
proof (cases "balance_table s (isk, fp)")
  case (Some x)
  then have "rb_balance isk fp s = (balance_of s isk fp, s\<lparr>balance_table := balance_table s\<rparr>)" by (simp add: rb_balance_def balance_of_def)
  then show ?thesis by blast
qed (auto simp: rb_balance_def balance_of_def)

lemma replenish_posts:
  assumes laws: "daemon_laws E ok" and fit: "blocks_fit E BATCH_SIZE" and r: "0 \<le> r" "r < 5"
  shows "daemon_inv E ok s \<Longrightarrow> reaches E osk (graph s) (my_fp E s) b \<Longrightarrow> balance_of s isk b = 100 - 5 * int n + r \<Longrightarrow>
    length (neigh_incoming (neigh s)) + n \<le> 100 \<Longrightarrow>
    \<exists>s' bs. replenish_rrb E isk b s = Some (Inr (), s') \<and> posted s s' (map fst bs) \<and> daemon_inv E ok s' \<and> length bs = n \<and>
      balance_of s' isk b = 100 + r \<and> batches_to E osk (graph s) (my_fp E s) b (my_fingerprint E isk) bs \<and>
      (if bs = [] then degarblers s' = degarblers s else \<exists>rbs rb. snd (last bs) = rbs @ [rb] \<and> ((\<forall>n. rand_u64 E n \<noteq> 0) \<longrightarrow> answerable E s' b isk rb))"
proof (induction n arbitrary: s)
  case 0
  obtain bt where bt: "rb_balance isk b s = (balance_of s isk b, s\<lparr>balance_table := bt\<rparr>)" using rb_balance_effect by blast
  then have "replenish_rrb E isk b s = Some (Inr (), s\<lparr>balance_table := bt\<rparr>)" using 0(3) r(1) by (simp add: replenish_rrb.simps[of E isk b s])
  moreover have "balance_of (s\<lparr>balance_table := bt\<rparr>) isk b = 100 + r" using rb_balance_idem[of isk b s isk b] bt 0(3) by simp
  ultimately show ?case using 0(1) by (intro exI[of _ "s\<lparr>balance_table := bt\<rparr>"] exI[of _ "[]"]) (simp add: posted_caches batches_to_def)
next
  case (Suc n)
  obtain bt where bt: "rb_balance isk b s = (balance_of s isk b, s\<lparr>balance_table := bt\<rparr>)" using rb_balance_effect by blast
  let ?s1 = "s\<lparr>balance_table := bt\<rparr>"
  have b1: "balance_of ?s1 isk b = balance_of s isk b" using rb_balance_idem[of isk b s isk b] bt by simp
  have pre: "daemon_inv E ok ?s1" "reaches E osk (graph ?s1) (my_fp E ?s1) b" "length (neigh_incoming (neigh ?s1)) < 100"
    using Suc.prems by simp_all
  obtain s2 pkt rbs rb where s2: "send_reply_blocks E BATCH_SIZE isk b ?s1 = Some (Inr (), s2)" "posted ?s1 s2 [pkt]" "daemon_inv E ok s2"
      "balance_table s2 = balance_table ?s1"
      "carries E osk (graph ?s1) (my_fp E ?s1) b (my_fingerprint E isk) (ReplyBlocks (rbs @ [rb])) pkt" "list_all wf_reply_block (rbs @ [rb])"
      "(\<forall>n. rand_u64 E n \<noteq> 0) \<longrightarrow> answerable E s2 b isk rb"
    using one_batch[OF laws pre(1) fit pre(2,3), of isk] by metis
  obtain bt3 where bt3: "rb_balance isk b s2 = (balance_of s2 isk b, s2\<lparr>balance_table := bt3\<rparr>)" using rb_balance_effect by blast
  have b2: "balance_of s2 isk b = balance_of s isk b" using s2(4) b1 by (simp add: balance_of_def)
  let ?s4 = "s2\<lparr>balance_table := bt3((isk, b) \<mapsto> balance_of s isk b + 5)\<rparr>"
  have step: "replenish_rrb E isk b s = replenish_rrb E isk b ?s4"
    using bt s2(1) bt3 b2 Suc.prems(3) r by (simp add: replenish_rrb.simps[of E isk b s] BATCH_SIZE_def)
  have p4: "posted s ?s4 [pkt]"
    using posted_trans[OF posted_trans[OF posted_caches(1) s2(2)] posted_caches(1)] by simp
  note f = posted_fields[OF p4]
  obtain s' bs where IH: "replenish_rrb E isk b ?s4 = Some (Inr (), s')" "posted ?s4 s' (map fst bs)" "daemon_inv E ok s'" "length bs = n"
      "balance_of s' isk b = 100 + r" "batches_to E osk (graph s) (my_fp E s) b (my_fingerprint E isk) bs"
      "if bs = [] then degarblers s' = degarblers ?s4 else \<exists>rbs rb. snd (last bs) = rbs @ [rb] \<and> ((\<forall>n. rand_u64 E n \<noteq> 0) \<longrightarrow> answerable E s' b isk rb)"
    using Suc.IH[of ?s4] Suc.prems s2(3) f unfolding f by (auto simp: balance_of_def)
  note f' = posted_fields[OF IH(2)]
  have all: "batches_to E osk (graph s) (my_fp E s) b (my_fingerprint E isk) ((pkt, rbs @ [rb]) # bs)"
    using s2(5,6) IH(6) by (simp add: batches_to_def)
  have "(\<forall>n. rand_u64 E n \<noteq> 0) \<longrightarrow> answerable E s' b isk rb" if "bs = []"
    using that s2(7) IH(7) answerable_cong[of s' s2 E b isk rb] f' by simp
  then have last: "\<exists>rbs' rb'. snd (last ((pkt, rbs @ [rb]) # bs)) = rbs' @ [rb'] \<and> ((\<forall>n. rand_u64 E n \<noteq> 0) \<longrightarrow> answerable E s' b isk rb')"
    using IH(7) by (cases "bs = []") auto
  show ?case
    by (rule exI[of _ s'], rule exI[of _ "(pkt, rbs @ [rb]) # bs"])
      (use step IH(1,3,4,5) all last posted_trans[OF p4 IH(2)] in simp)
qed

text \<open>From any balance a full queue can make up for, replenishing succeeds; only the caches change, and the queue.\<close>

lemma replenish_supplied:
  assumes laws: "daemon_laws E ok" and fit: "blocks_fit E BATCH_SIZE" and inv: "daemon_inv E ok s"
    and r: "reaches E osk (graph s) (my_fp E s) b" and balance: "- 400 \<le> balance_of s isk b" and empty: "neigh_incoming (neigh s) = []"
  obtains s' pkts where "replenish_rrb E isk b s = Some (Inr (), s')" "posted s s' pkts"
proof (cases "100 \<le> balance_of s isk b")
  case True
  then show thesis using replenish_enough[OF True, of E] posted_caches(1) that by blast
next
  case False
  define n where "n = nat ((104 - balance_of s isk b) div 5)"
  let ?r = "balance_of s isk b - 100 + 5 * int n"
  have n: "int n = (104 - balance_of s isk b) div 5" using False by (simp add: n_def)
  have "0 \<le> ?r" "?r < 5" "n \<le> 100" unfolding n using n balance by linarith+
  moreover have "balance_of s isk b = 100 - 5 * int n + ?r" by simp
  moreover have "length (neigh_incoming (neigh s)) + n \<le> 100" using empty \<open>n \<le> 100\<close> by simp
  ultimately show thesis using replenish_posts[OF laws fit _ _ inv r, of ?r isk n] that by blast
qed

section \<open>The first message\<close>

lemma anon_send:
  assumes laws: "daemon_laws E ok" and inv: "daemon_inv E ok s" and fit: "blocks_fit E BATCH_SIZE" and ids: "\<And>n. rand_u64 E n \<noteq> 0"
    and r: "reaches E osk (graph s) (my_fp E s) b" and empty: "neigh_incoming (neigh s) = []"
    and anon: "isk \<noteq> global_identity s" and no_rb: "rb_stack (lru E) (anon_dests s) b = []" and fresh: "balance_of s isk b = 0"
    and fits: "length (bincode_serialize E (Message (message_new sd dd content))) \<le> 8172"
  obtains A s' bs rbs rb msg where "send_n2r E isk sd b dd content s = Some (Inr (), s')" "daemon_inv E ok s'"
    "posted (s\<lparr>anon_dests := A\<rparr>) s' (map fst bs @ [msg])" "batches_to E osk (graph s) (my_fp E s) b (my_fingerprint E isk) bs"
    "snd (last bs) = rbs @ [rb]" "answerable E s' b isk rb" "bs \<noteq> []" "balance_of s' isk b = 100"
    "carries E osk (graph s) (my_fp E s) b (my_fingerprint E isk) (Message (message_new sd dd content)) msg"
proof -
  let ?m = "Message (message_new sd dd content)" and ?A = "snd (rb_store_pop (lru E) b (anon_dests s))"
  let ?k = "rng s" and ?s1 = "s\<lparr>anon_dests := snd (rb_store_pop (lru E) b (anon_dests s)), rng := Suc (rng s)\<rparr>"
  note pl = daemon_lawsD(1)[OF laws]
  have st: "rb_store_inv (lru E) ok (anon_dests s)" using inv by (simp add: daemon_inv_def)
  have pop: "fst (rb_store_pop (lru E) b (anon_dests s)) = None"
    using rb_store_pop_effect(2)[OF daemon_lawsD(4)[OF laws] st] no_rb by simp
  obtain q where q: "is_route (graph s) (my_fp E s) b q" "length q \<le> 10" using r by (auto simp: reaches_def)
  have honest: "onion_pk d = onion_public_of E (osk fp)" if "identity (graph s) fp = Some d" for fp d using r that by (simp add: reaches_def)
  obtain p ins d where p: "find_shortest_path E (graph s) (my_fp E s) b = Some (Inr (Some p))" "is_route (graph s) (my_fp E s) b p"
      "route_to_instructs p (graph s) = Inr ins" "route_for E (map osk (butlast p)) ins" "map next_fingerprint ins = tl p"
      "length ins < 10" "identity (graph s) b = Some d" "onion_pk d = onion_public_of E (osk b)" "my_fp E s \<notin> set (tl p)"
    using shortest_found[OF laws inv q, of osk] honest by blast
  obtain sealed where enc: "inner_encode E ?m isk = Inr sealed" using fits inner_encode_ok_iff by blast
  obtain msg secs where "raw_new E (rand_eph E ?k) (rand_garbage E ?k) ins (onion_public_of E (osk b)) ?m (replicate 20 0) isk = Inr (msg, secs)"
    using raw_new_total[OF pl _ enc p(4,6), of "replicate 20 0"] by fastforce
  then have new: "new_normal E (rand_eph E ?k) (rand_garbage E ?k) ins (onion_public_of E (osk b)) ?m isk = Inr msg" by (simp add: new_normal_def)
  have i1: "daemon_inv E ok ?s1" using pop_inv(1)[OF laws inv, of b] by (simp add: daemon_inv_def)
  have pre: "reaches E osk (graph ?s1) (my_fp E ?s1) b" "balance_of ?s1 isk b = 100 - 5 * int 20 + 0"
      "length (neigh_incoming (neigh ?s1)) + 20 \<le> 100" using r fresh empty by (simp_all add: balance_of_def)
  obtain s2 bs where rep: "replenish_rrb E isk b ?s1 = Some (Inr (), s2)" "posted ?s1 s2 (map fst bs)" "daemon_inv E ok s2" "length bs = 20"
      "balance_of s2 isk b = 100" "batches_to E osk (graph s) (my_fp E s) b (my_fingerprint E isk) bs"
      "if bs = [] then degarblers s2 = degarblers ?s1 else \<exists>rbs rb. snd (last bs) = rbs @ [rb] \<and> ((\<forall>n. rand_u64 E n \<noteq> 0) \<longrightarrow> answerable E s2 b isk rb)"
    using replenish_posts[OF laws fit, of 0, OF _ _ i1 pre] by auto
  obtain rbs rb where last: "snd (last bs) = rbs @ [rb]" "answerable E s2 b isk rb" "bs \<noteq> []" using rep(4,7) ids by (auto split: if_splits)
  let ?s' = "s2\<lparr>neigh := inject_asif_incoming msg (neigh s2)\<rparr>"
  have send: "send_n2r E isk sd b dd content s = Some (Inr (), ?s')"
    using pop p(1,3,7,8) new anon rep(1)
    by (simp add: send_n2r_def route_between_def bind_proc_def lift_loop_def instructs_of_def lift_res_def opk_of_def
        build_packet_def inject_def proc_simps)
  have inv': "daemon_inv E ok ?s'" using safe_send_n2r[OF laws inv, of isk sd b dd content] send by (simp add: safe_def total_def)
  have queue: "neigh_incoming (neigh s2) = map fst bs" using posted_fields(7)[OF rep(2)] empty by simp
  then have wf: "wf_packet msg" using inv' rep(4) by (simp add: daemon_inv_def inject_asif_incoming_def wf_queue_def)
  have "posted s2 ?s' [msg]" using queue rep(4) by (simp add: posted_def inject_asif_incoming_def)
  then have posted: "posted (s\<lparr>anon_dests := ?A\<rparr>) ?s' (map fst bs @ [msg])"
    using posted_trans[OF posted_trans[OF posted_caches(2) rep(2)]] by fastforce
  have "\<exists>last. relay_path E (map osk (butlast p)) msg = Some (map next_fingerprint ins, last) \<and>
      peel E last (osk b) = Inr (Received (my_fingerprint E isk) ?m)"
    by (rule normal_packet_delivered[OF pl daemon_lawsD(5)[OF laws] _ p(4) new]) (simp add: wf_inner_def)
  then have carries: "carries E osk (graph s) (my_fp E s) b (my_fingerprint E isk) ?m msg"
    using wf p(2,9) p(5) unfolding carries_def by auto
  have "answerable E ?s' b isk rb" using last(2) answerable_cong[of ?s' s2 E b isk rb] by simp
  then show thesis using that[OF send inv' posted rep(6) last(1) _ last(3) _ carries] rep(5) by (simp add: balance_of_def)
qed

section \<open>The packets cross\<close>

lemma blocks_arrive:
  assumes "quiet s" "peel E final (global_onion_sk s) = Inr (Received fp (ReplyBlocks rbs))"
  shows "node_step E OpPacket (holding [final] s) = s\<lparr>anon_dests := fold (rb_store_insert (lru E) fp) rbs (anon_dests s)\<rparr>"
  using assms by (simp add: holding_def peel_forward_turn_def recv_raw_packet_def peel_forward_def bind_proc_def[where m = "lift_res _"]
      lift_res_def process_inner_pkt_def emptied quiet_def)

lemma message_arrives:
  assumes "quiet s" "peel E final (global_onion_sk s) = Inr (Received fp (Message m))"
    and "socket_recv_queues s (endpoint_new (my_fp E s) (dest_dock m)) = Some w" "length w < 1000"
  shows "node_step E OpPacket (holding [final] s) =
    s\<lparr>socket_recv_queues := (socket_recv_queues s)(endpoint_new (my_fp E s) (dest_dock m) \<mapsto> w @ [(m, fp)])\<rparr>"
  using assms by (simp add: holding_def peel_forward_turn_def recv_raw_packet_def peel_forward_def bind_proc_def[where m = "lift_res _"]
      lift_res_def process_inner_pkt_def try_send_def emptied quiet_def)

lemma batches_cross:
  assumes laws: "packet_laws E" and ab: "a \<noteq> b" and g: "graph_inv E g"
  shows "(\<And>x. quiet (N x)) \<Longrightarrow> (\<And>x y. linked g x y \<Longrightarrow> joined wires N x y) \<Longrightarrow>
    batches_to E (\<lambda>x. global_onion_sk (N x)) g a b fp bs \<Longrightarrow>
    \<exists>us. fold (net_step E wires) us (N(a := holding (map fst bs @ rest) (N a))) =
      N(a := holding rest (N a), b := (N b)\<lparr>anon_dests := fold (rb_store_insert (lru E) fp) (concat (map snd bs)) (anon_dests (N b))\<rparr>)"
proof (induction bs arbitrary: N)
  case Nil
  have "fold (net_step E wires) [] (N(a := holding rest (N a))) = N(a := holding rest (N a), b := (N b)\<lparr>anon_dests := anon_dests (N b)\<rparr>)"
    using ab by (simp add: fun_eq_iff)
  then show ?case by (metis append_Nil concat.simps(1) fold_simps(1) list.simps(8))
next
  case (Cons x bs)
  obtain pkt rbs where x: "x = (pkt, rbs)" by (cases x)
  let ?b = "(N b)\<lparr>anon_dests := fold (rb_store_insert (lru E) fp) rbs (anon_dests (N b))\<rparr>"
  let ?N = "N(b := ?b)"
  have pkt: "carries E (\<lambda>x. global_onion_sk (N x)) g a b fp (ReplyBlocks rbs) pkt" using Cons.prems(3) x by (simp add: batches_to_def)
  obtain us where us: "fold (net_step E wires) us (N(a := holding (pkt # map fst bs @ rest) (N a))) = N(a := holding (map fst bs @ rest) (N a), b := ?b)"
    using front_crosses[OF laws Cons.prems(1) ab g Cons.prems(2) pkt blocks_arrive[OF Cons.prems(1)], where rest = "map fst bs @ rest"] by blast
  have same: "neigh (?N y) = neigh (N y)" "links (?N y) = links (N y)" "global_onion_sk (?N y) = global_onion_sk (N y)" for y by simp_all
  have quiet: "quiet (?N y)" for y using Cons.prems(1)[of y] unfolding quiet_def same .
  have up: "joined wires ?N y z" if "linked g y z" for y z using Cons.prems(2)[OF that] joined_cong[of ?N N wires y z, OF same(1,2)] by simp
  have "batches_to E (\<lambda>x. global_onion_sk (?N x)) g a b fp bs" unfolding same using Cons.prems(3) by (simp add: batches_to_def)
  from Cons.IH[of ?N, OF quiet up this] obtain vs where
    "fold (net_step E wires) vs (?N(a := holding (map fst bs @ rest) (?N a))) =
      ?N(a := holding rest (?N a), b := (?N b)\<lparr>anon_dests := fold (rb_store_insert (lru E) fp) (concat (map snd bs)) (anon_dests (?N b))\<rparr>)" by blast
  then have "fold (net_step E wires) (us @ vs) (N(a := holding (map fst (x # bs) @ rest) (N a))) =
      N(a := holding rest (N a), b := (N b)\<lparr>anon_dests := fold (rb_store_insert (lru E) fp) (concat (map snd (x # bs))) (anon_dests (N b))\<rparr>)"
    using us ab x by (simp add: fun_upd_twist)
  then show ?case by blast
qed

lemma stack_of_batches:
  assumes L: "lru_laws L ok" and inv: "rb_store_inv L ok l" and last: "bs \<noteq> []" "snd (last bs) = rbs @ [rb]"
  shows "\<exists>older. rb_stack L (fold (rb_store_insert L fp) (concat (map snd bs)) l) fp = rb # older"
proof -
  have "concat (map snd bs) = (concat (map snd (butlast bs)) @ rbs) @ [rb]"
    using last by (cases bs rule: rev_cases) simp_all
  then show ?thesis using insert_all_stack[OF L inv, of fp "concat (map snd (butlast bs)) @ rbs" rb] by simp
qed

lemma question_crosses:
  assumes laws: "daemon_laws E ok" and inv: "daemon_inv E ok (N a)" "daemon_inv E ok (N b)" and quiet: "\<And>x. quiet (N x)" and ab: "a \<noteq> b"
    and names: "my_fp E (N a) = a" "my_fp E (N b) = b" and fit: "blocks_fit E BATCH_SIZE" and ids: "\<And>n. rand_u64 E n \<noteq> 0"
    and up: "\<And>x y. linked (graph (N a)) x y \<Longrightarrow> joined wires N x y"
    and r: "reaches E (\<lambda>x. global_onion_sk (N x)) (graph (N a)) a b"
    and anon: "isk \<noteq> global_identity (N a)" and no_rb: "rb_stack (lru E) (anon_dests (N a)) b = []" and fresh: "balance_of (N a) isk b = 0"
    and fits: "length (bincode_serialize E (Message (message_new sd dd content))) \<le> 8172"
    and room: "socket_recv_queues (N b) (endpoint_new b dd) = Some []"
  obtains s us sa sb rb older where "send_n2r E isk sd b dd content (N a) = Some (Inr (), s)"
    "fold (net_step E wires) us (N(a := s)) = N(a := sa, b := sb)"
    "posted (N a) (sa\<lparr>anon_dests := anon_dests (N a)\<rparr>) []" "daemon_inv E ok sa" "answerable E sa b isk rb" "balance_of sa isk b = 100"
    "sb = (N b)\<lparr>anon_dests := anon_dests sb, socket_recv_queues := (socket_recv_queues (N b))(endpoint_new b dd \<mapsto>
       [(message_new sd dd content, my_fingerprint E isk)])\<rparr>" "daemon_inv E ok sb"
    "rb_stack (lru E) (anon_dests sb) (my_fingerprint E isk) = rb # older"
proof -
  let ?osk = "\<lambda>x. global_onion_sk (N x)" and ?fp = "my_fingerprint E isk" and ?g = "graph (N a)" and ?m = "message_new sd dd content"
  note pl = daemon_lawsD(1)[OF laws]
  have empty: "neigh_incoming (neigh (N a)) = []" and g: "graph_inv E ?g" using quiet inv(1) by (auto simp: quiet_def daemon_inv_def)
  obtain A s bs rbs rb msg where send: "send_n2r E isk sd b dd content (N a) = Some (Inr (), s)" "daemon_inv E ok s"
      and posted: "posted ((N a)\<lparr>anon_dests := A\<rparr>) s (map fst bs @ [msg])" and bs: "batches_to E ?osk ?g a b ?fp bs"
        "snd (last bs) = rbs @ [rb]" "answerable E s b isk rb" "bs \<noteq> []" "balance_of s isk b = 100" and msg: "carries E ?osk ?g a b ?fp (Message ?m) msg"
    using anon_send[OF laws inv(1) fit ids, of ?osk b isk sd dd content] r empty anon no_rb fresh fits unfolding names(1) by metis
  let ?sa = "holding [] s" and ?A = "fold (rb_store_insert (lru E) ?fp) (concat (map snd bs)) (anon_dests (N b))"
  let ?N0 = "N(a := holding [] s)"
  let ?N1 = "?N0(b := (N b)\<lparr>anon_dests := ?A\<rparr>)"
  note f = posted_fields[OF posted]
  have same0: "links (?N0 x) = links (N x)" "global_onion_sk (?N0 x) = ?osk x" "joined wires ?N0 x y = joined wires N x y" "quiet (?N0 x)" for x y
    using f quiet[of x] by (auto simp: holding_def joined_def neigh_lookup_def quiet_def split: option.split)
  have same1: "links (?N1 x) = links (N x)" "global_onion_sk (?N1 x) = ?osk x" "joined wires ?N1 x y = joined wires N x y" "quiet (?N1 x)" for x y
    using same0[of x] same0(3)[of x y] quiet[of b] joined_cong[of ?N1 ?N0 wires x y] ab by (auto simp: quiet_def)
  have "(neigh s)\<lparr>neigh_incoming := map fst bs @ [msg]\<rparr> = neigh s" using f(7) empty by simp
  then have start: "N(a := s) = ?N0(a := holding (map fst bs @ [msg]) (?N0 a))" by (simp add: holding_def emptied)
  obtain us where us: "fold (net_step E wires) us (?N0(a := holding (map fst bs @ [msg]) (?N0 a))) = ?N1(a := holding [msg] (?N1 a))"
    using batches_cross[OF pl ab g, of ?N0 wires ?fp bs "[msg]"] same0 bs(1) up ab by (auto simp: fun_upd_twist)
  let ?sb = "(N b)\<lparr>anon_dests := ?A, socket_recv_queues := (socket_recv_queues (N b))(endpoint_new b dd \<mapsto> [(?m, ?fp)])\<rparr>"
  have "node_step E OpPacket (holding [final] (?N1 b)) = ?sb"
    if "peel E final (global_onion_sk (?N1 b)) = Inr (Received ?fp (Message ?m))" for final
    using message_arrives[OF same1(4) that, of "[]"] room names(2) by (simp add: message_new_def)
  moreover have "carries E (\<lambda>x. global_onion_sk (?N1 x)) ?g a b ?fp (Message ?m) msg" unfolding same1 by (rule msg)
  ultimately obtain vs where "fold (net_step E wires) vs (?N1(a := holding [msg] (?N1 a))) = ?N1(a := holding [] (?N1 a), b := ?sb)"
    using front_crosses[where N = ?N1 and wires = wires and fp = ?fp and payload = "Message ?m" and pkt = msg and s' = ?sb and rest = "[]",
        OF pl same1(4) ab g] same1(3) up by blast
  then have crosses: "fold (net_step E wires) (us @ vs) (N(a := s)) = N(a := ?sa, b := ?sb)"
    using us ab unfolding start holding_none[OF same1(4)] by (simp add: fun_upd_twist)
  have stores: "rb_store_inv (lru E) ok (anon_dests (N b))" "\<And>fp. list_all wf_reply_block (rb_stack (lru E) (anon_dests (N b)) fp)"
    using inv(2) by (auto simp: daemon_inv_def)
  have wfs: "list_all wf_reply_block (concat (map snd bs))" using bs(1) by (auto simp: batches_to_def list_all_iff)
  note store = insert_all_inv[OF daemon_lawsD(4)[OF laws] stores wfs, of ?fp]
  have inva: "daemon_inv E ok ?sa" using send(2) by (simp add: daemon_inv_def holding_def wf_queue_def)
  have invb: "daemon_inv E ok ?sb" using inv(2) store by (simp add: daemon_inv_def)
  obtain older where top: "rb_stack (lru E) ?A ?fp = rb # older"
    using stack_of_batches[OF daemon_lawsD(4)[OF laws] stores(1) bs(4,2)] by blast
  have ans: "answerable E ?sa b isk rb" using bs(3) answerable_cong[of ?sa s E b isk rb] by (simp add: holding_def)
  have bal: "balance_of ?sa isk b = 100" using bs(5) by (simp add: holding_def balance_of_def)
  have post: "posted (N a) (?sa\<lparr>anon_dests := anon_dests (N a)\<rparr>) []"
    unfolding posted_def by (rule daemon.equality) (use f empty in \<open>simp_all add: holding_def\<close>)
  show thesis by (rule that[OF send(1) crosses post inva ans bal _ invb]) (use top in simp_all)
qed

section \<open>The answer\<close>

text \<open>What is queued for a socket stays at the head of its queue, whatever the nodes do, until it is received.\<close>

interpretation queued: stable_node E "\<lambda>s. \<exists>rest. socket_recv_queues s ep = Some (w @ rest)" for E :: "('l, 'z) daemon_env_scheme" and ep w
proof
  show "stable_proc (\<lambda>s. \<exists>rest. socket_recv_queues s ep = Some (w @ rest)) (process_inner_pkt E pkt src dst)" for pkt src dst
    by (auto simp: stable_proc_def process_inner_pkt_def try_send_def Let_def split: inner_packet.splits option.splits if_splits)
qed (auto simp: stable_proc_def inject_def modify_def build_packet_def anon_osk_def one_reply_block_def forward_packet_def Let_def
    split: option.splits sum.splits)

text \<open>The arrival of the answer: the reply block is used up, its owner replenishes, the message is queued.\<close>

lemma answer_arrives:
  assumes laws: "daemon_laws E ok" and inv: "daemon_inv E ok s" and quiet: "quiet s" and fit: "blocks_fit E BATCH_SIZE"
    and r: "reaches E osk (graph s) (my_fp E s) b" and balance: "- 399 \<le> balance_of s (my_anon_isk d) b"
    and peel: "peel E final (global_onion_sk s) = Inr (GarbledReply i x)"
    and known: "degarblers s i = Some d" "degarble E d x = Inr (Message m, b)"
    and room: "socket_recv_queues s (endpoint_new (my_fingerprint E (my_anon_isk d)) (dest_dock m)) = Some []"
  shows "socket_recv_queues (node_step E OpPacket (holding [final] s)) (endpoint_new (my_fingerprint E (my_anon_isk d)) (dest_dock m)) = Some [(m, b)]"
proof -
  let ?s = "counted i d b s" and ?isk = "my_anon_isk d"
  obtain bt where c: "?s = s\<lparr>degarblers := (degarblers s)(i := None), balance_table := bt\<rparr>" using counted_effect by blast
  have empty: "neigh_incoming (neigh s) = []" using quiet by (simp add: quiet_def)
  have pre: "daemon_inv E ok ?s" "reaches E osk (graph ?s) (my_fp E ?s) b" "- 400 \<le> balance_of ?s ?isk b" "neigh_incoming (neigh ?s) = []"
    using inv r balance empty counted_balance[of i d b s] by (simp_all add: c daemon_inv_def)
  obtain s' pkts where rep: "replenish_rrb E ?isk b ?s = Some (Inr (), s')" "posted ?s s' pkts"
    using replenish_supplied[OF laws fit pre] by blast
  have "socket_recv_queues s' = socket_recv_queues s" using posted_fields(6)[OF rep(2)] c by simp
  then have garbled: "process_garbled E i x s = Some (Inr (), s'\<lparr>socket_recv_queues :=
      (socket_recv_queues s')(endpoint_new (my_fingerprint E ?isk) (dest_dock m) \<mapsto> [(m, b)])\<rparr>)"
    using garbled_replenished[OF known rep(1), of "[]"] room by simp
  have e: "s\<lparr>neigh := (neigh s)\<lparr>neigh_incoming := []\<rparr>\<rparr> = s" using empty by (simp add: emptied)
  show ?thesis
    using peel garbled by (simp add: holding_def peel_forward_turn_def recv_raw_packet_def peel_forward_def bind_proc_def[where m = "lift_res _"] lift_res_def e)
qed

lemma answer_returns:
  assumes laws: "daemon_laws E ok" and inv: "daemon_inv E ok (N a)" "daemon_inv E ok (N b)" and quiet: "\<And>x. quiet (N x)" and ab: "a \<noteq> b"
    and names: "my_fp E (N a) = a" "my_fp E (N b) = b" and fit: "blocks_fit E BATCH_SIZE"
    and up: "\<And>x y. linked (graph (N a)) x y \<Longrightarrow> joined wires N x y"
    and r: "reaches E (\<lambda>x. global_onion_sk (N x)) (graph (N a)) a b"
    and block: "answerable E (N a) b isk rb" "- 399 \<le> balance_of (N a) isk b" "rb_stack (lru E) (anon_dests (N b)) (my_fingerprint E isk) = rb # older"
    and fits: "length (bincode_serialize E (Message (message_new sd dd content))) \<le> 8172"
    and room: "socket_recv_queues (N a) (endpoint_new (my_fingerprint E isk) dd) = Some []"
  obtains t p where "send_n2r E (global_identity (N b)) sd (my_fingerprint E isk) dd content (N b) = Some (Inr (), t)"
    "rb_stack (lru E) (anon_dests t) (my_fingerprint E isk) = older" "is_route (graph (N a)) b a p"
    "\<And>us. subseq (path_turns wires N p) us \<Longrightarrow> \<exists>rest. socket_recv_queues (fold (net_step E wires) us (N(b := t)) a)
       (endpoint_new (my_fingerprint E isk) dd) = Some ((message_new sd dd content, b) # rest)"
proof -
  let ?osk = "\<lambda>x. global_onion_sk (N x)" and ?to = "my_fingerprint E isk" and ?g = "graph (N a)" and ?m = "message_new sd dd content"
  note pl = daemon_lawsD(1)[OF laws]
  have g: "graph_inv E ?g" and st: "rb_store_inv (lru E) ok (anon_dests (N b))" using inv by (simp_all add: daemon_inv_def)
  obtain p ins eph garbage i aosk d where route: "is_route ?g b a p" "route_to_instructs p ?g = Inr ins" and new: "length garbage = 621"
      "reply_block_new E eph garbage i ins (onion_public_of E (?osk a)) aosk isk = Inr (rb, (i, d))" "i \<noteq> 0" and known: "degarblers (N a) i = Some d"
    using block(1) unfolding answerable_def names(1) by blast
  have ins: "route_for E (map ?osk (butlast p)) ins" "map next_fingerprint ins = tl p"
    using honest_instructs[OF pl g route(1), of ?osk] r route(2) by (auto simp: reaches_def)
  obtain raw where enc: "inner_encode E (Message ?m) (global_identity (N b)) = Inr raw" using fits inner_encode_ok_iff by blast
  let ?pkt = "\<lparr>header = rb_header rb, onion_body = raw\<rparr>" and ?store = "snd (rb_store_pop (lru E) ?to (anon_dests (N b)))"
  let ?t = "(N b)\<lparr>anon_dests := ?store, neigh := inject_asif_incoming ?pkt (neigh (N b))\<rparr>" and ?M = "N(b := (N b)\<lparr>anon_dests := ?store\<rparr>)"
  note send = send_with_block[OF laws inv(2) block(3) enc]
  have popped: "rb_stack (lru E) ?store ?to = older" using rb_store_pop_effect(3)[OF daemon_lawsD(4)[OF laws] st] block(3) by simp
  obtain final x where final: "relay_path E (map ?osk (butlast p)) ?pkt = Some (tl p, final)"
      "peel E final (?osk a) = Inr (GarbledReply i x)" "degarble E d x = Inr (Message ?m, b)"
    using reply_arrives[OF pl new(1) _ ins(1) new(2,3) enc] ins(2) names(2) by (auto simp: wf_inner_def)
  have d: "my_anon_isk d = isk" using new(2) by (auto simp: reply_block_new_def Let_def res_simps)
  have same: "neigh (?M y) = neigh (N y)" "links (?M y) = links (N y)" "global_onion_sk (?M y) = ?osk y" for y by simp_all
  have quiet': "quiet (?M y)" for y using quiet[of y] unfolding quiet_def same .
  have empty: "neigh_incoming (neigh (N y)) = []" for y using quiet by (simp add: quiet_def)
  have start: "N(b := ?t) = ?M(b := holding [?pkt] (?M b))" using empty by (simp add: inject_asif_incoming_def holding_def)
  have "daemon_inv E ok ?t" using safe_send_n2r[OF laws inv(2), of "global_identity (N b)" sd ?to dd content] send by (simp add: safe_def total_def)
  then have wf: "wf_packet ?pkt" using empty by (simp add: daemon_inv_def inject_asif_incoming_def wf_queue_def)
  have ends: "p \<noteq> []" "hd p = b" "last p = a" and path: "successively (linked ?g) p" using route(1) by (auto simp: is_route_def)
  have "successively (\<lambda>y z. joined wires ?M y z \<and> y \<noteq> z) p"
    by (rule successively_mono[OF path]) (use up linked_irrefl[OF g] joined_cong[of ?M N wires, OF same(1,2)] in simp)
  then have "leads (net_step E wires) (path_turns wires ?M p) (?M(hd p := holding [?pkt] (?M (hd p)))) (?M(a := node_step E OpPacket (holding [final] (?M a))))"
    using journey_leads[of E ?M, OF pl quiet' holding_idle[of ?M, OF quiet'] _ ends(1,3), of wires final
        "?M(a := node_step E OpPacket (holding [final] (?M a)))" ?osk ?pkt] same(3) wf final(1) by simp
  then have crosses: "leads (net_step E wires) (path_turns wires N p) (N(b := ?t)) (?M(a := node_step E OpPacket (holding [final] (N a))))"
    unfolding ends(2) start path_turns_cong[of ?M N, OF same(1)] using ab by simp
  have arrived: "socket_recv_queues (node_step E OpPacket (holding [final] (N a))) (endpoint_new ?to dd) = Some [(?m, b)]"
    using answer_arrives[OF laws inv(1) quiet fit, of ?osk b d final i x ?m] r names(1) block(2) final(2,3) known room d by (simp add: message_new_def)
  have "\<exists>rest. socket_recv_queues (fold (net_step E wires) us (N(b := ?t)) a) (endpoint_new ?to dd) = Some ((?m, b) # rest)"
    if us: "subseq (path_turns wires N p) us" for us
  proof -
    obtain vs where vs: "fold (net_step E wires) us (N(b := ?t)) = fold (net_step E wires) vs (?M(a := node_step E OpPacket (holding [final] (N a))))"
      using leads_any_order[OF crosses us] by blast
    show ?thesis unfolding vs
      using queued.keeps_net_run[of "?M(a := node_step E OpPacket (holding [final] (N a)))" a "endpoint_new ?to dd" "[(?m, b)]" E wires vs] arrived
      by (simp del: node_step.simps)
  qed
  then show thesis using that[OF send _ route(1)] popped by simp
qed

text \<open>Receiving takes from the queues of the sockets only.\<close>

lemma recv_loop_shrinks: "recv_loop inq q = Some (x, inq', q') \<Longrightarrow> length q' \<le> length q"
  by (induction inq q rule: recv_loop.induct) auto

lemma takes_frame:
  "takes n2r_next n (k, s) = Some (xs, (k', s')) \<Longrightarrow>
    \<exists>q. s' = s\<lparr>socket_recv_queues := q\<rparr> \<and> (\<forall>ep w'. q ep = Some w' \<longrightarrow> (\<exists>w. socket_recv_queues s ep = Some w \<and> length w' \<le> length w))"
proof (induction n arbitrary: k s xs)
  case 0
  then have "s' = s\<lparr>socket_recv_queues := socket_recv_queues s\<rparr>" by simp
  then show ?case by blast
next
  case (Suc n)
  obtain x k1 s1 ys where 1: "n2r_next (k, s) = Some (x, k1, s1)" "takes n2r_next n (k1, s1) = Some (ys, (k', s'))"
    using Suc.prems by (auto split: option.splits)
  obtain q where q: "s' = s1\<lparr>socket_recv_queues := q\<rparr>" "\<And>ep w'. q ep = Some w' \<Longrightarrow> \<exists>w. socket_recv_queues s1 ep = Some w \<and> length w' \<le> length w"
    using Suc.IH[OF 1(2)] by blast
  obtain q1 where q1: "s1 = s\<lparr>socket_recv_queues := q1\<rparr>" "\<And>ep w'. q1 ep = Some w' \<Longrightarrow> \<exists>w. socket_recv_queues s ep = Some w \<and> length w' \<le> length w"
  proof (cases "incoming_queue k")
    case Nil
    then show thesis using 1(1) that
      by (fastforce simp: n2r_next_def n2r_recv_from_def split: option.splits sum.splits dest: recv_loop_shrinks)
  next
    case (Cons y ys)
    then have "s1 = s\<lparr>socket_recv_queues := socket_recv_queues s\<rparr>" using 1(1) by (simp add: n2r_next_def n2r_recv_from_def)
    then show thesis using that by blast
  qed
  have "s' = s\<lparr>socket_recv_queues := q\<rparr>" using q(1) q1(1) by simp
  moreover have "\<exists>w. socket_recv_queues s ep = Some w \<and> length w' \<le> length w" if w: "q ep = Some w'" for ep w'
  proof -
    obtain w1 where "q1 ep = Some w1" "length w' \<le> length w1" using q(2)[OF w] q1(1) by auto
    then show ?thesis using q1(2)[of ep w1] by fastforce
  qed
  ultimately show ?case by blast
qed

section \<open>Question and answer\<close>

text \<open>
  (C3) First contact between an anonymous sender and a node.  In a network at rest where the node \<open>a\<close> has no reply
  blocks out for an anonymous identity, a message sent with \<open>send_n2r\<close> under that identity to the node \<open>b\<close> succeeds, and the
  tasks of the network can take turns so that the socket at \<open>b\<close> yields exactly the message, from the endpoint of the
  anonymous identity.  When \<open>b\<close> then sends an answer to this endpoint, that succeeds too, and the tasks can
  take turns so that the anonymous socket at \<open>a\<close> yields exactly the answer, from the endpoint of \<open>b\<close>.  The wires
  lose nothing, and no identifier drawn for a reply block is zero.
\<close>

theorem first_contact:
  assumes laws: "daemon_laws E ok" and inv: "daemon_inv E ok (N a)" "daemon_inv E ok (N b)" and quiet: "\<And>x. quiet (N x)" and ab: "a \<noteq> b"
    and names: "my_fp E (N a) = a" "my_fp E (N b) = b" and fit: "blocks_fit E BATCH_SIZE" and ids: "\<And>n. rand_u64 E n \<noteq> 0"
    and up: "\<And>x y. linked (graph (N a)) x y \<Longrightarrow> joined wires N x y"
    and r: "reaches E (\<lambda>x. global_onion_sk (N x)) (graph (N a)) a b"
    and anon: "isk \<noteq> global_identity (N a)" and no_rb: "rb_stack (lru E) (anon_dests (N a)) b = []" and fresh: "balance_table (N a) (isk, b) = None"
    and fits: "length (bincode_serialize E (Message (message_new da db question))) \<le> 8172"
      "length (bincode_serialize E (Message (message_new db da answer))) \<le> 8172"
    and sockets: "bound_dock ka = endpoint_new (my_fingerprint E isk) da" "incoming_queue ka = []"
      "bound_dock kb = endpoint_new b db" "incoming_queue kb = []"
      "socket_recv_queues (N a) (endpoint_new (my_fingerprint E isk) da) = Some []" "socket_recv_queues (N b) (endpoint_new b db) = Some []"
  shows "\<exists>s us M. send_n2r E isk da b db question (N a) = Some (Inr (), s) \<and> M = fold (net_step E wires) us (N(a := s)) \<and>
     (\<exists>kb' sb t vs. takes n2r_next (length question) (kb, M b) =
          Some (map (\<lambda>m. (m, endpoint_new (my_fingerprint E isk) da)) question, (kb', sb)) \<and>
        send_n2r E (global_identity (N b)) db (my_fingerprint E isk) da answer sb = Some (Inr (), t) \<and>
        (\<exists>ka' sa. takes n2r_next (length answer) (ka, fold (net_step E wires) vs (M(b := t)) a) =
           Some (map (\<lambda>m. (m, endpoint_new b db)) answer, (ka', sa))))"
proof -
  let ?fp = "my_fingerprint E isk"
  have none: "balance_of (N a) isk b = 0" using fresh by (simp add: balance_of_def)
  obtain s us sa sb rb older where send: "send_n2r E isk da b db question (N a) = Some (Inr (), s)"
      and M: "fold (net_step E wires) us (N(a := s)) = N(a := sa, b := sb)" (is "_ = ?M")
      and sa: "posted (N a) (sa\<lparr>anon_dests := anon_dests (N a)\<rparr>) []" "daemon_inv E ok sa" "answerable E sa b isk rb" "balance_of sa isk b = 100"
      and sb: "sb = (N b)\<lparr>anon_dests := anon_dests sb, socket_recv_queues := (socket_recv_queues (N b))(endpoint_new b db \<mapsto> [(message_new da db question, ?fp)])\<rparr>"
        "daemon_inv E ok sb" "rb_stack (lru E) (anon_dests sb) ?fp = rb # older"
    using question_crosses[OF laws inv quiet ab names fit ids up r anon no_rb none fits(1) sockets(6)] by metis
  have arrived: "socket_recv_queues sb (endpoint_new b db) = Some [(message_new da db question, ?fp)]" by (subst sb(1)) simp
  obtain kb' tb where taken: "takes n2r_next (length question) (kb, sb) = Some (map (\<lambda>m. (m, endpoint_new ?fp da)) question, (kb', tb))"
    using queued_received[OF sockets(3,4) arrived] by blast
  obtain q where q: "tb = sb\<lparr>socket_recv_queues := q\<rparr>" "\<And>ep w'. q ep = Some w' \<Longrightarrow> \<exists>w. socket_recv_queues sb ep = Some w \<and> length w' \<le> length w"
    using takes_frame[OF taken] by blast
  let ?N = "N(a := sa, b := tb)"
  have fb: "neigh tb = neigh (N b)" "links tb = links (N b)" "global_onion_sk tb = global_onion_sk (N b)" "global_identity tb = global_identity (N b)"
      "anon_dests tb = anon_dests sb" unfolding q(1) by (simp, subst sb(1), simp)+ simp
  have fa: "neigh sa = neigh (N a)" "links sa = links (N a)" "global_onion_sk sa = global_onion_sk (N a)" "global_identity sa = global_identity (N a)"
      "graph sa = graph (N a)" "socket_recv_queues sa = socket_recv_queues (N a)"
    using posted_fields[OF sa(1)] by simp_all
  have invb: "daemon_inv E ok tb"
  proof -
    have "length w' \<le> 1000" if "q ep = Some w'" for ep w'
      using q(2)[OF that] sb(2) unfolding daemon_inv_def by (meson le_trans)
    then show ?thesis using sb(2) by (simp add: q(1) daemon_inv_def)
  qed
  have same: "neigh (?N x) = neigh (N x)" "links (?N x) = links (N x)" "global_onion_sk (?N x) = global_onion_sk (N x)" for x
    using fa fb by auto
  have quiet': "quiet (?N x)" for x using quiet[of x] unfolding quiet_def same .
  have up': "joined wires ?N x y" if "linked (graph (N a)) x y" for x y using up[OF that] joined_cong[of ?N N wires x y, OF same(1,2)] by simp
  have at: "?N a = sa" "?N b = tb" using ab by simp_all
  have pre: "daemon_inv E ok (?N a)" "daemon_inv E ok (?N b)" "my_fp E (?N a) = a" "my_fp E (?N b) = b" "answerable E (?N a) b isk rb"
      "- 399 \<le> balance_of (?N a) isk b" "rb_stack (lru E) (anon_dests (?N b)) ?fp = rb # older"
      "socket_recv_queues (?N a) (endpoint_new ?fp da) = Some []" "reaches E (\<lambda>x. global_onion_sk (?N x)) (graph (?N a)) a b"
      "linked (graph (?N a)) x y \<Longrightarrow> joined wires ?N x y" for x y
    unfolding at same(3) using sa(2-4) invb names sb(3) fa fb sockets(5) r up' by simp_all
  obtain t p where reply: "send_n2r E (global_identity (?N b)) db ?fp da answer (?N b) = Some (Inr (), t)"
      "\<And>us. subseq (path_turns wires ?N p) us \<Longrightarrow>
         \<exists>rest. socket_recv_queues (fold (net_step E wires) us (?N(b := t)) a) (endpoint_new ?fp da) = Some ((message_new db da answer, b) # rest)"
    using answer_returns[where N = ?N, OF laws pre(1,2) quiet' ab pre(3,4) fit pre(10) pre(9) pre(5-7) fits(2) pre(8)] by blast
  let ?vs = "path_turns wires ?N p"
  have "\<exists>ka' sa. takes n2r_next (length answer) (ka, fold (net_step E wires) ?vs (?M(b := t)) a) =
      Some (map (\<lambda>m. (m, endpoint_new b db)) answer, (ka', sa))"
    using reply(2)[of ?vs] head_received[OF sockets(1,2)] by auto
  then show ?thesis using send taken reply(1)[unfolded at fb(4)] unfolding M[symmetric] by (intro exI[of _ s] exI[of _ us] exI[of _ ?M]) (auto simp: M)
qed

definition demo_first_net :: "demo_cache mesh" where
  "demo_first_net = demo_net(demo_fp 1 := (demo_node 1 2)\<lparr>socket_recv_queues := [endpoint_new (demo_fp 3) 6 \<mapsto> []]\<rparr>)"

lemma demo_first_same:
  "neigh (demo_first_net x) = neigh (demo_net x)" "links (demo_first_net x) = links (demo_net x)"
  "global_onion_sk (demo_first_net x) = global_onion_sk (demo_net x)" "graph (demo_first_net x) = graph (demo_net x)"
  "global_identity (demo_first_net x) = global_identity (demo_net x)" "anon_dests (demo_first_net x) = anon_dests (demo_net x)"
  "balance_table (demo_first_net x) = balance_table (demo_net x)"
  by (simp_all add: demo_first_net_def demo_net_nodes demo_net_nodes[simplified])

lemma demo_first_facts:
  "demo_first_net (demo_fp 2) = demo_node 2 1" "daemon_inv demo_denv demo_lru_ok (demo_first_net (demo_fp 1))"
  "daemon_inv demo_denv demo_lru_ok (demo_first_net (demo_fp 2))" "quiet (demo_first_net x)"
  "linked demo_graph a b \<Longrightarrow> joined demo_wires demo_first_net a b"
  "socket_recv_queues (demo_first_net (demo_fp 1)) (endpoint_new (demo_fp 3) 6) = Some []"
  "socket_recv_queues (demo_first_net (demo_fp 2)) (endpoint_new (demo_fp 2) 6) = Some []"
  "balance_table (demo_first_net (demo_fp 1)) (demo_isk 3, demo_fp 2) = None"
proof -
  show two: "demo_first_net (demo_fp 2) = demo_node 2 1" using demo_fps by (simp add: demo_first_net_def demo_net_nodes)
  show "daemon_inv demo_denv demo_lru_ok (demo_first_net (demo_fp 1))"
    using demo_node_inv[of 1 2] by (simp add: demo_first_net_def daemon_inv_def)
  show "daemon_inv demo_denv demo_lru_ok (demo_first_net (demo_fp 2))" unfolding two by (rule demo_node_inv)
  show "quiet (demo_first_net x)" using demo_net_quiet[of x] by (simp add: quiet_def demo_first_same)
  show "linked demo_graph a b \<Longrightarrow> joined demo_wires demo_first_net a b"
    using demo_net_joined[of a b] joined_cong[of demo_first_net demo_net demo_wires a b] demo_first_same by simp
  show "socket_recv_queues (demo_first_net (demo_fp 1)) (endpoint_new (demo_fp 3) 6) = Some []" by (simp add: demo_first_net_def)
  show "socket_recv_queues (demo_first_net (demo_fp 2)) (endpoint_new (demo_fp 2) 6) = Some []" unfolding two by (simp add: demo_node_def)
  show "balance_table (demo_first_net (demo_fp 1)) (demo_isk 3, demo_fp 2) = None"
    by (simp add: demo_first_net_def demo_node_def demo_daemon_def)
qed

theorem first_contact_witness:
  "\<exists>s us M. send_n2r demo_denv (demo_isk 3) 6 (demo_fp 2) 6 [[1, 2, 3]] (demo_first_net (demo_fp 1)) = Some (Inr (), s) \<and>
     M = fold (net_step demo_denv demo_wires) us (demo_first_net(demo_fp 1 := s)) \<and>
     (\<exists>kb' sb t vs. takes n2r_next 1 (demo_socket\<lparr>bound_dock := endpoint_new (demo_fp 2) 6\<rparr>, M (demo_fp 2)) =
          Some ([([1, 2, 3], endpoint_new (demo_fp 3) 6)], (kb', sb)) \<and>
        send_n2r demo_denv (demo_isk 2) 6 (demo_fp 3) 6 [[4]] sb = Some (Inr (), t) \<and>
        (\<exists>ka' sa. takes n2r_next 1 (demo_socket\<lparr>bound_dock := endpoint_new (demo_fp 3) 6\<rparr>,
             fold (net_step demo_denv demo_wires) vs (M(demo_fp 2 := t)) (demo_fp 1)) = Some ([([4], endpoint_new (demo_fp 2) 6)], (ka', sa))))"
proof -
  let ?ka = "demo_socket\<lparr>bound_dock := endpoint_new (demo_fp 3) 6\<rparr>" and ?kb = "demo_socket\<lparr>bound_dock := endpoint_new (demo_fp 2) 6\<rparr>"
  note net = demo_first_facts
  have fp: "my_fingerprint demo_denv (demo_isk n) = demo_fp n" for n by (simp add: demo_denv_same demo_fp_def)
  have g: "graph (demo_first_net (demo_fp 1)) = demo_graph" unfolding demo_first_same demo_net_facts ..
  have id1: "global_identity (demo_first_net (demo_fp 1)) = demo_isk 1" unfolding demo_first_same by (rule demo_net_facts)
  have id2: "global_identity (demo_first_net (demo_fp 2)) = demo_isk 2" by (simp add: net(1) demo_node_def)
  have ab: "demo_fp 1 \<noteq> demo_fp 2" and anon: "demo_isk 3 \<noteq> demo_isk 1" using demo_fps by (simp_all add: demo_isk_def)
  have r: "reaches demo_denv (\<lambda>x. global_onion_sk (demo_first_net x)) demo_graph (demo_fp 1) (demo_fp 2)"
    unfolding reaches_def demo_first_same using demo_net_honest demo_route_exists
    by (auto intro!: exI[of _ "[demo_fp 1, demo_fp 2]"])
  have fit: "blocks_fit demo_denv BATCH_SIZE" using demo_blocks_fit by (simp add: BATCH_SIZE_def)
  have ids: "rand_u64 demo_denv k \<noteq> 0" for k by (simp add: demo_denv_defs)
  have no_rb: "rb_stack (lru demo_denv) (anon_dests (demo_first_net (demo_fp 1))) (demo_fp 2) = []" unfolding demo_first_same by (rule demo_net_facts)
  have fits: "length (bincode_serialize demo_denv (Message (message_new 6 6 [[1, 2, 3]]))) \<le> 8172"
      "length (bincode_serialize demo_denv (Message (message_new 6 6 [[4]]))) \<le> 8172"
    by (simp_all add: demo_denv_same demo_serialize_def put_message_def put_nat_def put_bytes_def message_new_def)
  have sockets: "bound_dock ?ka = endpoint_new (demo_fp 3) 6" "incoming_queue ?ka = []" "bound_dock ?kb = endpoint_new (demo_fp 2) 6" "incoming_queue ?kb = []"
    by (simp_all add: demo_socket_def)
  show ?thesis
    using first_contact[of demo_denv demo_lru_ok demo_first_net "demo_fp 1" "demo_fp 2" demo_wires "demo_isk 3" 6 6 "[[1, 2, 3]]" "[[4]]" ?ka ?kb,
        unfolded g id1 id2 fp, OF demo_daemon_laws net(2,3,4) ab refl refl fit ids net(5) r anon no_rb net(8) fits sockets net(6,7)]
    by simp
qed

section \<open>Any later answer\<close>

text \<open>
  (C4) Whoever holds a reply block can answer, in any order of events.  In a network at rest, let the node \<open>b\<close> hold a
  reply block of an anonymous identity, one whose degarbler the node \<open>a\<close> behind the identity still keeps and
  whose identifier is not zero.  A \<open>send_n2r\<close> of \<open>b\<close> to the anonymous endpoint succeeds and uses up the block, and there
  is a route such that, in whatever order the packet-moving tasks of all nodes then take their turns, once
  those of the route have had theirs in its order, the socket of the identity at \<open>a\<close> yields exactly the answer, with
  the endpoint of \<open>b\<close> as its source.  This includes the replenishing that the arrival sets off at \<open>a\<close>: the balance that \<open>a\<close>
  keeps for \<open>b\<close>, which one replenishing raises to 100 or more, may be anything a queue of a hundred packets can make up for.  The wires lose
  nothing.
\<close>

theorem anonymous_answer_arrives:
  assumes laws: "daemon_laws E ok" and inv: "daemon_inv E ok (N a)" "daemon_inv E ok (N b)" and quiet: "\<And>x. quiet (N x)" and ab: "a \<noteq> b"
    and names: "my_fp E (N a) = a" "my_fp E (N b) = b" and fit: "blocks_fit E BATCH_SIZE"
    and up: "\<And>x y. linked (graph (N a)) x y \<Longrightarrow> joined wires N x y"
    and r: "reaches E (\<lambda>x. global_onion_sk (N x)) (graph (N a)) a b"
    and block: "answerable E (N a) b isk rb" "rb_stack (lru E) (anon_dests (N b)) (my_fingerprint E isk) = rb # older"
    and balance: "- 399 \<le> balance_of (N a) isk b"
    and fits: "length (bincode_serialize E (Message (message_new sd dd answer))) \<le> 8172"
    and socket: "bound_dock k = endpoint_new (my_fingerprint E isk) dd" "incoming_queue k = []"
      "socket_recv_queues (N a) (endpoint_new (my_fingerprint E isk) dd) = Some []"
  shows "\<exists>t p. send_n2r E (global_identity (N b)) sd (my_fingerprint E isk) dd answer (N b) = Some (Inr (), t) \<and>
     rb_stack (lru E) (anon_dests t) (my_fingerprint E isk) = older \<and> is_route (graph (N a)) b a p \<and>
     (\<forall>us. subseq (path_turns wires N p) us \<longrightarrow>
        (\<exists>k' s'. takes n2r_next (length answer) (k, fold (net_step E wires) us (N(b := t)) a) =
           Some (map (\<lambda>m. (m, endpoint_new b sd)) answer, (k', s'))))"
proof -
  obtain t p where "send_n2r E (global_identity (N b)) sd (my_fingerprint E isk) dd answer (N b) = Some (Inr (), t)"
      "rb_stack (lru E) (anon_dests t) (my_fingerprint E isk) = older" "is_route (graph (N a)) b a p"
      "\<And>us. subseq (path_turns wires N p) us \<Longrightarrow> \<exists>rest. socket_recv_queues (fold (net_step E wires) us (N(b := t)) a)
         (endpoint_new (my_fingerprint E isk) dd) = Some ((message_new sd dd answer, b) # rest)"
    using answer_returns[OF laws inv quiet ab names fit up r block(1) balance block(2) fits socket(3)] by blast
  then show ?thesis using head_received[OF socket(1,2)] by blast
qed

text \<open>A reply block of the first node, for the anonymous identity, made along the way back from the second.\<close>

definition demo_answer_block :: "reply_block \<times> reply_degarbler" where
  "demo_answer_block = (case reply_block_new demo_denv (rand_eph demo_denv 0) (rand_garbage demo_denv 0) 5
       (projr (route_to_instructs [demo_fp 2, demo_fp 1] demo_graph)) (onion_public_of demo_denv (OnionSecret [1])) (OnionSecret [3]) (demo_isk 3) of
     Inr (rb, (_, d)) \<Rightarrow> (rb, d) | Inl _ \<Rightarrow> undefined)"

definition demo_answer_net :: "demo_cache mesh" where
  "demo_answer_net = demo_first_net(
     demo_fp 1 := (demo_first_net (demo_fp 1))\<lparr>degarblers := [5 \<mapsto> snd demo_answer_block], balance_table := [(demo_isk 3, demo_fp 2) \<mapsto> 100]\<rparr>,
     demo_fp 2 := (demo_first_net (demo_fp 2))\<lparr>anon_dests := rb_store_insert demo_lru (demo_fp 3) (fst demo_answer_block) (rb_store_new demo_lru)\<rparr>)"

lemma demo_answer_same:
  "neigh (demo_answer_net x) = neigh (demo_net x)" "links (demo_answer_net x) = links (demo_net x)"
  "global_onion_sk (demo_answer_net x) = global_onion_sk (demo_net x)" "graph (demo_answer_net x) = graph (demo_net x)"
  "global_identity (demo_answer_net x) = global_identity (demo_net x)" "socket_recv_queues (demo_answer_net x) = socket_recv_queues (demo_first_net x)"
  by (simp_all add: demo_answer_net_def demo_first_same)

lemma demo_reply_block:
  obtains ins where "is_route demo_graph (demo_fp 2) (demo_fp 1) [demo_fp 2, demo_fp 1]"
    "route_to_instructs [demo_fp 2, demo_fp 1] demo_graph = Inr ins" "wf_reply_block (fst demo_answer_block)"
    "reply_block_new demo_denv (rand_eph demo_denv 0) (rand_garbage demo_denv 0) 5 ins (onion_public_of demo_denv (OnionSecret [1])) (OnionSecret [3]) (demo_isk 3) =
       Inr (fst demo_answer_block, (5, snd demo_answer_block))"
proof -
  have route: "is_route demo_graph (demo_fp 2) (demo_fp 1) [demo_fp 2, demo_fp 1]" using is_route_rev[OF demo_route_exists] by simp
  obtain ins where ins: "route_to_instructs [demo_fp 2, demo_fp 1] demo_graph = Inr ins"
      "route_for demo_denv (map (\<lambda>x. global_onion_sk (demo_net x)) (butlast [demo_fp 2, demo_fp 1])) ins" "length ins = length [demo_fp 2, demo_fp 1] - 1"
    using honest_instructs[OF daemon_lawsD(1)[OF demo_daemon_laws] demo_graph_inv_denv route, of "\<lambda>x. global_onion_sk (demo_net x)"] demo_net_honest by blast
  then have short: "length ins < 10" by simp
  obtain rb d where new: "reply_block_new demo_denv (rand_eph demo_denv 0) (rand_garbage demo_denv 0) 5 ins
      (onion_public_of demo_denv (OnionSecret [1])) (OnionSecret [3]) (demo_isk 3) = Inr (rb, (5, d))" "wf_reply_block rb"
    using reply_block_ok[OF daemon_lawsD(1,5)[OF demo_daemon_laws] ins(2) short demo_blocks_fit] by blast
  then have eq: "demo_answer_block = (rb, d)" using ins(1) by (simp add: demo_answer_block_def)
  show thesis by (rule that[OF route ins(1)]) (unfold eq fst_conv snd_conv, (rule new)+)
qed

lemma demo_answer_facts:
  "daemon_inv demo_denv demo_lru_ok (demo_answer_net (demo_fp 1))" "daemon_inv demo_denv demo_lru_ok (demo_answer_net (demo_fp 2))"
  "quiet (demo_answer_net x)" "linked demo_graph a b \<Longrightarrow> joined demo_wires demo_answer_net a b"
  "answerable demo_denv (demo_answer_net (demo_fp 1)) (demo_fp 2) (demo_isk 3) (fst demo_answer_block)"
  "rb_stack (lru demo_denv) (anon_dests (demo_answer_net (demo_fp 2))) (demo_fp 3) = [fst demo_answer_block]"
  "balance_of (demo_answer_net (demo_fp 1)) (demo_isk 3) (demo_fp 2) = 100"
proof -
  obtain ins where ins: "is_route demo_graph (demo_fp 2) (demo_fp 1) [demo_fp 2, demo_fp 1]"
      "route_to_instructs [demo_fp 2, demo_fp 1] demo_graph = Inr ins" and wf: "wf_reply_block (fst demo_answer_block)"
      and new: "reply_block_new demo_denv (rand_eph demo_denv 0) (rand_garbage demo_denv 0) 5 ins (onion_public_of demo_denv (OnionSecret [1])) (OnionSecret [3]) (demo_isk 3) =
       Inr (fst demo_answer_block, (5, snd demo_answer_block))"
    using demo_reply_block by blast
  have one: "demo_answer_net (demo_fp 1) = (demo_first_net (demo_fp 1))\<lparr>degarblers := [5 \<mapsto> snd demo_answer_block], balance_table := [(demo_isk 3, demo_fp 2) \<mapsto> 100]\<rparr>"
    and two: "demo_answer_net (demo_fp 2) = (demo_first_net (demo_fp 2))\<lparr>anon_dests := rb_store_insert demo_lru (demo_fp 3) (fst demo_answer_block) (rb_store_new demo_lru)\<rparr>"
    using demo_fps by (simp_all add: demo_answer_net_def)
  have store: "rb_store_inv demo_lru demo_lru_ok (rb_store_new demo_lru)" "rb_stack demo_lru (rb_store_new demo_lru) fp = []" for fp
    by (rule rb_store_new_inv[OF demo_lru_laws]) simp
  show "daemon_inv demo_denv demo_lru_ok (demo_answer_net (demo_fp 1))" unfolding one using demo_first_facts(2) by (simp add: daemon_inv_def)
  show "daemon_inv demo_denv demo_lru_ok (demo_answer_net (demo_fp 2))"
    unfolding two using demo_first_facts(3) insert_all_inv[OF demo_lru_laws store(1), of "[fst demo_answer_block]" "demo_fp 3"] store(2) wf
    by (simp add: daemon_inv_def demo_denv_defs)
  show "quiet (demo_answer_net x)" using demo_net_quiet[of x] by (simp add: quiet_def demo_answer_same)
  show "linked demo_graph a b \<Longrightarrow> joined demo_wires demo_answer_net a b"
    using demo_net_joined[of a b] joined_cong[of demo_answer_net demo_net demo_wires a b] demo_answer_same by simp
  have g: "graph (demo_answer_net (demo_fp 1)) = demo_graph" "my_fp demo_denv (demo_answer_net (demo_fp 1)) = demo_fp 1"
      "global_onion_sk (demo_answer_net (demo_fp 1)) = OnionSecret [1]"
    unfolding demo_answer_same demo_net_facts using demo_net_facts(1) by (simp_all add: demo_net_nodes demo_net_nodes[simplified] demo_node_def)
  show "answerable demo_denv (demo_answer_net (demo_fp 1)) (demo_fp 2) (demo_isk 3) (fst demo_answer_block)"
    unfolding answerable_def g
    by (intro exI[of _ "[demo_fp 2, demo_fp 1]"] exI[of _ ins] exI[of _ "rand_eph demo_denv 0"] exI[of _ "rand_garbage demo_denv 0"] exI[of _ 5]
        exI[of _ "OnionSecret [3]"] exI[of _ "snd demo_answer_block"]) (use ins new daemon_lawsD(5)[OF demo_daemon_laws] in \<open>simp add: one[simplified]\<close>)
  show "rb_stack (lru demo_denv) (anon_dests (demo_answer_net (demo_fp 2))) (demo_fp 3) = [fst demo_answer_block]"
    unfolding two using rb_store_insert_effect(2)[OF demo_lru_laws store(1)] store(2) by (simp add: demo_denv_defs)
  show "balance_of (demo_answer_net (demo_fp 1)) (demo_isk 3) (demo_fp 2) = 100" unfolding one by (simp add: balance_of_def)
qed

theorem anonymous_answer_arrives_witness:
  "\<exists>t p. send_n2r demo_denv (demo_isk 2) 6 (demo_fp 3) 6 [[4]] (demo_answer_net (demo_fp 2)) = Some (Inr (), t) \<and>
     rb_stack (lru demo_denv) (anon_dests t) (demo_fp 3) = [] \<and> is_route demo_graph (demo_fp 2) (demo_fp 1) p \<and>
     (\<forall>us. subseq (path_turns demo_wires demo_answer_net p) us \<longrightarrow>
        (\<exists>k' s'. takes n2r_next 1 (demo_socket\<lparr>bound_dock := endpoint_new (demo_fp 3) 6\<rparr>,
             fold (net_step demo_denv demo_wires) us (demo_answer_net(demo_fp 2 := t)) (demo_fp 1)) =
           Some ([([4], endpoint_new (demo_fp 2) 6)], (k', s'))))"
proof -
  let ?k = "demo_socket\<lparr>bound_dock := endpoint_new (demo_fp 3) 6\<rparr>"
  note net = demo_answer_facts
  have fp: "my_fingerprint demo_denv (demo_isk n) = demo_fp n" for n by (simp add: demo_denv_same demo_fp_def)
  have g: "graph (demo_answer_net (demo_fp 1)) = demo_graph" unfolding demo_answer_same demo_net_facts ..
  have id1: "global_identity (demo_answer_net (demo_fp 1)) = demo_isk 1" unfolding demo_answer_same by (rule demo_net_facts)
  have id2: "global_identity (demo_answer_net (demo_fp 2)) = demo_isk 2" unfolding demo_answer_same demo_net_nodes by (simp add: demo_node_def)
  have ab: "demo_fp 1 \<noteq> demo_fp 2" using demo_fps by simp
  have r: "reaches demo_denv (\<lambda>x. global_onion_sk (demo_answer_net x)) demo_graph (demo_fp 1) (demo_fp 2)"
    unfolding reaches_def demo_answer_same using demo_net_honest demo_route_exists
    by (auto intro!: exI[of _ "[demo_fp 1, demo_fp 2]"])
  have fit: "blocks_fit demo_denv BATCH_SIZE" using demo_blocks_fit by (simp add: BATCH_SIZE_def)
  have fits: "length (bincode_serialize demo_denv (Message (message_new 6 6 [[4]]))) \<le> 8172"
    by (simp add: demo_denv_same demo_serialize_def put_message_def put_nat_def put_bytes_def message_new_def)
  have balance: "- 399 \<le> balance_of (demo_answer_net (demo_fp 1)) (demo_isk 3) (demo_fp 2)" unfolding net(7) by simp
  have socket: "bound_dock ?k = endpoint_new (demo_fp 3) 6" "incoming_queue ?k = []"
      "socket_recv_queues (demo_answer_net (demo_fp 1)) (endpoint_new (demo_fp 3) 6) = Some []"
    unfolding demo_answer_same using demo_first_facts(6) by (simp_all add: demo_socket_def)
  show ?thesis
    using anonymous_answer_arrives[of demo_denv demo_lru_ok demo_answer_net "demo_fp 1" "demo_fp 2" demo_wires "demo_isk 3" "fst demo_answer_block" "[]" 6 6 "[[4]]" ?k,
        unfolded g id1 id2 fp, OF demo_daemon_laws net(1-3) ab refl refl fit net(4) r net(5,6) balance fits socket]
    by simp
qed

end
