(* ===== verification/Config_Value.thy ===== *)
theory Config_Value
  imports Startup
begin

text \<open>
  Configurations as values: what the types of \<open>src/config.rs\<close> and their serde attributes read from the JSON
  value that \<open>src/main.rs\<close> takes from the configuration file.  Unknown fields are ignored; a map
  keeps the order of the value.  Of \<open>SocketAddr::from_str\<close> the IPv4 form is modelled; decoding of hexadecimal
  is third-party code, given as \<open>unhex\<close>.
\<close>

section \<open>Values\<close>

datatype json = JNull | JBool bool | JNum nat | JStr string | JArr "json list" | JObj "(string \<times> json) list"

definition json_str :: "json \<Rightarrow> string option" where
  "json_str j = (case j of JStr s \<Rightarrow> Some s | _ \<Rightarrow> None)"

definition json_u32 :: "json \<Rightarrow> u32 option" where
  "json_u32 j = (case j of JNum n \<Rightarrow> if n < 2 ^ 32 then Some (of_nat n) else None | _ \<Rightarrow> None)"

definition json_list :: "(json \<Rightarrow> 'a option) \<Rightarrow> json \<Rightarrow> 'a list option" where
  "json_list f j = (case j of JArr vs \<Rightarrow> those (map f vs) | _ \<Rightarrow> None)"

definition json_map :: "(json \<Rightarrow> 'a option) \<Rightarrow> json \<Rightarrow> (string \<times> 'a) list option" where
  "json_map f j = (case j of JObj kvs \<Rightarrow> those (map (\<lambda>(k, v). map_option (Pair k) (f v)) kvs) | _ \<Rightarrow> None)"

definition json_get :: "string \<Rightarrow> json \<Rightarrow> json option" where
  "json_get k j = (case j of JObj kvs \<Rightarrow> map_of kvs k | _ \<Rightarrow> None)"

text \<open>A field that has to be there, and one with a default.\<close>

definition field :: "string \<Rightarrow> (json \<Rightarrow> 'a option) \<Rightarrow> json \<Rightarrow> 'a option" where
  "field k f j = Option.bind (json_get k j) f"

definition field_or :: "string \<Rightarrow> 'a \<Rightarrow> (json \<Rightarrow> 'a option) \<Rightarrow> json \<Rightarrow> 'a option" where
  "field_or k d f j = (case json_get k j of None \<Rightarrow> Some d | Some v \<Rightarrow> f v)"

definition from_str :: "(string \<Rightarrow> 'e + 'a) \<Rightarrow> json \<Rightarrow> 'a option" where
  "from_str parse j = Option.bind (json_str j) (\<lambda>s. case parse s of Inl _ \<Rightarrow> None | Inr x \<Rightarrow> Some x)"

section \<open>Socket addresses\<close>

definition ipv4_octet :: "string \<Rightarrow> bool" where
  "ipv4_octet s \<longleftrightarrow> s \<noteq> [] \<and> length s \<le> 3 \<and> (hd s = CHR ''0'' \<longrightarrow> s = ''0'') \<and>
     (case parse_digits 0 s of Inl _ \<Rightarrow> False | Inr n \<Rightarrow> n \<le> 255)"

definition socket_addr :: "string \<Rightarrow> (string \<times> u16) option" where
  "socket_addr s = (case split_on CHR '':'' s of
     [ip, port] \<Rightarrow>
       if length (split_on CHR ''.'' ip) = 4 \<and> list_all ipv4_octet (split_on CHR ''.'' ip) \<and> port \<noteq> []
       then (case parse_digits 0 port of Inl _ \<Rightarrow> None | Inr n \<Rightarrow> if n < 65536 then Some (ip, of_nat n) else None)
       else None
   | _ \<Rightarrow> None)"

definition json_addr :: "json \<Rightarrow> string option" where
  "json_addr j = Option.bind (json_str j) (\<lambda>s. map_option (\<lambda>_. s) (socket_addr s))"

section \<open>The types of the configuration\<close>

definition read_in_route :: "json \<Rightarrow> in_route_config option" where
  "read_in_route j =
     (if json_get ''protocol'' j \<noteq> Some (JStr ''obfsudp'') then None
      else Option.bind (field ''listen'' (\<lambda>v. Option.bind (json_str v) socket_addr) j) (\<lambda>(ip, port).
           Option.bind (field ''secret'' json_str j) (\<lambda>secret.
             Some \<lparr>ir_listen_ip = ip, ir_listen_port = port, ir_secret = secret\<rparr>)))"

definition read_out_route :: "'z crypto_scheme \<Rightarrow> (string \<Rightarrow> bytes option) \<Rightarrow> json \<Rightarrow> out_route_config option" where
  "read_out_route C unhex j =
     (if json_get ''protocol'' j \<noteq> Some (JStr ''obfsudp'') then None
      else Option.bind (field ''fingerprint'' (from_str (fingerprint_from_str C)) j) (\<lambda>fp.
           Option.bind (field ''connect'' json_addr j) (\<lambda>connect.
           Option.bind (field ''cookie'' (\<lambda>v. Option.bind (json_str v) unhex) j) (\<lambda>cookie.
             if length cookie = 32 then Some \<lparr>or_fingerprint = fp, or_connect = connect, or_cookie = cookie\<rparr> else None))))"

definition read_forward :: "'z crypto_scheme \<Rightarrow> json \<Rightarrow> forward_config option" where
  "read_forward C j =
     Option.bind (field ''listen'' json_addr j) (\<lambda>listen.
     Option.bind (field ''remote'' (from_str (endpoint_from_str C)) j) (\<lambda>remote.
       Some \<lparr>fwd_listen = listen, fwd_remote = remote\<rparr>))"

text \<open>A variant is named by a string or by an object with one field; \<open>null\<close> stands for no data.\<close>

definition read_fallback :: "'z crypto_scheme \<Rightarrow> json \<Rightarrow> fallback option" where
  "read_fallback C j =
     (if j = JStr ''block'' \<or> j = JObj [(''block'', JNull)] then Some Block
      else if j = JStr ''pass_through'' \<or> j = JObj [(''pass_through'', JNull)] then Some PassThrough
      else case j of
        JObj [(k, v)] \<Rightarrow>
          if k = ''simple_proxy'' then map_option SimpleProxyTo (field ''remote'' (from_str (endpoint_from_str C)) v) else None
      | _ \<Rightarrow> None)"

definition read_socks5 :: "'z crypto_scheme \<Rightarrow> json \<Rightarrow> socks5_config option" where
  "read_socks5 C j =
     Option.bind (field ''listen'' json_addr j) (\<lambda>listen.
     Option.bind (field ''fallback'' (read_fallback C) j) (\<lambda>fallback.
       Some \<lparr>s5_listen = listen, s5_fallback = fallback\<rparr>))"

text \<open>The flattened identity: the first field that names one of its variants.\<close>

definition read_identity :: "json \<Rightarrow> identity_cfg option" where
  "read_identity j = (case j of
     JObj kvs \<Rightarrow>
       (case find (\<lambda>(k, _). k = ''identity_seed'' \<or> k = ''identity_file'') kvs of
          None \<Rightarrow> None
        | Some (k, v) \<Rightarrow> map_option (if k = ''identity_seed'' then IdentitySeed else IdentityFile) (json_str v))
   | _ \<Rightarrow> None)"

definition read_handler :: "json \<Rightarrow> forward_handler option" where
  "read_handler j =
     Option.bind (field ''type'' json_str j) (\<lambda>t.
     Option.bind (field ''listen_dock'' json_u32 j) (\<lambda>d.
       if t = ''udp_service'' then map_option (UdpService d) (field ''upstream'' json_addr j)
       else if t = ''tcp_service'' then map_option (TcpService d) (field ''upstream'' json_addr j)
       else if t = ''simple_proxy'' then Some (SimpleProxy d)
       else None))"

definition read_haven :: "'z crypto_scheme \<Rightarrow> json \<Rightarrow> haven_forward_config option" where
  "read_haven C j =
     Option.bind (read_identity j) (\<lambda>i.
     Option.bind (field ''rendezvous'' (from_str (fingerprint_from_str C)) j) (\<lambda>fp.
     Option.bind (field ''handler'' read_handler j) (\<lambda>h.
       Some \<lparr>hf_identity = i, hf_rendezvous = fp, hf_handler = h\<rparr>)))"

text \<open>The identity of the daemon is optional, and one that cannot be read counts as absent.\<close>

definition config_from_value :: "'z crypto_scheme \<Rightarrow> (string \<Rightarrow> bytes option) \<Rightarrow> json \<Rightarrow> config_file option" where
  "config_from_value C unhex j =
     Option.bind (field_or ''control_listen'' default_control_listen json_addr j) (\<lambda>control.
     Option.bind (field_or ''in_routes'' [] (json_map read_in_route) j) (\<lambda>ins.
     Option.bind (field_or ''out_routes'' [] (json_map (read_out_route C unhex)) j) (\<lambda>outs.
     Option.bind (field_or ''udp_forwards'' [] (json_list (read_forward C)) j) (\<lambda>udps.
     Option.bind (field_or ''tcp_forwards'' [] (json_list (read_forward C)) j) (\<lambda>tcps.
     Option.bind (field_or ''socks5'' None (\<lambda>v. if v = JNull then Some None else map_option Some (read_socks5 C v)) j) (\<lambda>s5.
     Option.bind (field_or ''havens'' [] (json_list (read_haven C)) j) (\<lambda>hs.
       case j of
         JObj _ \<Rightarrow> Some \<lparr>cfg_identity = read_identity j, control_listen = control, in_routes = ins, out_routes = outs,
           udp_forwards = udps, tcp_forwards = tcps, socks5 = s5, havens = hs\<rparr>
       | _ \<Rightarrow> None)))))))"

text \<open>
  An identity of the wrong type is not an error.  With \<open>identity_seed\<close> or \<open>identity_file\<close> given as anything but a string, the
  rest of the configuration is read as without it, and the daemon generates an identity.
\<close>

lemma misread_identity_ignored:
  assumes "k \<in> {''identity_seed'', ''identity_file''}" "json_str v = None" "config_from_value C unhex (JObj kvs) = Some cfg"
    and "find (\<lambda>(k, _). k = ''identity_seed'' \<or> k = ''identity_file'') kvs = None"
  shows "config_from_value C unhex (JObj ((k, v) # kvs)) = Some cfg" "global_identity_init C rand_id cfg fs = Some (Inr (rand_id 0), fs)"
proof -
  have same: "field_or f d h (JObj ((k, v) # kvs)) = field_or f d h (JObj kvs)" if "f \<notin> {''identity_seed'', ''identity_file''}" for f d h
    using that assms(1) by (auto simp: field_or_def json_get_def)
  have none: "read_identity (JObj ((k, v) # kvs)) = None" "read_identity (JObj kvs) = None"
    using assms(1,2,4) by (auto simp: read_identity_def)
  show "config_from_value C unhex (JObj ((k, v) # kvs)) = Some cfg" using assms(3) by (simp add: config_from_value_def same none)
  have "cfg_identity cfg = None" using assms(3) none(2) by (auto simp: config_from_value_def bind_eq_Some_conv)
  then show "global_identity_init C rand_id cfg fs = Some (Inr (rand_id 0), fs)" by (simp add: global_identity_init_def)
qed

end
