(* ===== verification/Testbed.thy ===== *)
theory Testbed
  imports Config_Value Command_Line "HOL-Library.Countable" "HOL-Library.Char_ord"
begin

text \<open>
  The generators of test networks: \<open>shadow-tests/gen-earendil-shadow/src/main.rs\<close>, which makes the
  configuration files of a network from a list of adjacencies, and \<open>shadow-tests/gen-topo/src/main.rs\<close>, which
  makes such a list.  Random values, the keys of \<open>sosistab2\<close>, hexadecimal, YAML and the orders in which
  hash tables are iterated are fields of \<open>gen_env\<close>.  The files are the list of the operations
  on the file system, in their order.  Both programs are run with \<open>cargo run\<close>, where an overflow of an integer panics.
\<close>

section \<open>Data\<close>

record gen_env =
  entropy :: "nat \<Rightarrow> bytes"
  mnemonic :: "bytes \<Rightarrow> string"
  obfs_public :: "bytes \<Rightarrow> bytes"
  hex_encode :: "bytes \<Rightarrow> string"
  hex_decode :: "string \<Rightarrow> bytes option"
  to_yaml :: "json \<Rightarrow> string"
  from_yaml :: "bytes \<Rightarrow> json option"
  keys_iter :: "string set \<Rightarrow> string list"

record node_maps =
  ips :: "string \<rightharpoonup> u32"
  obfsudp_ports :: "string \<rightharpoonup> u16"
  secrets :: "string \<rightharpoonup> string"
  identity_seeds :: "string \<rightharpoonup> string"
  fingerprints :: "string \<rightharpoonup> fingerprint"
  cookies :: "string \<rightharpoonup> bytes"
  control_ports :: "string \<rightharpoonup> u16"
  listen_port :: u16

datatype gen_error = TooManyNodes

datatype fs_op = CreateDirAll string | CreateDir string | WriteFile string string

section \<open>The graph\<close>

definition or_default :: "string \<Rightarrow> (string \<rightharpoonup> string set) \<Rightarrow> (string \<rightharpoonup> string set)" where
  "or_default k m = (case m k of None \<Rightarrow> m(k \<mapsto> {}) | Some _ \<Rightarrow> m)"

definition add_adjacency :: "string \<times> string \<Rightarrow> (string \<rightharpoonup> string set) \<Rightarrow> (string \<rightharpoonup> string set)" where
  "add_adjacency e m = (case e of (n1, n2) \<Rightarrow>
     let m1 = or_default n1 m
     in or_default n2 (m1(n1 := map_option (insert n2) (m1 n1))))"

definition get_adjacencies :: "(string \<times> string) list \<Rightarrow> (string \<rightharpoonup> string set)" where
  "get_adjacencies adjs = fold add_adjacency adjs Map.empty"

section \<open>Addresses, keys and identities\<close>

definition ipv4 :: "nat \<Rightarrow> nat \<Rightarrow> nat \<Rightarrow> nat \<Rightarrow> u32" where
  "ipv4 a b c d = of_nat (((a * 256 + b) * 256 + c) * 256 + d)"

definition ipv4_to_string :: "u32 \<Rightarrow> string" where
  "ipv4_to_string ip = (let n = unat ip
     in show_nat (n div 2 ^ 24) @ ''.'' @ show_nat (n div 2 ^ 16 mod 256) @ ''.'' @ show_nat (n div 2 ^ 8 mod 256) @ ''.'' @ show_nat (n mod 256))"

definition addr_to_string :: "u32 \<Rightarrow> u16 \<Rightarrow> string" where
  "addr_to_string ip port = ipv4_to_string ip @ '':'' @ show_nat (unat port)"

definition generate_seed :: "gen_env \<Rightarrow> nat \<Rightarrow> string" where
  "generate_seed G k = map (\<lambda>c. if c = CHR '' '' then CHR ''-'' else c) (mnemonic G (entropy G k))"

definition succ_port :: "u16 \<Rightarrow> ('e, u16) res" where
  "succ_port p = (if p = - 1 then Inl Panic else Inr (p + 1))"

text \<open>The body of the loop over the names of the nodes.\<close>

definition assign_node :: "'z crypto_scheme \<Rightarrow> gen_env \<Rightarrow> bool \<Rightarrow> nat \<Rightarrow> string \<Rightarrow> node_maps \<Rightarrow> (gen_error, node_maps) res" where
  "assign_node C G shadow i node_name g =
     (let ip = ipv4 200 64 1 1 + of_nat i
      in if \<not> ip < ipv4 200 64 255 255 then Inl (Err TooManyNodes)
         else bind_res (succ_port (listen_port g)) (\<lambda>p1.
              bind_res (succ_port p1) (\<lambda>p2.
              let secret = generate_seed G (2 * i);
                  identity_seed = generate_seed G (2 * i + 1)
              in bind_res (map_err (\<lambda>_. TooManyNodes) (kdf_from_human C identity_seed ''identity_kdf_salt'')) (\<lambda>b.
                   Inr \<lparr>ips = (ips g)(node_name \<mapsto> if shadow then ip else ipv4 127 0 0 1),
                        obfsudp_ports = (obfsudp_ports g)(node_name \<mapsto> listen_port g),
                        secrets = (secrets g)(node_name \<mapsto> secret),
                        identity_seeds = (identity_seeds g)(node_name \<mapsto> identity_seed),
                        fingerprints = (fingerprints g)(node_name \<mapsto> my_fingerprint C (identity_from_bytes b)),
                        cookies = (cookies g)(node_name \<mapsto> obfs_public G (blake3_hash C (bytes_of_string secret))),
                        control_ports = (control_ports g)(node_name \<mapsto> p1),
                        listen_port = p2\<rparr>))))"

primrec assign_nodes ::
    "'z crypto_scheme \<Rightarrow> gen_env \<Rightarrow> bool \<Rightarrow> nat \<Rightarrow> string list \<Rightarrow> node_maps \<Rightarrow> (gen_error, node_maps) res" where
  "assign_nodes C G shadow i [] g = Inr g"
| "assign_nodes C G shadow i (n # ns) g = bind_res (assign_node C G shadow i n g) (assign_nodes C G shadow (Suc i) ns)"

definition no_nodes :: node_maps where
  "no_nodes = \<lparr>ips = Map.empty, obfsudp_ports = Map.empty, secrets = Map.empty, identity_seeds = Map.empty,
     fingerprints = Map.empty, cookies = Map.empty, control_ports = Map.empty, listen_port = 12000\<rparr>"

section \<open>The files\<close>

definition out_route_json :: "'z crypto_scheme \<Rightarrow> gen_env \<Rightarrow> bool \<Rightarrow> node_maps \<Rightarrow> string \<Rightarrow> (gen_error, string \<times> json) res" where
  "out_route_json C G shadow g neighbor =
     bind_res (if shadow then unwrap (ips g neighbor) else Inr (ipv4 127 0 0 1)) (\<lambda>ip.
     bind_res (unwrap (fingerprints g neighbor)) (\<lambda>fp.
     bind_res (unwrap (obfsudp_ports g neighbor)) (\<lambda>port.
     bind_res (unwrap (cookies g neighbor)) (\<lambda>cookie.
       Inr (neighbor, JObj [(''fingerprint'', JStr (fingerprint_to_string C fp)), (''protocol'', JStr ''obfsudp''),
         (''connect'', JStr (addr_to_string ip port)), (''cookie'', JStr (hex_encode G cookie))])))))"

definition earendil_json ::
    "'z crypto_scheme \<Rightarrow> gen_env \<Rightarrow> bool \<Rightarrow> node_maps \<Rightarrow> string \<times> string set \<Rightarrow> (gen_error, json) res" where
  "earendil_json C G shadow g entry = (case entry of (node_name, neighbors) \<Rightarrow>
     bind_res (collect_res (out_route_json C G shadow g) (keys_iter G neighbors)) (\<lambda>out_routes.
     bind_res (unwrap (identity_seeds g node_name)) (\<lambda>seed.
     bind_res (unwrap (obfsudp_ports g node_name)) (\<lambda>port.
     bind_res (unwrap (secrets g node_name)) (\<lambda>secret.
     bind_res (if shadow then Inr [] else bind_res (unwrap (control_ports g node_name)) (\<lambda>c.
         Inr [(''control_listen'', JStr (''127.0.0.1:'' @ show_nat (unat c)))])) (\<lambda>control.
       Inr (JObj ([(''identity_seed'', JStr seed)] @ control @
         [(''in_routes'', JObj [(''main_udp'', JObj [(''protocol'', JStr ''obfsudp''),
            (''listen'', JStr (''0.0.0.0:'' @ show_nat (unat port))), (''secret'', JStr secret)])]),
          (''out_routes'', JObj out_routes)]))))))))"

definition earendil_config ::
    "'z crypto_scheme \<Rightarrow> gen_env \<Rightarrow> bool \<Rightarrow> node_maps \<Rightarrow> string \<times> string set \<Rightarrow> (gen_error, string \<times> string) res" where
  "earendil_config C G shadow g entry =
     bind_res (earendil_json C G shadow g entry) (\<lambda>j.
     bind_res (unwrap (fingerprints g (fst entry))) (\<lambda>fp.
       Inr (fst entry, ''# '' @ fst entry @ '' fingerprint: '' @ fingerprint_to_string C fp @ nl @ to_yaml G j)))"

definition shadow_host :: "node_maps \<Rightarrow> string \<Rightarrow> (gen_error, string \<times> json) res" where
  "shadow_host g node_name =
     bind_res (unwrap (ips g node_name)) (\<lambda>ip.
       Inr (node_name, JObj [(''ip_addr'', JStr (ipv4_to_string ip)), (''network_node_id'', JNum 0),
         (''processes'', JArr [JObj [(''path'', JStr ''earendil''),
            (''args'', JStr (''daemon --config '' @ node_name @ ''-cfg.yaml'')), (''expected_final_state'', JStr ''running'')]])]))"

definition shadow_yaml :: "(string \<times> json) list \<Rightarrow> json" where
  "shadow_yaml hosts =
     JObj [(''general'', JObj [(''model_unblocked_syscall_latency'', JBool True), (''template_directory'', JStr ''./configs/''),
             (''stop_time'', JStr ''300s'')]),
           (''network'', JObj [(''graph'', JObj [(''type'', JStr ''1_gbit_switch'')])]),
           (''hosts'', JObj hosts)]"

definition write_files :: "gen_env \<Rightarrow> bool \<Rightarrow> string \<Rightarrow> (string \<times> string) list \<Rightarrow> (string \<times> json) list \<Rightarrow> fs_op list" where
  "write_files G shadow dir_path configs hosts =
     (if shadow then
        [CreateDirAll (dir_path @ ''/configs/hosts/''), WriteFile (dir_path @ ''/shadow.yaml'') (to_yaml G (shadow_yaml hosts))] @
        concat (map (\<lambda>(name, cfg). [CreateDir (dir_path @ ''/configs/hosts/'' @ name),
          WriteFile (dir_path @ ''/configs/hosts/'' @ name @ ''/'' @ name @ ''-cfg.yaml'') cfg]) configs)
      else CreateDirAll dir_path # map (\<lambda>(name, cfg). WriteFile (dir_path @ ''/'' @ name @ ''-cfg.yaml'') cfg) configs)"

definition gen_main ::
    "'z crypto_scheme \<Rightarrow> gen_env \<Rightarrow> bool \<Rightarrow> string \<Rightarrow> (string \<times> string) list \<Rightarrow> (gen_error, fs_op list) res" where
  "gen_main C G shadow name adjs =
     (let adj = get_adjacencies adjs;
          nodes = keys_iter G (dom adj)
      in bind_res (assign_nodes C G shadow 0 nodes no_nodes) (\<lambda>g.
         bind_res (collect_res (\<lambda>n. earendil_config C G shadow g (n, the (adj n))) nodes) (\<lambda>configs.
         bind_res (collect_res (shadow_host g) nodes) (\<lambda>hosts.
           Inr (write_files G shadow (''../'' @ name) configs hosts)))))"

section \<open>Random graphs\<close>

text \<open>
  \<open>gen-topo\<close>: \<open>choice k xs\<close> is the element drawn with the \<open>k\<close>-th random value from a list that is not empty, and \<open>petnames k\<close>
  the \<open>k\<close>-th name.  \<open>retain\<close> drops every occurrence of the name drawn.
\<close>

primrec draw_neighbors ::
    "(nat \<Rightarrow> string list \<Rightarrow> string) \<Rightarrow> nat \<Rightarrow> nat \<Rightarrow> string list \<Rightarrow> (unit, string list \<times> nat) res" where
  "draw_neighbors choice k 0 other_nodes = Inr ([], k)"
| "draw_neighbors choice k (Suc n) other_nodes =
     (if other_nodes = [] then Inl Panic
      else let x = choice k other_nodes
           in bind_res (draw_neighbors choice (Suc k) n (filter (\<lambda>y. y \<noteq> x) other_nodes)) (\<lambda>(xs, k'). Inr (x # xs, k')))"

fun topo_edges ::
    "(nat \<Rightarrow> string list \<Rightarrow> string) \<Rightarrow> nat \<Rightarrow> string list \<Rightarrow> nat \<Rightarrow> nat list \<Rightarrow> (unit, (string \<times> string) list) res" where
  "topo_edges choice k nodes neigh_count [] = Inr []"
| "topo_edges choice k nodes neigh_count (i # is') =
     bind_res (draw_neighbors choice k neigh_count (take i nodes @ drop (Suc i) nodes)) (\<lambda>(xs, k').
     bind_res (topo_edges choice k' nodes neigh_count is') (\<lambda>es.
       Inr (map (Pair (nodes ! i)) xs @ es)))"

definition gen_topo ::
    "(nat \<Rightarrow> string list \<Rightarrow> string) \<Rightarrow> (nat \<Rightarrow> string) \<Rightarrow> nat \<Rightarrow> nat \<Rightarrow> (unit, (string \<times> string) list) res" where
  "gen_topo choice petnames number neigh_count =
     (if number \<le> neigh_count then Inl Panic
      else let nodes = map petnames [0..<number] in topo_edges choice 0 nodes neigh_count [0..<number])"

definition topo_yaml :: "(string \<times> string) list \<Rightarrow> string" where
  "topo_yaml es = ''adjacencies:'' @ nl @ concat (map (\<lambda>(a, b). ''   - ['' @ a @ '', '' @ b @ '']'' @ nl) es)"

section \<open>The assigned values\<close>

definition node_names :: "(string \<times> string) list \<Rightarrow> string set" where
  "node_names adjs = fst ` set adjs \<union> snd ` set adjs"

lemma add_adjacency_apply:
  "add_adjacency (a, b) m n =
     (if n = a then Some (insert b (case m a of None \<Rightarrow> {} | Some S \<Rightarrow> S))
      else if n = b then Some (case m b of None \<Rightarrow> {} | Some S \<Rightarrow> S) else m n)"
  by (simp add: add_adjacency_def or_default_def Let_def split: option.split)

lemma node_names_simps [simp]:
  "node_names [] = {}" "node_names (adjs @ [(a, b)]) = insert a (insert b (node_names adjs))" "finite (node_names adjs)"
  by (auto simp: node_names_def)

lemma node_names_mem: "(n, m) \<in> set adjs \<Longrightarrow> n \<in> node_names adjs" "(n, m) \<in> set adjs \<Longrightarrow> m \<in> node_names adjs"
  by (auto simp: node_names_def rev_image_eqI)

lemma get_adjacencies_spec:
  "get_adjacencies adjs n = (if n \<in> node_names adjs then Some {m. (n, m) \<in> set adjs} else None)"
proof (induction adjs arbitrary: n rule: rev_induct)
  case (snoc e adjs)
  obtain a b where e: "e = (a, b)" by (cases e)
  have "get_adjacencies (adjs @ [e]) = add_adjacency (a, b) (get_adjacencies adjs)" by (simp add: get_adjacencies_def e)
  moreover have "{m. (k, m) \<in> set adjs} = {}" if "k \<notin> node_names adjs" for k using that node_names_mem(1) by blast
  moreover have "{m. (k, m) \<in> set (adjs @ [(a, b)])} = (if k = a then insert b {m. (k, m) \<in> set adjs} else {m. (k, m) \<in> set adjs})" for k
    by auto
  ultimately show ?case using snoc[of a] snoc[of b] snoc[of n] unfolding e by (simp add: add_adjacency_apply)
qed (simp add: get_adjacencies_def)

lemma dom_get_adjacencies: "dom (get_adjacencies adjs) = node_names adjs"
  by (auto simp: get_adjacencies_spec dom_def split: if_splits)

definition port_at :: "nat \<Rightarrow> u16" where
  "port_at k = of_nat (12000 + k)"

lemma unat_port_at: "k < 53536 \<Longrightarrow> unat (port_at k) = 12000 + k"
  unfolding port_at_def unat_of_nat by (simp add: take_bit_nat_eq_self)

lemma port_at_inject: "j < 53536 \<Longrightarrow> k < 53536 \<Longrightarrow> port_at j = port_at k \<longleftrightarrow> j = k"
  by (metis unat_port_at add_left_cancel)

lemma succ_port_at: "k < 53536 \<Longrightarrow> succ_port (port_at k) = (if k = 53535 then Inl Panic else Inr (port_at (Suc k)))"
proof -
  assume k: "k < 53536"
  have max: "(- 1 :: u16) = port_at 53535" by (simp add: port_at_def)
  have "port_at k = - 1 \<longleftrightarrow> port_at k = port_at 53535" unfolding max ..
  also have "\<dots> \<longleftrightarrow> k = 53535" using k by (intro port_at_inject) simp_all
  finally show ?thesis by (simp add: succ_port_def port_at_def)
qed

definition kdf_total :: "'z crypto_scheme \<Rightarrow> bool" where
  "kdf_total C \<longleftrightarrow> (\<forall>p salt. argon2_hash C p salt \<noteq> None)"

lemma address_room: "i < 65278 \<Longrightarrow> ipv4 200 64 1 1 + of_nat i < ipv4 200 64 255 255"
proof -
  assume i: "i < 65278"
  have "ipv4 200 64 1 1 + of_nat i = (of_nat (3359637761 + i) :: u32)" by (simp add: ipv4_def)
  also have "\<dots> < of_nat 3359703039" using i by (intro of_nat_word_less_iff[THEN iffD2]) (simp add: take_bit_nat_eq_self_iff take_bit_nat_eq_self)
  finally show ?thesis by (simp add: ipv4_def)
qed

text \<open>What the node with the number \<open>k\<close> is given.\<close>

definition node_identity :: "'z crypto_scheme \<Rightarrow> gen_env \<Rightarrow> nat \<Rightarrow> identity_secret" where
  "node_identity C G k =
     identity_from_bytes (the (argon2_hash C (bytes_of_string (generate_seed G (2 * k + 1))) (bytes_of_string ''identity_kdf_salt'')))"

lemma node_identity_seed:
  assumes "kdf_total C"
  shows "identity_from_seed C (generate_seed G (2 * k + 1)) = Inr (node_identity C G k)"
proof -
  obtain b where "argon2_hash C (bytes_of_string (generate_seed G (2 * k + 1))) (bytes_of_string ''identity_kdf_salt'') = Some b"
    using assms unfolding kdf_total_def by blast
  then show ?thesis by (simp add: identity_from_seed_def kdf_from_human_def node_identity_def)
qed

definition assigned :: "'z crypto_scheme \<Rightarrow> gen_env \<Rightarrow> bool \<Rightarrow> nat \<Rightarrow> string \<Rightarrow> node_maps \<Rightarrow> bool" where
  "assigned C G shadow k n g \<longleftrightarrow>
     ips g n = Some (if shadow then ipv4 200 64 1 1 + of_nat k else ipv4 127 0 0 1) \<and>
     obfsudp_ports g n = Some (port_at (2 * k)) \<and> control_ports g n = Some (port_at (2 * k + 1)) \<and>
     secrets g n = Some (generate_seed G (2 * k)) \<and> identity_seeds g n = Some (generate_seed G (2 * k + 1)) \<and>
     fingerprints g n = Some (my_fingerprint C (node_identity C G k)) \<and>
     cookies g n = Some (obfs_public G (blake3_hash C (bytes_of_string (generate_seed G (2 * k)))))"

definition same_at :: "string \<Rightarrow> node_maps \<Rightarrow> node_maps \<Rightarrow> bool" where
  "same_at n g g' \<longleftrightarrow> ips g' n = ips g n \<and> obfsudp_ports g' n = obfsudp_ports g n \<and> control_ports g' n = control_ports g n \<and>
     secrets g' n = secrets g n \<and> identity_seeds g' n = identity_seeds g n \<and> fingerprints g' n = fingerprints g n \<and> cookies g' n = cookies g n"

lemma assigned_same: "same_at n g g' \<Longrightarrow> assigned C G shadow k n g' = assigned C G shadow k n g"
  by (simp add: assigned_def same_at_def)

lemma assign_node_ok:
  assumes "kdf_total C" "i < 26767" "listen_port g = port_at (2 * i)"
  obtains g' where "assign_node C G shadow i n g = Inr g'" "listen_port g' = port_at (2 * Suc i)" "assigned C G shadow i n g'"
    "\<And>m. m \<noteq> n \<Longrightarrow> same_at m g g'"
proof -
  obtain b where b: "argon2_hash C (bytes_of_string (generate_seed G (Suc (2 * i)))) (bytes_of_string ''identity_kdf_salt'') = Some b"
    using assms(1) unfolding kdf_total_def by blast
  have room: "ipv4 200 64 1 1 + of_nat i < ipv4 200 64 255 255" using assms(2) by (intro address_room) simp
  show thesis
    by (rule that; use assms b room in \<open>simp add: assign_node_def succ_port_at kdf_from_human_def Let_def\<close>)
      (simp_all add: assigned_def same_at_def node_identity_def b)
qed

lemma assign_nodes_ok:
  assumes kdf: "kdf_total C"
  shows "distinct ns \<Longrightarrow> i + length ns \<le> 26767 \<Longrightarrow> listen_port g = port_at (2 * i) \<Longrightarrow>
    \<exists>g'. assign_nodes C G shadow i ns g = Inr g' \<and> (\<forall>j < length ns. assigned C G shadow (i + j) (ns ! j) g') \<and>
       (\<forall>m. m \<notin> set ns \<longrightarrow> same_at m g g')"
proof (induction ns arbitrary: i g)
  case (Cons n ns)
  have "i < 26767" using Cons.prems(2) by simp
  from assign_node_ok[OF kdf this Cons.prems(3), of G shadow n] obtain g1 where
      g1: "assign_node C G shadow i n g = Inr g1" "listen_port g1 = port_at (2 * Suc i)" "assigned C G shadow i n g1"
        "\<And>m. m \<noteq> n \<Longrightarrow> same_at m g g1" by metis
  obtain g' where g': "assign_nodes C G shadow (Suc i) ns g1 = Inr g'" "\<forall>j < length ns. assigned C G shadow (Suc i + j) (ns ! j) g'"
      "\<forall>m. m \<notin> set ns \<longrightarrow> same_at m g1 g'"
    using Cons.IH[of "Suc i" g1] Cons.prems g1(2) by auto
  have "assigned C G shadow i n g'" using assigned_same[of n g1 g' C G shadow i] g'(3) g1(3) Cons.prems(1) by simp
  then have "assigned C G shadow (i + j) ((n # ns) ! j) g'" if "j < length (n # ns)" for j
    using that g'(2) by (cases j) auto
  moreover have "same_at m g g'" if "m \<notin> set (n # ns)" for m
    using that g'(3) g1(4)[of m] by (simp add: same_at_def)
  ultimately show ?case using g1(1) g'(1) by auto
qed (simp add: same_at_def)

lemma assign_nodes_too_many:
  assumes kdf: "kdf_total C"
  shows "i \<le> 26767 \<Longrightarrow> 26767 < i + length ns \<Longrightarrow> listen_port g = port_at (2 * i) \<Longrightarrow> assign_nodes C G shadow i ns g = Inl Panic"
proof (induction ns arbitrary: i g)
  case (Cons n ns)
  show ?case
  proof (cases "i = 26767")
    case True
    then show ?thesis using Cons.prems address_room[of i] by (simp add: assign_node_def Let_def succ_port_at)
  next
    case False
    then have "i < 26767" using Cons.prems(1) by simp
    from assign_node_ok[OF kdf this Cons.prems(3), of G shadow n] obtain g1 where
        "assign_node C G shadow i n g = Inr g1" "listen_port g1 = port_at (2 * Suc i)" by metis
    then show ?thesis using Cons.IH[of "Suc i" g1] Cons.prems \<open>i < 26767\<close> by simp
  qed
qed simp

section \<open>What the daemons read\<close>

lemma digits: "digit_char 0 = CHR ''0''" "digit_char 1 = CHR ''1''" "digit_char 2 = CHR ''2''" "digit_char 7 = CHR ''7''"
  by code_simp+

lemma show_nat_leading_zero: "hd (show_nat n) = CHR ''0'' \<longleftrightarrow> n = 0"
proof (induction n rule: show_nat.induct)
  case (1 n)
  have "digit_char n = CHR ''0'' \<longleftrightarrow> n = 0" if "n < 10"
  proof
    assume "digit_char n = CHR ''0''"
    then have "char_digit CHR ''0'' = Some n" using char_digit_digit_char[OF that] by simp
    then show "n = 0" by (simp add: char_digit_def)
  qed (simp add: digits)
  then show ?case using 1 by (cases "n < 10") (simp_all add: show_nat.simps[of n])
qed

lemma octets: "n < 256 \<Longrightarrow> ipv4_octet (show_nat n)"
proof -
  assume n: "n < 256"
  have "length (show_nat n) \<le> 3"
    using n by (simp add: show_nat.simps[of n] show_nat.simps[of "n div 10"] show_nat.simps[of "n div 10 div 10"])
  moreover have "show_nat 0 = ''0''" by (simp add: show_nat.simps[of 0] digits)
  ultimately show ?thesis using n parse_show_nat[of n] by (auto simp: ipv4_octet_def show_nat_leading_zero)
qed

lemma no_sep: "CHR '':'' \<notin> set (show_nat n)" "CHR ''.'' \<notin> set (show_nat n)"
  by (simp_all add: show_nat_no)

lemma port_parses: "parse_digits 0 (show_nat (unat (p :: u16))) = Inr (unat p)" "unat (p :: u16) < 65536"
proof -
  show less: "unat p < 65536" using unsigned_less[of p, where ?'a = nat] by simp
  show "parse_digits 0 (show_nat (unat p)) = Inr (unat p)" using less by (intro parse_show_nat) simp
qed

lemma addr_reads: "socket_addr (addr_to_string ip port) = Some (ipv4_to_string ip, port)"
proof -
  have n: "unat ip < 2 ^ 32" using unsigned_less[of ip] by simp
  have "split_on CHR ''.'' (ipv4_to_string ip) = map show_nat [unat ip div 2 ^ 24, unat ip div 2 ^ 16 mod 256, unat ip div 2 ^ 8 mod 256, unat ip mod 256]"
    by (simp add: ipv4_to_string_def Let_def split_on_sep split_on_none no_sep)
  moreover have "list_all ipv4_octet (map show_nat [unat ip div 2 ^ 24, unat ip div 2 ^ 16 mod 256, unat ip div 2 ^ 8 mod 256, unat ip mod 256])"
    using n by (simp add: octets less_mult_imp_div_less)
  moreover have "CHR '':'' \<notin> set (ipv4_to_string ip)" by (simp add: ipv4_to_string_def Let_def no_sep)
  ultimately show ?thesis
    by (simp add: socket_addr_def addr_to_string_def split_on_sep split_on_none no_sep port_parses)
qed

lemma ipv4_texts: "ipv4_to_string (ipv4 127 0 0 1) = ''127.0.0.1''" "ipv4_to_string (ipv4 0 0 0 0) = ''0.0.0.0''"
  using digits by (simp_all add: ipv4_to_string_def ipv4_def Let_def show_nat.simps)

lemma listen_reads:
  "socket_addr (''0.0.0.0:'' @ show_nat (unat p)) = Some (''0.0.0.0'', p)"
  "socket_addr (''127.0.0.1:'' @ show_nat (unat p)) = Some (''127.0.0.1'', p)"
  using addr_reads[of "ipv4 0 0 0 0" p, unfolded addr_to_string_def ipv4_texts] addr_reads[of "ipv4 127 0 0 1" p, unfolded addr_to_string_def ipv4_texts]
  by simp_all

text \<open>
  What is assumed of the parameters: the key derivation does not fail, hexadecimal and YAML are read back, a
  line that starts with a hash is a comment, and a hash table is iterated in some order.
\<close>

definition gen_laws :: "'z crypto_scheme \<Rightarrow> gen_env \<Rightarrow> bool" where
  "gen_laws C G \<longleftrightarrow> blake3_laws C \<and> base32_laws C \<and> kdf_total C \<and>
     (\<forall>b. hex_decode G (hex_encode G b) = Some b) \<and> (\<forall>b. length (obfs_public G b) = 32) \<and>
     (\<forall>c j. CHR 0x0A \<notin> set c \<longrightarrow> from_yaml G (bytes_of_string (''# '' @ c @ nl @ to_yaml G j)) = Some j) \<and>
     (\<forall>S. finite S \<longrightarrow> set (keys_iter G S) = S \<and> distinct (keys_iter G S))"

lemma gen_lawsD:
  assumes "gen_laws C G"
  shows "blake3_laws C" "base32_laws C" "kdf_total C" "hex_decode G (hex_encode G b) = Some b" "length (obfs_public G b) = 32"
    "CHR 0x0A \<notin> set c \<Longrightarrow> from_yaml G (bytes_of_string (''# '' @ c @ nl @ to_yaml G j)) = Some j"
    "finite S \<Longrightarrow> set (keys_iter G S) = S" "finite S \<Longrightarrow> distinct (keys_iter G S)"
  using assms unfolding gen_laws_def by blast+

text \<open>The configuration a daemon is meant to read; \<open>no\<close> numbers the nodes.\<close>

definition route_to :: "'z crypto_scheme \<Rightarrow> gen_env \<Rightarrow> bool \<Rightarrow> nat \<Rightarrow> out_route_config" where
  "route_to C G shadow k =
     \<lparr>or_fingerprint = my_fingerprint C (node_identity C G k),
      or_connect = addr_to_string (if shadow then ipv4 200 64 1 1 + of_nat k else ipv4 127 0 0 1) (port_at (2 * k)),
      or_cookie = obfs_public G (blake3_hash C (bytes_of_string (generate_seed G (2 * k))))\<rparr>"

definition meant_config :: "'z crypto_scheme \<Rightarrow> gen_env \<Rightarrow> bool \<Rightarrow> (string \<Rightarrow> nat) \<Rightarrow> string \<Rightarrow> string set \<Rightarrow> config_file" where
  "meant_config C G shadow no n neighbors =
     \<lparr>cfg_identity = Some (IdentitySeed (generate_seed G (2 * no n + 1))),
      control_listen = (if shadow then default_control_listen else ''127.0.0.1:'' @ show_nat (unat (port_at (2 * no n + 1)))),
      in_routes = [(''main_udp'', \<lparr>ir_listen_ip = ''0.0.0.0'', ir_listen_port = port_at (2 * no n), ir_secret = generate_seed G (2 * no n)\<rparr>)],
      out_routes = map (\<lambda>m. (m, route_to C G shadow (no m))) (keys_iter G neighbors),
      udp_forwards = [], tcp_forwards = [], socks5 = None, havens = []\<rparr>"

lemma out_route_reads:
  assumes laws: "gen_laws C G" and a: "assigned C G shadow k n g"
  shows "\<exists>j. out_route_json C G shadow g n = Inr (n, j) \<and> read_out_route C (hex_decode G) j = Some (route_to C G shadow k)"
proof -
  note l = gen_lawsD[OF laws]
  have fp: "fingerprint_from_str C (fingerprint_to_string C (my_fingerprint C isk)) = Inr (my_fingerprint C isk)" for isk
    using l(1,2) by (intro fingerprint_string_roundtrip) simp_all
  show ?thesis using a
    by (simp add: assigned_def out_route_json_def read_out_route_def json_get_def field_def from_str_def json_str_def json_addr_def
        fp addr_reads l(4,5) route_to_def)
qed

lemma those_Some: "(\<And>x. x \<in> set xs \<Longrightarrow> f x = Some (h x)) \<Longrightarrow> those (map f xs) = Some (map h xs)"
  by (induction xs) simp_all

lemma config_reads:
  assumes laws: "gen_laws C G" and a: "\<And>m. m \<in> insert n neighbors \<Longrightarrow> assigned C G shadow (no m) m g" and fin: "finite neighbors"
  shows "\<exists>j. earendil_json C G shadow g (n, neighbors) = Inr j \<and>
    config_from_value C (hex_decode G) j = Some (meant_config C G shadow no n neighbors)"
proof -
  let ?ms = "keys_iter G neighbors"
  have ms: "set ?ms = neighbors" using gen_lawsD(7)[OF laws fin] .
  have "\<forall>m \<in> set ?ms. \<exists>j. out_route_json C G shadow g m = Inr (m, j) \<and> read_out_route C (hex_decode G) j = Some (route_to C G shadow (no m))"
    using out_route_reads[OF laws a] ms by blast
  then obtain J where J: "\<And>m. m \<in> set ?ms \<Longrightarrow> out_route_json C G shadow g m = Inr (m, J m)"
      "\<And>m. m \<in> set ?ms \<Longrightarrow> read_out_route C (hex_decode G) (J m) = Some (route_to C G shadow (no m))"
    by metis
  have outs: "collect_res (out_route_json C G shadow g) ?ms = Inr (map (\<lambda>m. (m, J m)) ?ms)" using J(1) by (rule collect_res_ok)
  have reads: "json_map (read_out_route C (hex_decode G)) (JObj (map (\<lambda>m. (m, J m)) ?ms)) = Some (map (\<lambda>m. (m, route_to C G shadow (no m))) ?ms)"
    using those_Some[of ?ms "\<lambda>m. map_option (Pair m) (read_out_route C (hex_decode G) (J m))" "\<lambda>m. (m, route_to C G shadow (no m))"] J(2)
    by (simp add: json_map_def comp_def)
  have "read_in_route (JObj [(''protocol'', JStr ''obfsudp''), (''listen'', JStr (''0.0.0.0:'' @ show_nat (unat p))), (''secret'', JStr secret)])
      = Some \<lparr>ir_listen_ip = ''0.0.0.0'', ir_listen_port = p, ir_secret = secret\<rparr>" for p secret
    using listen_reads(1)[of p] by (simp add: read_in_route_def json_get_def field_def json_str_def)
  then have ins: "json_map read_in_route (JObj [(''main_udp'', JObj [(''protocol'', JStr ''obfsudp''),
      (''listen'', JStr (''0.0.0.0:'' @ show_nat (unat p))), (''secret'', JStr secret)])])
      = Some [(''main_udp'', \<lparr>ir_listen_ip = ''0.0.0.0'', ir_listen_port = p, ir_secret = secret\<rparr>)]" for p secret
    by (simp add: json_map_def)
  have control: "json_addr (JStr (''127.0.0.1:'' @ show_nat (unat p))) = Some (''127.0.0.1:'' @ show_nat (unat p))" for p :: u16
    using listen_reads(2)[of p] by (simp add: json_addr_def json_str_def)
  have "assigned C G shadow (no n) n g" using a by simp
  then show ?thesis using outs reads ins control
    by (cases shadow) (simp_all add: assigned_def earendil_json_def config_from_value_def field_or_def json_get_def read_identity_def
        json_str_def meant_config_def)
qed

section \<open>The generated network\<close>

definition number_of :: "string list \<Rightarrow> string \<Rightarrow> nat" where
  "number_of ns n = length (takeWhile (\<lambda>x. x \<noteq> n) ns)"

lemma number_of: "n \<in> set ns \<Longrightarrow> number_of ns n < length ns" "n \<in> set ns \<Longrightarrow> ns ! number_of ns n = n"
  unfolding number_of_def
proof -
  assume "n \<in> set ns"
  then show less: "length (takeWhile (\<lambda>x. x \<noteq> n) ns) < length ns" by (induction ns) auto
  show "ns ! length (takeWhile (\<lambda>x. x \<noteq> n) ns) = n" using nth_length_takeWhile[OF less] by simp
qed

abbreviation nodes_of :: "gen_env \<Rightarrow> (string \<times> string) list \<Rightarrow> string list" where
  "nodes_of G adjs \<equiv> keys_iter G (node_names adjs)"

text \<open>The configuration read from what is written for a node.\<close>

definition read_text :: "'z crypto_scheme \<Rightarrow> gen_env \<Rightarrow> string \<Rightarrow> config_file option" where
  "read_text C G t = Option.bind (from_yaml G (bytes_of_string t)) (config_from_value C (hex_decode G))"

lemma fingerprint_string_one_line:
  assumes "base32_laws C"
  shows "CHR 0x0A \<notin> set (fingerprint_to_string C fp)"
proof
  assume "CHR 0x0A \<in> set (fingerprint_to_string C fp)"
  moreover have "set (base32_encode C (fp_bytes fp)) \<subseteq> set crockford" using assms by (simp add: base32_laws_def)
  ultimately have "CHR 0x0A \<in> set (map ascii_lower crockford)" by (auto simp: fingerprint_to_string_def)
  moreover have "CHR 0x0A \<notin> set (map ascii_lower crockford)" by code_simp
  ultimately show False by blast
qed

lemma gen_main_ok:
  assumes laws: "gen_laws C G" and few: "card (node_names adjs) \<le> 26767" and lines: "\<And>n. n \<in> node_names adjs \<Longrightarrow> CHR 0x0A \<notin> set n"
  shows "\<exists>cfg hosts. gen_main C G shadow name adjs =
      Inr (write_files G shadow (''../'' @ name) (map (\<lambda>n. (n, cfg n)) (nodes_of G adjs)) hosts) \<and>
    map fst hosts = nodes_of G adjs \<and>
    (\<forall>n \<in> node_names adjs. read_text C G (cfg n) =
       Some (meant_config C G shadow (number_of (nodes_of G adjs)) n {m. (n, m) \<in> set adjs}))"
proof -
  let ?ns = "nodes_of G adjs" and ?no = "number_of (nodes_of G adjs)"
  note l = gen_lawsD[OF laws]
  have ns: "set ?ns = node_names adjs" "distinct ?ns" using l(7,8)[of "node_names adjs"] by simp_all
  then have len: "length ?ns \<le> 26767" using few distinct_card[OF ns(2)] by simp
  obtain g where g: "assign_nodes C G shadow 0 ?ns no_nodes = Inr g" "\<forall>j < length ?ns. assigned C G shadow j (?ns ! j) g"
    using assign_nodes_ok[OF l(3) ns(2), of 0 no_nodes G shadow] len by (auto simp: no_nodes_def port_at_def)
  have a: "assigned C G shadow (?no m) m g" if "m \<in> node_names adjs" for m
    using g(2) number_of[of m ?ns] that ns(1) by metis
  have "\<exists>t. earendil_config C G shadow g (n, {m. (n, m) \<in> set adjs}) = Inr (n, t) \<and>
      read_text C G t = Some (meant_config C G shadow ?no n {m. (n, m) \<in> set adjs})" if n: "n \<in> node_names adjs" for n
  proof -
    have nbrs: "insert n {m. (n, m) \<in> set adjs} \<subseteq> node_names adjs" using n node_names_mem by auto
    then have fin: "finite {m. (n, m) \<in> set adjs}" by (metis finite_insert finite_subset node_names_simps(3))
    obtain j where j: "earendil_json C G shadow g (n, {m. (n, m) \<in> set adjs}) = Inr j"
        "config_from_value C (hex_decode G) j = Some (meant_config C G shadow ?no n {m. (n, m) \<in> set adjs})"
      using config_reads[OF laws _ fin, of n shadow ?no g] a nbrs by blast
    let ?c = "n @ '' fingerprint: '' @ fingerprint_to_string C (my_fingerprint C (node_identity C G (?no n)))"
    have "CHR 0x0A \<notin> set ?c" using lines[OF n] fingerprint_string_one_line[OF l(2)] by auto
    then have "read_text C G (''# '' @ ?c @ nl @ to_yaml G j) = Some (meant_config C G shadow ?no n {m. (n, m) \<in> set adjs})"
      using l(6)[of ?c j] j(2) by (simp add: read_text_def)
    moreover have "earendil_config C G shadow g (n, {m. (n, m) \<in> set adjs}) = Inr (n, ''# '' @ ?c @ nl @ to_yaml G j)"
      using j(1) a[OF n] by (simp add: earendil_config_def assigned_def)
    ultimately show ?thesis by blast
  qed
  then obtain cfg where cfg: "\<And>n. n \<in> node_names adjs \<Longrightarrow> earendil_config C G shadow g (n, {m. (n, m) \<in> set adjs}) = Inr (n, cfg n)"
      "\<And>n. n \<in> node_names adjs \<Longrightarrow> read_text C G (cfg n) = Some (meant_config C G shadow ?no n {m. (n, m) \<in> set adjs})"
    by metis
  have configs: "collect_res (\<lambda>n. earendil_config C G shadow g (n, the (get_adjacencies adjs n))) ?ns = Inr (map (\<lambda>n. (n, cfg n)) ?ns)"
    by (rule collect_res_ok) (simp add: ns(1) cfg(1) get_adjacencies_spec)
  have "\<exists>h. shadow_host g n = Inr (n, h)" if "n \<in> node_names adjs" for n
    using a[OF that] by (simp add: shadow_host_def assigned_def)
  then obtain h where h: "\<And>n. n \<in> node_names adjs \<Longrightarrow> shadow_host g n = Inr (n, h n)" by metis
  have hosts: "collect_res (shadow_host g) ?ns = Inr (map (\<lambda>n. (n, h n)) ?ns)"
    by (rule collect_res_ok) (simp add: ns(1) h)
  have "gen_main C G shadow name adjs = Inr (write_files G shadow (''../'' @ name) (map (\<lambda>n. (n, cfg n)) ?ns) (map (\<lambda>n. (n, h n)) ?ns))"
    using g(1) configs hosts by (simp add: gen_main_def dom_get_adjacencies Let_def)
  then show ?thesis using cfg(2) by (intro exI[of _ cfg] exI[of _ "map (\<lambda>n. (n, h n)) ?ns"]) (simp add: comp_def)
qed

text \<open>The files that are there after the operations, and the configuration of a node among them.\<close>

definition files_of :: "fs_op list \<Rightarrow> (string \<rightharpoonup> string)" where
  "files_of ops = fold (\<lambda>op m. case op of WriteFile p t \<Rightarrow> m(p \<mapsto> t) | _ \<Rightarrow> m) ops Map.empty"

definition cfg_path :: "bool \<Rightarrow> string \<Rightarrow> string \<Rightarrow> string" where
  "cfg_path shadow name n =
     (if shadow then ''../'' @ name @ ''/configs/hosts/'' @ n @ ''/'' @ n @ ''-cfg.yaml'' else ''../'' @ name @ ''/'' @ n @ ''-cfg.yaml'')"

definition node_config :: "'z crypto_scheme \<Rightarrow> gen_env \<Rightarrow> bool \<Rightarrow> string \<Rightarrow> fs_op list \<Rightarrow> string \<Rightarrow> config_file option" where
  "node_config C G shadow name ops n = Option.bind (files_of ops (cfg_path shadow name n)) (read_text C G)"

lemma cfg_path_inject: "cfg_path shadow name n = cfg_path shadow name m \<longleftrightarrow> n = m"
proof
  assume eq: "cfg_path shadow name n = cfg_path shadow name m"
  then have "length (cfg_path shadow name n) = length (cfg_path shadow name m)" by (rule arg_cong)
  then have "length n = length m" by (simp add: cfg_path_def split: if_splits)
  then show "n = m" using eq by (simp add: cfg_path_def split: if_splits)
qed simp

lemma files_written:
  assumes "n \<in> set ns" "distinct ns"
  shows "files_of (write_files G shadow (''../'' @ name) (map (\<lambda>n. (n, cfg n)) ns) hosts) (cfg_path shadow name n) = Some (cfg n)"
proof -
  let ?put = "\<lambda>op m. case op of WriteFile p t \<Rightarrow> m(p \<mapsto> t) | _ \<Rightarrow> m"
  let ?ops = "\<lambda>n. if shadow then [CreateDir (''../'' @ name @ ''/configs/hosts/'' @ n), WriteFile (cfg_path shadow name n) (cfg n)]
     else [WriteFile (cfg_path shadow name n) (cfg n)]"
  have all: "write_files G shadow (''../'' @ name) (map (\<lambda>n. (n, cfg n)) ns) hosts =
      (if shadow then [CreateDirAll (''../'' @ name @ ''/configs/hosts/''), WriteFile (''../'' @ name @ ''/shadow.yaml'') (to_yaml G (shadow_yaml hosts))]
       else [CreateDirAll (''../'' @ name)]) @ concat (map ?ops ns)"
    by (simp add: write_files_def cfg_path_def comp_def)
  have "fold ?put (concat (map ?ops ns)) m (cfg_path shadow name n) = (if n \<in> set ns then Some (cfg n) else m (cfg_path shadow name n))"
    if "distinct ns" for ns m
    using that by (induction ns arbitrary: m) (auto simp: cfg_path_inject)
  then show ?thesis using assms unfolding all files_of_def fold_append by simp
qed

lemma gen_main_configs:
  assumes laws: "gen_laws C G" and few: "card (node_names adjs) \<le> 26767" and lines: "\<And>n. n \<in> node_names adjs \<Longrightarrow> CHR 0x0A \<notin> set n"
  obtains ops where "gen_main C G shadow name adjs = Inr ops"
    "\<And>n. n \<in> node_names adjs \<Longrightarrow> node_config C G shadow name ops n =
       Some (meant_config C G shadow (number_of (nodes_of G adjs)) n {m. (n, m) \<in> set adjs})"
proof -
  have ns: "set (nodes_of G adjs) = node_names adjs" "distinct (nodes_of G adjs)" using gen_lawsD(7,8)[OF laws, of "node_names adjs"] by simp_all
  obtain cfg hosts where ok: "gen_main C G shadow name adjs = Inr (write_files G shadow (''../'' @ name) (map (\<lambda>n. (n, cfg n)) (nodes_of G adjs)) hosts)"
    "\<And>n. n \<in> node_names adjs \<Longrightarrow> read_text C G (cfg n) = Some (meant_config C G shadow (number_of (nodes_of G adjs)) n {m. (n, m) \<in> set adjs})"
    using gen_main_ok[OF laws few lines, where shadow = shadow and name = name] by blast
  show thesis
    by (rule that[OF ok(1)]) (use ns ok(2) files_written in \<open>simp add: node_config_def\<close>)
qed

lemma gen_main_too_many:
  assumes laws: "gen_laws C G" and many: "26767 < card (node_names adjs)"
  shows "gen_main C G shadow name adjs = Inl Panic"
proof -
  have "length (nodes_of G adjs) = card (node_names adjs)"
    using gen_lawsD(7,8)[OF laws, of "node_names adjs"] distinct_card by force
  then have "assign_nodes C G shadow 0 (nodes_of G adjs) no_nodes = Inl Panic"
    using many by (intro assign_nodes_too_many gen_lawsD(3)[OF laws]) (simp_all add: no_nodes_def port_at_def)
  then show ?thesis by (simp add: gen_main_def dom_get_adjacencies)
qed

lemma number_of_inject: "n \<in> set ns \<Longrightarrow> m \<in> set ns \<Longrightarrow> number_of ns n = number_of ns m \<longleftrightarrow> n = m"
  by (metis number_of(2))

section \<open>Properties\<close>

text \<open>
  (C40) The generated configurations fit together.  When the generator succeeds on a list of adjacencies and \<open>a\<close> is
  listed as adjacent to \<open>b\<close>, both have a configuration that the daemon reads.  That of \<open>a\<close> has an out-route named \<open>b\<close>
  whose fingerprint is that of the identity the daemon of \<open>b\<close> will have, whose cookie is the public key of
  the secret \<open>b\<close> listens with, and whose address ends in the port \<open>b\<close> listens on; the out-routes of \<open>a\<close> are exactly
  those of its adjacencies; and no other node listens on that port.
\<close>

theorem testbed_routes_meet:
  assumes laws: "gen_laws C G" and lines: "\<And>n. n \<in> node_names adjs \<Longrightarrow> CHR 0x0A \<notin> set n"
    and gen: "gen_main C G shadow name adjs = Inr ops" and ab: "(a, b) \<in> set adjs"
  shows "\<exists>ca cb rt r isk ip. node_config C G shadow name ops a = Some ca \<and> node_config C G shadow name ops b = Some cb \<and>
     (b, rt) \<in> set (out_routes ca) \<and> distinct (map fst (out_routes ca)) \<and> fst ` set (out_routes ca) = {m. (a, m) \<in> set adjs} \<and>
     in_routes cb = [(''main_udp'', r)] \<and> global_identity_init C rand_id cb fs = Some (Inr isk, fs) \<and>
     or_fingerprint rt = my_fingerprint C isk \<and> or_cookie rt = obfs_public G (blake3_hash C (bytes_of_string (ir_secret r))) \<and>
     socket_addr (or_connect rt) = Some (ip, ir_listen_port r) \<and>
     (\<forall>c cc rc. c \<in> node_names adjs \<longrightarrow> c \<noteq> b \<longrightarrow> node_config C G shadow name ops c = Some cc \<longrightarrow> rc \<in> set (in_routes cc) \<longrightarrow>
        ir_listen_port (snd rc) \<noteq> ir_listen_port r)"
proof -
  let ?no = "number_of (nodes_of G adjs)" and ?nbrs = "\<lambda>n. {m. (n, m) \<in> set adjs}"
  note l = gen_lawsD[OF laws]
  have few: "card (node_names adjs) \<le> 26767" using gen gen_main_too_many[OF laws] by (metis leI sum.distinct(2))
  obtain ops' where ops': "gen_main C G shadow name adjs = Inr ops'"
      "\<And>n. n \<in> node_names adjs \<Longrightarrow> node_config C G shadow name ops' n = Some (meant_config C G shadow ?no n (?nbrs n))"
    using gen_main_configs[OF laws few lines, of shadow name] by metis
  then have read: "node_config C G shadow name ops n = Some (meant_config C G shadow ?no n (?nbrs n))" if "n \<in> node_names adjs" for n
    using that gen by simp
  have ns: "set (nodes_of G adjs) = node_names adjs" "distinct (nodes_of G adjs)" using l(7,8)[of "node_names adjs"] by simp_all
  have small: "?no n < 26767" if "n \<in> node_names adjs" for n
    using number_of(1)[of n "nodes_of G adjs"] that ns few distinct_card[OF ns(2)] by simp
  have mem: "a \<in> node_names adjs" "b \<in> node_names adjs" using ab node_names_mem by blast+
  have fin: "finite (?nbrs a)" by (rule finite_subset[of _ "node_names adjs"]) (use node_names_mem in auto)
  let ?ca = "meant_config C G shadow ?no a (?nbrs a)" and ?cb = "meant_config C G shadow ?no b (?nbrs b)"
  let ?r = "\<lparr>ir_listen_ip = ''0.0.0.0'', ir_listen_port = port_at (2 * ?no b), ir_secret = generate_seed G (2 * ?no b)\<rparr>"
  have outs: "(b, route_to C G shadow (?no b)) \<in> set (out_routes ?ca)" "distinct (map fst (out_routes ?ca))" "fst ` set (out_routes ?ca) = ?nbrs a"
    using ab l(7,8)[OF fin] by (auto simp: meant_config_def comp_def image_image)
  have ident: "global_identity_init C rand_id ?cb fs = Some (Inr (node_identity C G (?no b)), fs)"
    using node_identity_seed[OF l(3)] by (simp add: global_identity_init_def meant_config_def actualize_def)
  have ports: "ir_listen_port (snd rc) \<noteq> port_at (2 * ?no b)"
    if c: "c \<in> node_names adjs" "c \<noteq> b" "node_config C G shadow name ops c = Some cc" "rc \<in> set (in_routes cc)" for c cc rc
  proof -
    have "rc = (''main_udp'', \<lparr>ir_listen_ip = ''0.0.0.0'', ir_listen_port = port_at (2 * ?no c), ir_secret = generate_seed G (2 * ?no c)\<rparr>)"
      using c(3,4) read[OF c(1)] by (auto simp: meant_config_def)
    moreover have "?no c \<noteq> ?no b" using number_of_inject[of c _ b] c(1,2) mem(2) ns(1) by simp
    ultimately show ?thesis using small[OF c(1)] small[OF mem(2)] by (simp add: port_at_inject)
  qed
  show ?thesis
    by (rule exI[of _ ?ca], rule exI[of _ ?cb], rule exI[of _ "route_to C G shadow (?no b)"], rule exI[of _ ?r],
        rule exI[of _ "node_identity C G (?no b)"], rule exI, intro conjI allI impI, rule read[OF mem(1)], rule read[OF mem(2)], rule outs(1),
        rule outs(2), rule outs(3), simp add: meant_config_def, rule ident, simp add: route_to_def, simp add: route_to_def,
        simp add: route_to_def addr_reads) (use ports in simp)
qed

text \<open>
  How large a test network can be.  The generator makes configurations for at most 26767 nodes; beyond, the
  16-bit port counter overflows and it panics, whatever the adjacencies, so that its own error for
  too many nodes, which the addresses would allow for from 65278 nodes on, is never reported.
\<close>

theorem testbed_limit:
  assumes "gen_laws C G" and "\<And>n. n \<in> node_names adjs \<Longrightarrow> CHR 0x0A \<notin> set n"
  shows "case gen_main C G shadow name adjs of Inl e \<Rightarrow> e = Panic \<and> 26767 < card (node_names adjs) | Inr ops \<Rightarrow> card (node_names adjs) \<le> 26767"
proof (cases "card (node_names adjs) \<le> 26767")
  case True
  then show ?thesis using gen_main_configs[OF assms(1) True assms(2), of shadow name] by (metis sum.case(2))
next
  case False
  then show ?thesis using gen_main_too_many[OF assms(1), of adjs shadow name] by simp
qed

section \<open>Random graphs have the asked degree\<close>

definition choice_law :: "(nat \<Rightarrow> string list \<Rightarrow> string) \<Rightarrow> bool" where
  "choice_law choice \<longleftrightarrow> (\<forall>k xs. xs \<noteq> [] \<longrightarrow> choice k xs \<in> set xs)"

lemma draw_neighbors_ok:
  assumes law: "choice_law choice"
  shows "distinct others \<Longrightarrow> n \<le> length others \<Longrightarrow>
    \<exists>xs k'. draw_neighbors choice k n others = Inr (xs, k') \<and> distinct xs \<and> set xs \<subseteq> set others \<and> length xs = n"
proof (induction n arbitrary: k others)
  case (Suc n)
  let ?x = "choice k others" and ?rest = "filter (\<lambda>y. y \<noteq> choice k others) others"
  have ne: "others \<noteq> []" using Suc.prems(2) by auto
  have x: "?x \<in> set others" using law ne by (simp add: choice_law_def)
  have "?rest = remove1 ?x others" using Suc.prems(1) by (simp add: distinct_remove1_removeAll removeAll_filter_not_eq eq_commute)
  then have "n \<le> length ?rest" using Suc.prems(2) x by (simp add: length_remove1)
  then obtain xs k' where "draw_neighbors choice (Suc k) n ?rest = Inr (xs, k')" "distinct xs" "set xs \<subseteq> set ?rest" "length xs = n"
    using Suc.IH[of ?rest "Suc k"] Suc.prems(1) by auto
  then show ?case using ne x by (auto simp: Let_def)
qed simp

lemma without_nth:
  assumes "distinct ns" "i < length ns"
  shows "distinct (take i ns @ drop (Suc i) ns)" "set (take i ns @ drop (Suc i) ns) = set ns - {ns ! i}"
proof -
  have d: "distinct (take i ns @ ns ! i # drop (Suc i) ns)" using assms by (simp add: id_take_nth_drop[symmetric])
  have s: "set ns = set (take i ns @ ns ! i # drop (Suc i) ns)" using id_take_nth_drop[OF assms(2)] by simp
  show "distinct (take i ns @ drop (Suc i) ns)" using d by simp
  show "set (take i ns @ drop (Suc i) ns) = set ns - {ns ! i}" unfolding s using d by auto
qed

lemma topo_edges_ok:
  assumes law: "choice_law choice" and d: "distinct nodes" and few: "c < length nodes"
  shows "distinct is' \<Longrightarrow> set is' \<subseteq> {..<length nodes} \<Longrightarrow>
    \<exists>es. topo_edges choice k nodes c is' = Inr es \<and> fst ` set es \<subseteq> (!) nodes ` set is' \<and>
      (\<forall>i \<in> set is'. card {m. (nodes ! i, m) \<in> set es} = c \<and> {m. (nodes ! i, m) \<in> set es} \<subseteq> set nodes - {nodes ! i})"
proof (induction is' arbitrary: k)
  case (Cons i is')
  let ?others = "take i nodes @ drop (Suc i) nodes"
  have i: "i < length nodes" using Cons.prems(2) by simp
  note w = without_nth[OF d i]
  have room: "c \<le> length ?others" using few i by simp
  obtain xs k' where xs: "draw_neighbors choice k c ?others = Inr (xs, k')" "distinct xs" "set xs \<subseteq> set nodes - {nodes ! i}" "length xs = c"
    using draw_neighbors_ok[OF law w(1) room, of k] unfolding w(2) by blast
  obtain es where es: "topo_edges choice k' nodes c is' = Inr es" "fst ` set es \<subseteq> (!) nodes ` set is'"
      "\<And>j. j \<in> set is' \<Longrightarrow> card {m. (nodes ! j, m) \<in> set es} = c \<and> {m. (nodes ! j, m) \<in> set es} \<subseteq> set nodes - {nodes ! j}"
    using Cons.IH[of k'] Cons.prems by auto
  let ?es = "map (Pair (nodes ! i)) xs @ es"
  have other: "nodes ! j \<noteq> nodes ! i" if "j \<in> set is'" for j
    using that Cons.prems nth_eq_iff_index_eq[OF d] i by auto
  have none: "(nodes ! i, m) \<notin> set es" for m
  proof
    assume "(nodes ! i, m) \<in> set es"
    then have "nodes ! i \<in> fst ` set es" by (rule rev_image_eqI) simp
    then obtain j where "j \<in> set is'" "nodes ! i = nodes ! j" using es(2) by blast
    then show False using other[of j] by simp
  qed
  have own: "{m. (nodes ! i, m) \<in> set ?es} = set xs" using none by auto
  have theirs: "{m. (nodes ! j, m) \<in> set ?es} = {m. (nodes ! j, m) \<in> set es}" if "j \<in> set is'" for j using other[OF that] by auto
  have "card {m. (nodes ! j, m) \<in> set ?es} = c \<and> {m. (nodes ! j, m) \<in> set ?es} \<subseteq> set nodes - {nodes ! j}" if j: "j \<in> set (i # is')" for j
  proof (cases "j = i")
    case True
    show ?thesis unfolding True own using xs distinct_card by auto
  next
    case False
    then have "j \<in> set is'" using j by simp
    then show ?thesis using theirs es(3) by simp
  qed
  moreover have "topo_edges choice k nodes c (i # is') = Inr ?es" using xs(1) es(1) by simp
  moreover have "fst ` set ?es \<subseteq> (!) nodes ` set (i # is')" using es(2) by auto
  ultimately show ?case by blast
qed simp

text \<open>
  From a random graph to daemons.  When the names drawn are distinct, \<open>gen-topo\<close> succeeds for every degree
  that is smaller than the number of nodes, and the configuration that \<open>gen-earendil-shadow\<close> makes of its
  result gives every node exactly that many out-routes, each to a different other node.
\<close>

theorem topo_has_degree:
  assumes laws: "gen_laws C G" "choice_law choice" and size: "number \<le> 26767" "0 < c" "c < number"
    and names: "inj_on petnames {..<number}" "\<And>i. i < number \<Longrightarrow> CHR 0x0A \<notin> set (petnames i)"
  shows "\<exists>es ops. gen_topo choice petnames number c = Inr es \<and> gen_main C G shadow name es = Inr ops \<and>
     (\<forall>i < number. \<exists>cfg. node_config C G shadow name ops (petnames i) = Some cfg \<and> length (out_routes cfg) = c \<and>
        distinct (map fst (out_routes cfg)) \<and> fst ` set (out_routes cfg) \<subseteq> petnames ` ({..<number} - {i}))"
proof -
  let ?ns = "map petnames [0..<number]"
  have d: "distinct ?ns" using names(1) by (simp add: distinct_map inj_on_def)
  obtain es where es: "topo_edges choice 0 ?ns c [0..<number] = Inr es" "fst ` set es \<subseteq> (!) ?ns ` {0..<number}"
      "\<And>i. i < number \<Longrightarrow> card {m. (petnames i, m) \<in> set es} = c \<and> {m. (petnames i, m) \<in> set es} \<subseteq> set ?ns - {petnames i}"
    using topo_edges_ok[OF laws(2) d, of c "[0..<number]" 0] size(3) by (auto simp: atLeast0LessThan)
  have sub: "node_names es \<subseteq> petnames ` {..<number}"
  proof -
    have a: "a \<in> petnames ` {..<number}" "b \<in> petnames ` {..<number}" if "(a, b) \<in> set es" for a b
    proof -
      have "a \<in> fst ` set es" using that by (rule rev_image_eqI) simp
      then obtain i where i: "i < number" "a = petnames i" using es(2) by auto
      then show "a \<in> petnames ` {..<number}" by simp
      have "b \<in> set ?ns" using es(3)[OF i(1)] that i(2) by blast
      then show "b \<in> petnames ` {..<number}" by auto
    qed
    then show ?thesis by (auto simp: node_names_def)
  qed
  have few: "card (node_names es) \<le> 26767"
    using card_mono[OF _ sub] card_image_le[of "{..<number}" petnames] size(1) by simp
  have lines: "CHR 0x0A \<notin> set n" if "n \<in> node_names es" for n using that sub names(2) by auto
  obtain ops where ops: "gen_main C G shadow name es = Inr ops"
      "\<And>n. n \<in> node_names es \<Longrightarrow> node_config C G shadow name ops n = Some (meant_config C G shadow (number_of (nodes_of G es)) n {m. (n, m) \<in> set es})"
    using gen_main_configs[OF laws(1) few lines, of shadow name] by metis
  have "\<exists>cfg. node_config C G shadow name ops (petnames i) = Some cfg \<and> length (out_routes cfg) = c \<and>
        distinct (map fst (out_routes cfg)) \<and> fst ` set (out_routes cfg) \<subseteq> petnames ` ({..<number} - {i})" if i: "i < number" for i
  proof -
    let ?S = "{m. (petnames i, m) \<in> set es}"
    have S: "card ?S = c" "?S \<subseteq> set ?ns - {petnames i}" using es(3)[OF i] by auto
    then have fin: "finite ?S" and ne: "?S \<noteq> {}" using size(2) by (auto intro: card_ge_0_finite)
    then have "petnames i \<in> node_names es" using node_names_mem(1) by blast
    note cfg = ops(2)[OF this]
    note order = gen_lawsD(7,8)[OF laws(1) fin]
    have "?S \<subseteq> petnames ` ({..<number} - {i})"
    proof
      fix m assume "m \<in> ?S"
      then have "m \<in> set ?ns" "m \<noteq> petnames i" using S(2) by blast+
      then show "m \<in> petnames ` ({..<number} - {i})" by auto
    qed
    then show ?thesis using cfg order S(1) distinct_card[OF order(2)] by (auto simp: meant_config_def comp_def image_image)
  qed
  then show ?thesis using es(1) ops(1) size(3) by (auto simp: gen_topo_def)
qed

text \<open>Names drawn twice can stop \<open>gen-topo\<close>: \<open>retain\<close> drops every node of the name, and none may be left to draw.\<close>

lemma topo_repeated_names_panic:
  assumes "choice_law choice" "2 \<le> c" "c < number" "\<And>i. petnames i = n"
  shows "gen_topo choice petnames number c = Inl Panic"
proof -
  let ?others = "take 0 (map petnames [0..<number]) @ drop (Suc 0) (map petnames [0..<number])"
  obtain d where c: "c = Suc (Suc d)" using assms(2) by (metis Suc_le_D numeral_2_eq_2 Suc_le_mono)
  have same: "set ?others = {n}" using assms(2-4) by (auto simp: drop_map image_constant_conv)
  then have "?others \<noteq> []" by (metis empty_iff insert_iff list.set(1))
  then have "choice 0 ?others = n" using assms(1) same unfolding choice_law_def by blast
  moreover have "filter (\<lambda>y. y \<noteq> n) ?others = []" using same by (auto simp: filter_empty_conv)
  ultimately have "draw_neighbors choice 0 c ?others = Inl Panic" using \<open>?others \<noteq> []\<close> unfolding c by (simp add: Let_def)
  moreover have "[0..<number] = 0 # [1..<number]" using assms(2,3) by (simp add: upt_rec)
  ultimately show ?thesis using assms(3) by (simp add: gen_topo_def Let_def)
qed

section \<open>An instance for the witnesses\<close>

instance json :: countable
  by countable_datatype

text \<open>A value is written as a number in unary.\<close>

definition demo_gen :: gen_env where
  "demo_gen = \<lparr>entropy = (\<lambda>k. [of_nat k]), mnemonic = map (\<lambda>b. char_of (unat b)), obfs_public = pad_to 32,
     hex_encode = map (\<lambda>b. char_of (unat b)), hex_decode = (\<lambda>s. Some (map of_char s)),
     to_yaml = (\<lambda>j. replicate (to_nat j) CHR ''1''),
     from_yaml = (\<lambda>b. Some (from_nat (length (tl (dropWhile (\<lambda>x. x \<noteq> of_char CHR 0x0A) b))))),
     keys_iter = sorted_list_of_set\<rparr>"

lemma unat_of_char: "unat (of_char c :: byte) = of_char c"
proof -
  have "(of_char c :: byte) = of_nat (of_char c)" by (rule of_nat_of_char[symmetric])
  then show ?thesis by (simp only: unat_of_nat) (simp add: take_bit_nat_eq_self)
qed

lemma of_char_byte_inject: "(of_char c :: byte) = of_char d \<longleftrightarrow> c = d"
  by (metis unat_of_char of_char_eq_iff)

lemma newline_byte: "(of_char c :: byte) = 10 \<longleftrightarrow> c = CHR 0x0A"
  using of_char_byte_inject[of c "CHR 0x0A"] by simp

lemma demo_gen_laws: "gen_laws demo_crypto demo_gen"
proof -
  have "from_yaml demo_gen (bytes_of_string (''# '' @ c @ nl @ to_yaml demo_gen j)) = Some j" if "CHR 0x0A \<notin> set c" for c j
  proof -
    have "dropWhile (\<lambda>x. x \<noteq> of_char CHR 0x0A) (bytes_of_string (''# '' @ c) @ of_char CHR 0x0A # bytes_of_string (to_yaml demo_gen j)) =
        of_char CHR 0x0A # bytes_of_string (to_yaml demo_gen j)"
      by (subst dropWhile_append2) (use that in \<open>auto simp: bytes_of_string_def newline_byte\<close>)
    then show ?thesis by (simp add: demo_gen_def bytes_of_string_def)
  qed
  moreover have "kdf_total demo_crypto" by (simp add: kdf_total_def demo_crypto_def)
  moreover have "of_char (char_of (unat b)) = b" for b :: byte
  proof -
    have "unat b mod 256 = unat b" using unat_byte_less[of b] by simp
    then have "unat (of_char (char_of (unat b)) :: byte) = unat b" by (simp only: unat_of_char of_char_of)
    then show ?thesis by (simp only: word_unat_eq_iff)
  qed
  ultimately show ?thesis using demo_laws demo_base32_laws
    unfolding gen_laws_def by (simp add: demo_gen_def comp_def)
qed

definition demo_adjs :: "(string \<times> string) list" where
  "demo_adjs = [(''alice'', ''rob''), (''rob'', ''bob'')]"

lemma demo_names: "node_names demo_adjs = {''alice'', ''rob'', ''bob''}"
  by (auto simp: node_names_def demo_adjs_def)

lemma demo_lines: "n \<in> node_names demo_adjs \<Longrightarrow> CHR 0x0A \<notin> set n"
  by (auto simp: demo_names)

lemma demo_few: "card (node_names demo_adjs) \<le> 26767"
  by (simp add: demo_names)

theorem testbed_routes_meet_witness:
  "\<exists>ops ca cb rt r isk ip. gen_main demo_crypto demo_gen True ''demo'' demo_adjs = Inr ops \<and>
     node_config demo_crypto demo_gen True ''demo'' ops ''alice'' = Some ca \<and> node_config demo_crypto demo_gen True ''demo'' ops ''rob'' = Some cb \<and>
     (''rob'', rt) \<in> set (out_routes ca) \<and> in_routes cb = [(''main_udp'', r)] \<and>
     global_identity_init demo_crypto (\<lambda>_. IdentitySecret []) cb \<lparr>files = Map.empty, creatable = (\<lambda>_. True)\<rparr> =
       Some (Inr isk, \<lparr>files = Map.empty, creatable = (\<lambda>_. True)\<rparr>) \<and>
     or_fingerprint rt = my_fingerprint demo_crypto isk \<and>
     or_cookie rt = obfs_public demo_gen (blake3_hash demo_crypto (bytes_of_string (ir_secret r))) \<and>
     socket_addr (or_connect rt) = Some (ip, ir_listen_port r)"
proof -
  obtain ops where ops: "gen_main demo_crypto demo_gen True ''demo'' demo_adjs = Inr ops"
    using gen_main_configs[OF demo_gen_laws demo_few demo_lines, of True "''demo''"] by metis
  have "(''alice'', ''rob'') \<in> set demo_adjs" by (simp add: demo_adjs_def)
  from testbed_routes_meet[OF demo_gen_laws demo_lines ops this,
      of "\<lambda>_. IdentitySecret []" "\<lparr>files = Map.empty, creatable = (\<lambda>_. True)\<rparr>"] ops
  show ?thesis by blast
qed

theorem testbed_limit_witness: "\<exists>ops. gen_main demo_crypto demo_gen False ''demo'' demo_adjs = Inr ops"
  using testbed_limit[where adjs = demo_adjs and shadow = False and name = "''demo''", OF demo_gen_laws demo_lines] demo_few
  by (cases "gen_main demo_crypto demo_gen False ''demo'' demo_adjs") auto

theorem topo_has_degree_witness:
  "\<exists>es ops. gen_topo (\<lambda>k xs. hd xs) (\<lambda>i. replicate i CHR ''a'') 3 2 = Inr es \<and> gen_main demo_crypto demo_gen True ''demo'' es = Inr ops \<and>
     (\<forall>i < 3. \<exists>cfg. node_config demo_crypto demo_gen True ''demo'' ops (replicate i CHR ''a'') = Some cfg \<and> length (out_routes cfg) = 2)"
proof -
  have "choice_law (\<lambda>k xs. hd xs)" by (simp add: choice_law_def)
  moreover have "inj_on (\<lambda>i. replicate i CHR ''a'') {..<3}" by (simp add: inj_on_def)
  ultimately show ?thesis
    using topo_has_degree[OF demo_gen_laws, of "\<lambda>k xs. hd xs" 3 2 "\<lambda>i. replicate i CHR ''a''" True "''demo''"] by fastforce
qed

end
