(* ===== verification/Unit_Tests.thy ===== *)
theory Unit_Tests
  imports Reply_Block_Store
begin

text \<open>
  The repository's own unit tests as programs of the model: \<open>libraries/earendil_packet/src/lib.rs\<close>
  (packets over routes of several lengths, a reply over five hops), the test modules of \<open>crypt.rs\<close>
  and \<open>inner.rs\<close>, and that of \<open>src/daemon/reply_block_store.rs\<close>.  A failed assertion, an
  \<open>expect\<close> on an error and \<open>panic!\<close> are \<open>Panic\<close>; what a test draws at random is an argument.  Cargo
  runs each test once on one draw: the theorems here say what every draw gives.
\<close>

section \<open>The test harness\<close>

text \<open>\<open>Result::expect\<close>: an error becomes a panic of the test.\<close>

definition expect :: "('e, 'a) res \<Rightarrow> ('f, 'a) res" where
  "expect m = (case m of Inl _ \<Rightarrow> Inl Panic | Inr x \<Rightarrow> Inr x)"

definition assert_eq :: "'a \<Rightarrow> 'a \<Rightarrow> ('e, unit) res" where
  "assert_eq a b = (if a = b then Inr () else Inl Panic)"

lemma expect_simps [simp]: "expect (Inl f) = Inl Panic" "expect (Inr x) = Inr x"
  by (simp_all add: expect_def)

lemma assert_eq_simps [simp]: "assert_eq a a = Inr ()" "a \<noteq> b \<Longrightarrow> assert_eq a b = Inl Panic"
  by (simp_all add: assert_eq_def)

text \<open>What one packet or reply block of a test draws.\<close>

record draws =
  relay_secrets :: "nat \<Rightarrow> onion_secret"
  layer_secrets :: "nat \<Rightarrow> onion_secret"
  padding :: bytes
  sender_isk :: identity_secret
  receiver_osk :: onion_secret
  block_id :: u64
  anon_secret :: onion_secret

section \<open>Packets: lib.rs\<close>

definition generate_forward_instructions ::
    "'z crypto_scheme \<Rightarrow> (nat \<Rightarrow> onion_secret) \<Rightarrow> nat \<Rightarrow> (forward_instruction \<times> onion_secret) list" where
  "generate_forward_instructions E generate n =
     map (\<lambda>i. let our_sk = generate i
              in (\<lparr>this_pubkey = onion_public_of E our_sk, next_fingerprint = Fingerprint (replicate 20 10)\<rparr>, our_sk))
       [0..<n]"

text \<open>The loop over the relays of the route; anything but a packet to forward fails the test.\<close>

fun peel_along ::
    "'z packet_env_scheme \<Rightarrow> (forward_instruction \<times> onion_secret) list \<Rightarrow> raw_packet \<Rightarrow> ('e, raw_packet) res" where
  "peel_along E [] pkt = Inr pkt"
| "peel_along E ((_, our_sk) # route) pkt =
     (case peel E pkt our_sk of Inr (Forward _ next_packet) \<Rightarrow> peel_along E route next_packet | _ \<Rightarrow> Inl Panic)"

definition test_packet_route ::
    "'z packet_env_scheme \<Rightarrow> draws \<Rightarrow> (forward_instruction \<times> onion_secret) list \<Rightarrow> (packet_construct_error, unit) res" where
  "test_packet_route E r route =
     (let my_isk = sender_isk r;
          destination_sk = receiver_osk r;
          destination = onion_public_of E destination_sk;
          msg = \<lparr>source_dock = 0, dest_dock = 0, body = [replicate 100 0]\<rparr>;
          forward_instructions = map fst route
      in bind_res (raw_new E (layer_secrets r) (padding r) forward_instructions destination
                     (Message msg) (replicate 20 0) my_isk) (\<lambda>(packet, _).
         bind_res (peel_along E route packet) (\<lambda>peeled_packet.
         bind_res (expect (peel E peeled_packet destination_sk)) (\<lambda>final_packet.
           case final_packet of
             Received _ (Message received_msg) \<Rightarrow> assert_eq received_msg msg
           | _ \<Rightarrow> Inl Panic))))"

definition one_hop_test :: "'z packet_env_scheme \<Rightarrow> draws \<Rightarrow> (unit, unit) res" where
  "one_hop_test E r = expect (test_packet_route E r [])"

definition five_hops_test :: "'z packet_env_scheme \<Rightarrow> draws \<Rightarrow> (unit, unit) res" where
  "five_hops_test E r = expect (test_packet_route E r (generate_forward_instructions E (relay_secrets r) 5))"

definition nine_hops_test :: "'z packet_env_scheme \<Rightarrow> draws \<Rightarrow> (unit, unit) res" where
  "nine_hops_test E r = expect (test_packet_route E r (generate_forward_instructions E (relay_secrets r) 9))"

definition ten_hops_fail_test :: "'z packet_env_scheme \<Rightarrow> draws \<Rightarrow> (unit, unit) res" where
  "ten_hops_fail_test E r =
     (case test_packet_route E r (generate_forward_instructions E (relay_secrets r) 10) of
        Inl (Err TooManyHops) \<Rightarrow> Inr () | _ \<Rightarrow> Inl Panic)"

definition reply_block_five_hops_test ::
    "'z packet_env_scheme \<Rightarrow> draws \<Rightarrow> (unit, unit) res" where
  "reply_block_five_hops_test E r =
     (let alice_isk = sender_isk r;
          alice_osk = receiver_osk r;
          alice_opk = onion_public_of E alice_osk;
          route_with_onion_secrets = generate_forward_instructions E (relay_secrets r) 5;
          route = map fst route_with_onion_secrets
      in bind_res (expect (reply_block_new E (layer_secrets r) (padding r) (block_id r) route alice_opk
                             (anon_secret r) alice_isk)) (\<lambda>(reply_block, (_, reply_degarbler)).
         let message = \<lparr>source_dock = 0, dest_dock = 0,
                        body = [bytes_of_string ''hello world from reply block!'']\<rparr>
         in bind_res (expect (new_reply E reply_block (Message message) alice_isk)) (\<lambda>packet.
            bind_res (peel_along E route_with_onion_secrets packet) (\<lambda>peeled_packet.
            bind_res (expect (peel E peeled_packet alice_osk)) (\<lambda>peeled.
              case peeled of
                GarbledReply _ peeled_reply \<Rightarrow>
                  bind_res (expect (degarble E reply_degarbler peeled_reply)) (\<lambda>(inner_packet, _).
                    case inner_packet of Message msg \<Rightarrow> assert_eq msg message | _ \<Rightarrow> Inl Panic)
              | _ \<Rightarrow> Inl Panic)))))"

section \<open>Keys and inner packets: crypt.rs, inner.rs\<close>

definition shared_secret_test :: "'z crypto_scheme \<Rightarrow> onion_secret \<Rightarrow> onion_secret \<Rightarrow> (unit, unit) res" where
  "shared_secret_test C alice_secret_key bob_secret_key =
     (let alice_public_key = onion_public_of C alice_secret_key;
          bob_public_key = onion_public_of C bob_secret_key;
          shared_secret_alice = shared_secret C alice_secret_key bob_public_key;
          shared_secret_bob = shared_secret C bob_secret_key alice_public_key
      in assert_eq shared_secret_alice shared_secret_bob)"

definition aead_encryption_decryption_test :: "'z crypto_scheme \<Rightarrow> (unit, unit) res" where
  "aead_encryption_decryption_test C =
     (let key = AeadKey (replicate 32 42);
          nonce = replicate 12 1;
          message = bytes_of_string ''Hello, world!''
      in bind_res (seal C key nonce message) (\<lambda>ciphertext.
         bind_res (expect (open_aead C key nonce ciphertext)) (\<lambda>decrypted. assert_eq message decrypted)))"

definition box_encrypt_decrypt_test :: "'z crypto_scheme \<Rightarrow> onion_secret \<Rightarrow> onion_secret \<Rightarrow> (unit, unit) res" where
  "box_encrypt_decrypt_test C recipient_sk sender_sk =
     (let message = bytes_of_string ''Super secret message'';
          recipient_pk = onion_public_of C recipient_sk
      in bind_res (box_encrypt C sender_sk message recipient_pk) (\<lambda>(encrypted_message, _).
         bind_res (expect (box_decrypt C encrypted_message recipient_sk)) (\<lambda>(decrypted_message, _).
           assert_eq message decrypted_message)))"

definition inner_packet_roundtrip_test :: "'z packet_env_scheme \<Rightarrow> identity_secret \<Rightarrow> (unit, unit) res" where
  "inner_packet_roundtrip_test E identity_secret =
     (let inner_packet = Message (message_new 42 200 [bytes_of_string ''Hello, World!''])
      in bind_res (expect (inner_encode E inner_packet identity_secret)) (\<lambda>encrypted_packet.
         bind_res (expect (inner_decode E encrypted_packet)) (\<lambda>(decrypted_packet, _).
           assert_eq inner_packet decrypted_packet)))"

section \<open>The store: reply\_block\_store.rs\<close>

definition create_reply_block ::
    "'z packet_env_scheme \<Rightarrow> draws \<Rightarrow> (unit, reply_block) res" where
  "create_reply_block E r =
     (let route_with_onion_secrets = generate_forward_instructions E (relay_secrets r) 1;
          route = map fst route_with_onion_secrets;
          alice_osk = receiver_osk r;
          alice_opk = onion_public_of E alice_osk;
          alice_isk = sender_isk r
      in bind_res (expect (reply_block_new E (layer_secrets r) (padding r) (block_id r) route alice_opk
                             (anon_secret r) alice_isk)) (\<lambda>(rb, _). Inr rb))"

definition deque_insert_test ::
    "'z packet_env_scheme \<Rightarrow> (nat \<Rightarrow> draws) \<Rightarrow> (unit, unit) res" where
  "deque_insert_test E r =
     (let d0 = rb_deque_new 3
      in bind_res (assert_eq (length (deque d0)) 0) (\<lambda>_.
         bind_res (create_reply_block E (r 1)) (\<lambda>rb1.
         let d1 = rb_deque_insert d0 rb1
         in bind_res (assert_eq (length (deque d1)) 1) (\<lambda>_.
            bind_res (create_reply_block E (r 2)) (\<lambda>rb2.
            bind_res (create_reply_block E (r 3)) (\<lambda>rb3.
            let d3 = rb_deque_insert (rb_deque_insert d1 rb2) rb3
            in bind_res (assert_eq (length (deque d3)) 3) (\<lambda>_.
               bind_res (create_reply_block E (r 4)) (\<lambda>rb4.
                 assert_eq (length (deque (rb_deque_insert d3 rb4))) 3))))))))"

definition deque_pop_test :: "'z packet_env_scheme \<Rightarrow> draws \<Rightarrow> (unit, unit) res" where
  "deque_pop_test E r =
     bind_res (create_reply_block E r) (\<lambda>rb.
       let d = rb_deque_insert (rb_deque_new 3) rb;
           (first, d1) = rb_deque_pop d;
           (second, d2) = rb_deque_pop d1
       in bind_res (assert_eq first (Some rb)) (\<lambda>_. assert_eq second None))"

definition store_insert_test ::
    "('l, 'y) lru_ops_scheme \<Rightarrow> 'z packet_env_scheme \<Rightarrow> (nat \<Rightarrow> draws) \<Rightarrow> (unit, unit) res" where
  "store_insert_test L E r =
     (let fp = Fingerprint (replicate 20 10)
      in bind_res (create_reply_block E (r 1)) (\<lambda>rb.
         let (first, s1) = rb_store_pop L fp (rb_store_insert L fp rb (rb_store_new L))
         in bind_res (assert_eq first (Some rb)) (\<lambda>_.
            bind_res (create_reply_block E (r 2)) (\<lambda>rb_new.
            let (second, s2) = rb_store_pop L fp (rb_store_insert L fp rb_new s1)
            in assert_eq second (Some rb_new)))))"

definition store_pop_test ::
    "('l, 'y) lru_ops_scheme \<Rightarrow> 'z packet_env_scheme \<Rightarrow> draws \<Rightarrow> (unit, unit) res" where
  "store_pop_test L E r =
     (let fp = Fingerprint (replicate 20 10)
      in bind_res (create_reply_block E r) (\<lambda>rb.
         let (first, s1) = rb_store_pop L fp (rb_store_insert L fp rb (rb_store_new L));
             (second, s2) = rb_store_pop L fp s1
         in bind_res (assert_eq first (Some rb)) (\<lambda>_. assert_eq second None)))"

section \<open>Lemmas\<close>

text \<open>bincode adds a few bytes to a message of one short body: it fits the payload.\<close>

definition short_messages_fit :: "'z packet_env_scheme \<Rightarrow> bool" where
  "short_messages_fit E \<longleftrightarrow> (\<forall>m b. body m = [b] \<and> length b \<le> 100 \<longrightarrow> length (bincode_serialize E (Message m)) \<le> 8172)"

lemma short_message_encoded:
  assumes "short_messages_fit E" and "body m = [b]" and "length b \<le> 100"
  obtains raw where "inner_encode E (Message m) isk = Inr raw"
  using assms inner_encode_ok_iff[of E "Message m" isk] unfolding short_messages_fit_def by blast

lemma length_bytes_of_string [simp]: "length (bytes_of_string s) = length s"
  by (simp add: bytes_of_string_def)

lemma generated_route:
  "route_for E (map generate [0..<n]) (map fst (generate_forward_instructions E generate n))"
  "length (generate_forward_instructions E generate n) = n"
  "map snd (generate_forward_instructions E generate n) = map generate [0..<n]"
  by (simp_all add: generate_forward_instructions_def route_for_def list_all_iff Let_def)

text \<open>The loop of the tests is the travel of the packet over the relays.\<close>

lemma peel_along_relay_path:
  "relay_path E (map snd route) pkt = Some (fps, pkt') \<Longrightarrow> peel_along E route pkt = Inr pkt'"
  by (induction E route pkt arbitrary: fps rule: peel_along.induct)
     (auto split: sum.splits peeled_packet.splits)

lemma packet_route_passes:
  assumes laws: "packet_laws E" and fit: "short_messages_fit E" and g: "length (padding r) = 621" and n: "n < 10"
  shows "test_packet_route E r (generate_forward_instructions E generate n) = Inr ()"
proof -
  let ?route = "generate_forward_instructions E generate n"
  let ?msg = "\<lparr>source_dock = 0, dest_dock = 0, body = [replicate 100 0]\<rparr> :: message"
  let ?new = "raw_new E (layer_secrets r) (padding r) (map fst ?route) (onion_public_of E (receiver_osk r))
     (Message ?msg) (replicate 20 0) (sender_isk r)"
  obtain sealed where enc: "inner_encode E (Message ?msg) (sender_isk r) = Inr sealed"
    using short_message_encoded[OF fit, where m = ?msg and b = "replicate 100 0" and isk = "sender_isk r"] by auto
  obtain pkt secs where new: "?new = Inr (pkt, secs)"
    using raw_new_total[OF laws _ enc generated_route(1)[of E generate n], of "replicate 20 0" "layer_secrets r" "padding r" "receiver_osk r"]
      n by (auto simp: generated_route(2))
  then have "new_normal E (layer_secrets r) (padding r) (map fst ?route) (onion_public_of E (receiver_osk r))
      (Message ?msg) (sender_isk r) = Inr pkt"
    by (simp add: new_normal_def)
  from normal_packet_delivered[OF laws g _ generated_route(1) this] obtain last where
      t: "relay_path E (map snd ?route) pkt = Some (map next_fingerprint (map fst ?route), last)"
    and "peel E last (receiver_osk r) = Inr (Received (my_fingerprint E (sender_isk r)) (Message ?msg))"
    by (auto simp: wf_inner_def generated_route(3))
  then show ?thesis by (simp add: test_packet_route_def Let_def new peel_along_relay_path[OF t])
qed

lemma ten_hops_rejected:
  "10 \<le> n \<Longrightarrow> test_packet_route E r (generate_forward_instructions E generate n) = Inl (Err TooManyHops)"
  by (simp add: test_packet_route_def Let_def raw_new_too_many generated_route(2))

lemma generated_block:
  assumes "packet_laws E" and "short_messages_fit E" and "n < 10"
  obtains rb d where "reply_block_new E (layer_secrets r) (padding r) (block_id r)
     (map fst (generate_forward_instructions E generate n)) (onion_public_of E (receiver_osk r)) (anon_secret r) (sender_isk r)
       = Inr (rb, (block_id r, d))"
proof -
  have "length (bincode_serialize E (Message \<lparr>source_dock = 0, dest_dock = 0, body = [[]]\<rparr>)) \<le> 8172"
    using assms(2) by (simp add: short_messages_fit_def)
  then show ?thesis
    using reply_block_new_total[OF assms(1) generated_route(1)[of E generate n] _, of "layer_secrets r" "padding r"] assms(3) that
    by (fastforce simp: generated_route(2))
qed

lemma create_reply_block_ok:
  assumes "packet_laws E" and "short_messages_fit E"
  obtains rb where "create_reply_block E r = Inr rb"
  by (rule generated_block[OF assms, of 1 r "relay_secrets r"]) (auto simp: create_reply_block_def Let_def)

text \<open>A reply over a block: recognised by its creator unless the identifier drawn is zero.\<close>

lemma reply_test_outcome:
  assumes laws: "packet_laws E" and fit: "short_messages_fit E" and g: "length (padding r) = 621"
  shows "reply_block_five_hops_test E r = (if block_id r = 0 then Inl Panic else Inr ())"
proof -
  let ?route = "generate_forward_instructions E (relay_secrets r) 5"
  let ?m = "\<lparr>source_dock = 0, dest_dock = 0, body = [bytes_of_string ''hello world from reply block!'']\<rparr> :: message"
  obtain rb d where new: "reply_block_new E (layer_secrets r) (padding r) (block_id r) (map fst ?route)
      (onion_public_of E (receiver_osk r)) (anon_secret r) (sender_isk r) = Inr (rb, (block_id r, d))"
    using generated_block[OF laws fit, of 5 r "relay_secrets r"] by auto
  obtain raw where enc: "inner_encode E (Message ?m) (sender_isk r) = Inr raw"
    using short_message_encoded[OF fit, where m = ?m and b = "bytes_of_string ''hello world from reply block!''" and isk = "sender_isk r"]
    by auto
  then have pkt: "new_reply E rb (Message ?m) (sender_isk r) = Inr \<lparr>header = rb_header rb, onion_body = raw\<rparr>"
    by (simp add: new_reply_def)
  have rt: "route_for E (map snd ?route) (map fst ?route)" using generated_route(1,3) by metis
  note unfold = reply_block_five_hops_test_def Let_def new pkt
  show ?thesis
  proof (cases "block_id r = 0")
    case True
    obtain fin pk where t: "relay_path E (map snd ?route) \<lparr>header = rb_header rb, onion_body = raw\<rparr> =
        Some (map next_fingerprint (map fst ?route), fin)"
      and dec: "box_decrypt E (outer (header fin)) (receiver_osk r) = Inr (0 # rb_metadata (block_id r), pk)"
      by (rule reply_travels[OF laws g rt new]) auto
    have "peel E fin (receiver_osk r) \<noteq> Inr (GarbledReply j b)" for j b
      using peel_own[OF dec length_rb_metadata refl] True rb_metadata_zero_iff[of 0]
      by (auto simp: res_simps split: prod.splits)
    then have "reply_block_five_hops_test E r = Inl Panic"
      by (cases "peel E fin (receiver_osk r)") (auto simp: unfold peel_along_relay_path[OF t] split: peeled_packet.splits)
    then show ?thesis using True by simp
  next
    case False
    obtain fin b where t: "relay_path E (map snd ?route) \<lparr>header = rb_header rb, onion_body = raw\<rparr> =
        Some (map next_fingerprint (map fst ?route), fin)"
      and "peel E fin (receiver_osk r) = Inr (GarbledReply (block_id r) b)"
      and "degarble E d b = Inr (Message ?m, my_fingerprint E (sender_isk r))"
      by (rule reply_arrives[OF laws g _ rt new False enc]) (auto simp: wf_inner_def)
    then show ?thesis using False by (simp add: unfold peel_along_relay_path[OF t])
  qed
qed

section \<open>Theorems\<close>

text \<open>
  The packet tests of \<open>lib.rs\<close> pass on every draw: a message arrives over no, five and nine relays, ten
  are refused.  The test of a reply over five relays fails exactly when the identifier drawn for the
  block is zero.
\<close>

theorem packet_tests_pass:
  assumes laws: "packet_laws E" and fit: "short_messages_fit E" and g: "length (padding r) = 621"
  shows "one_hop_test E r = Inr () \<and> five_hops_test E r = Inr () \<and> nine_hops_test E r = Inr () \<and>
         ten_hops_fail_test E r = Inr () \<and>
         reply_block_five_hops_test E r = (if block_id r = 0 then Inl Panic else Inr ())"
proof -
  note passes = packet_route_passes[OF laws fit g, of _ "relay_secrets r"]
  have "generate_forward_instructions E (relay_secrets r) 0 = []" by (simp add: generate_forward_instructions_def)
  then have "one_hop_test E r = Inr ()" using passes[of 0] by (simp add: one_hop_test_def)
  moreover have "five_hops_test E r = Inr ()" "nine_hops_test E r = Inr ()"
    using passes[of 5] passes[of 9] by (simp_all add: five_hops_test_def nine_hops_test_def)
  moreover have "ten_hops_fail_test E r = Inr ()"
    using ten_hops_rejected[of 10 E r "relay_secrets r"] by (simp add: ten_hops_fail_test_def)
  moreover have "reply_block_five_hops_test E r = (if block_id r = 0 then Inl Panic else Inr ())"
    by (rule reply_test_outcome[OF laws fit g])
  ultimately show ?thesis by blast
qed

text \<open>
  The tests of keys, boxes and inner packets pass on every draw.
\<close>

theorem crypt_tests_pass:
  assumes laws: "packet_laws E" and fit: "short_messages_fit E"
  shows "shared_secret_test E a b = Inr () \<and> aead_encryption_decryption_test E = Inr () \<and>
         box_encrypt_decrypt_test E a b = Inr () \<and> inner_packet_roundtrip_test E isk = Inr ()"
proof -
  let ?p = "message_new 42 200 [bytes_of_string ''Hello, World!'']"
  have "shared_secret_test E a b = Inr ()"
    using laws shared_secret_agrees[of E a b] by (simp add: shared_secret_test_def Let_def)
  moreover have "aead_encryption_decryption_test E = Inr ()"
    using aead_open_seal[of E "bytes_of_string ''Hello, world!''" "AeadKey (replicate 32 42)" "replicate 12 1"] laws
    by (auto simp: aead_encryption_decryption_test_def Let_def seal_def)
  moreover obtain ct where
      "(box_encrypt E b (bytes_of_string ''Super secret message'') (onion_public_of E a) :: (unit, _) res) = Inr (ct, b)"
      "box_decrypt E ct a = Inr (bytes_of_string ''Super secret message'', onion_public_of E b)"
    using onion_box.roundtrip[of E "bytes_of_string ''Super secret message''" b a] laws by auto
  then have "box_encrypt_decrypt_test E a b = Inr ()" by (simp add: box_encrypt_decrypt_test_def Let_def)
  moreover obtain raw where "inner_encode E (Message ?p) isk = Inr raw"
    using short_message_encoded[OF fit, where m = ?p and b = "bytes_of_string ''Hello, World!''" and isk = isk]
    by (auto simp: message_new_def)
  then have "inner_packet_roundtrip_test E isk = Inr ()"
    using laws inner_decode_encode[of E "Message ?p" isk raw]
    by (simp add: inner_packet_roundtrip_test_def Let_def wf_inner_def)
  ultimately show ?thesis by blast
qed

text \<open>
  The tests of the reply block store pass on every draw and with every cache that keeps the laws.
\<close>

theorem store_tests_pass:
  assumes laws: "packet_laws E" and fit: "short_messages_fit E" and L: "lru_laws L ok"
  shows "deque_insert_test E r = Inr () \<and> deque_pop_test E (r 1) = Inr () \<and>
         store_insert_test L E r = Inr () \<and> store_pop_test L E (r 1) = Inr ()"
proof -
  have "\<exists>rb. create_reply_block E (r i) = Inr rb" for i using create_reply_block_ok[OF laws fit] by metis
  then obtain rb where rb: "\<And>i. create_reply_block E (r i) = Inr (rb i)" by metis
  let ?fp = "Fingerprint (replicate 20 10)"
  let ?s1 = "rb_store_insert L ?fp (rb 1) (rb_store_new L)"
  have stack: "rb_stack L (rb_store_new L) ?fp = []"
    using L by (simp add: lru_laws_def rb_stack_def rb_store_new_def)
  note i1 = rb_store_insert_effect[OF L rb_store_new_inv[OF L], where fp = ?fp and rb = "rb 1"]
  note p1 = rb_store_pop_effect[OF L i1(1), where fp = ?fp]
  note i2 = rb_store_insert_effect[OF L p1(1), where fp = ?fp and rb = "rb 2"]
  note p2 = rb_store_pop_effect(2)[OF L i2(1), where fp = ?fp]
  note p3 = rb_store_pop_effect(2)[OF L p1(1), where fp = ?fp]
  have "deque_insert_test E r = Inr ()" "deque_pop_test E (r 1) = Inr ()"
    by (simp_all add: deque_insert_test_def deque_pop_test_def rb rb_deque_new_def rb_deque_insert_def rb_deque_pop_def
        assert_eq_def Let_def)
  moreover have "store_insert_test L E r = Inr ()" "store_pop_test L E (r 1) = Inr ()"
    using i1(2) p1(2,3) i2(2) p2 p3 stack
    by (simp_all add: store_insert_test_def store_pop_test_def rb Let_def split_beta)
  ultimately show ?thesis by blast
qed

section \<open>The tests on the demonstration instances\<close>

lemma demo_short_messages_fit: "short_messages_fit demo_env"
  by (auto simp: short_messages_fit_def demo_env_def crypto.defs demo_serialize_def put_message_def put_nat_def
      put_bytes_def)

definition demo_draws :: "u64 \<Rightarrow> draws" where
  "demo_draws i = \<lparr>relay_secrets = \<lambda>k. OnionSecret [of_nat k], layer_secrets = \<lambda>k. OnionSecret [of_nat k, 1],
     padding = replicate 621 9, sender_isk = IdentitySecret [3], receiver_osk = OnionSecret [2],
     block_id = i, anon_secret = OnionSecret [4]\<rparr>"

theorem packet_tests_pass_witness:
  "nine_hops_test demo_env (demo_draws 7) = Inr () \<and> ten_hops_fail_test demo_env (demo_draws 7) = Inr ()
   \<and> reply_block_five_hops_test demo_env (demo_draws 7) = Inr ()
   \<and> reply_block_five_hops_test demo_env (demo_draws 0) = Inl Panic"
  using packet_tests_pass[OF demo_packet_laws demo_short_messages_fit, of "demo_draws 7"]
    packet_tests_pass[OF demo_packet_laws demo_short_messages_fit, of "demo_draws 0"]
  by (simp add: demo_draws_def)

theorem crypt_tests_pass_witness:
  "box_encrypt_decrypt_test demo_env (OnionSecret [1]) (OnionSecret [2]) = Inr ()"
  using crypt_tests_pass[OF demo_packet_laws demo_short_messages_fit] by blast

theorem store_tests_pass_witness: "store_insert_test demo_lru demo_env (\<lambda>k. demo_draws (of_nat k)) = Inr ()"
  using store_tests_pass[OF demo_packet_laws demo_short_messages_fit demo_lru_laws, of "\<lambda>k. demo_draws (of_nat k)"]
  by (rule conjunct1[OF conjunct2[OF conjunct2]])

end
