(* ===== verification/Spec2Isabelle.thy ===== *)
theory Spec2Isabelle
  imports Link_Rpc Command_Line Node_Run First_Contact Testbed Unit_Tests
begin

text \<open>
  \<^bold>\<open>earendil: a verification development.\<close>

  earendil is an overlay network.  Relays exchange fixed-size onion packets over authenticated
  links; clients and relays send messages to docks of nodes (N2R) directly or, under an anonymous
  identity, with reply blocks for the way back; havens are services behind a rendezvous relay,
  found through a distributed hash table; streams, SOCKS and port forwards run on top.  The
  program is a daemon of concurrent loops over one shared context, and three libraries.

  \<^bold>\<open>The parts and their theories\<close>, from the bottom up.  Each theory names its source files in its
  own introduction; every definition that models code is listed with its lines in the manifest.

  \<^item> \<open>Earendil_Prelude\<close>: byte and word types, results with panics (\<open>res\<close>), big- and little-endian
    bytes, folds, and two locales for machines with an invariant.  \<open>Proc\<close>: procedures on a state that may
    fail, panic or not return, with a total-correctness judgement and rules; it is how the
    daemon's fallible code is written.
  \<^item> \<open>Crypt\<close> and \<open>Onion_Crypt\<close> (\<open>libraries/earendil_crypt\<close>, \<open>libraries/earendil_packet/src/crypt.rs\<close>):
    identities, fingerprints, signatures, onion keys, sealing.  Hashes, ed25519, x25519, ciphers and
    base32 are fields of the record \<open>crypto\<close>; their documented laws are named predicates.
    \<open>Signed_Document\<close> is the locale of documents signed with their signature cleared, interpreted for
    every document type of the program.
  \<^item> \<open>Inner_Packet\<close>, \<open>Raw_Packet\<close>, \<open>Onion_Route\<close>, \<open>Reply_Block\<close> (\<open>libraries/earendil_packet\<close>): construction and
    peeling of onion packets of 8882 bytes, reply blocks and their degarbling.  Shown: a packet
    travels hop by hop to its destination and yields the payload there; construction fails
    exactly for ten or more hops or a payload above 8172 bytes; peeling never panics on a packet of
    the right size; a reply through a reply block arrives and is degarbled; a reply block with
    identifier zero is lost.
  \<^item> \<open>Topology\<close>, \<open>Shortest_Path\<close> (\<open>libraries/earendil_topology\<close>): the relay graph with its identifier maps,
    signed adjacencies and their expiry, and the breadth-first search.  Shown: an invariant that
    every operation keeps; insertion accepts exactly verified documents; exact expiry, with the
    wrap-around of the unsigned difference; the search finds a shortest route when there is one
    and always ends.
  \<^item> \<open>Endpoint\<close> (\<open>src/socket.rs\<close>), \<open>Reply_Block_Store\<close>, \<open>Neigh_Table\<close>, \<open>Daemon\<close> (\<open>src/daemon/context.rs\<close>,
    \<open>peel_forward.rs\<close>, \<open>rrb_balance.rs\<close>): the record \<open>daemon\<close> holds the context's fields; \<open>send_n2r\<close>, \<open>replenish_rrb\<close>
    and \<open>peel_forward_turn\<close> are the operations.  Shown: a sent message reaches the destination's
    queue along honest relays; every operation returns, without a panic, in a consistent state,
    whatever packet comes in; replenishing ends.
  \<^item> \<open>Link_Protocol\<close>, \<open>Link_Rpc\<close>, \<open>Routes\<close> (\<open>src/daemon/link_connection.rs\<close>, \<open>link_protocol.rs\<close>, \<open>gossip.rs\<close>, \<open>inout_route.rs\<close>):
    authentication of links, packets and lines on the wire, the handlers, gossip against an
    arbitrary peer, in- and out-routes.  Shown: gossip keeps the graph consistent; two honest
    neighbours sign and insert their adjacency; calls are answered in order; in every state a
    daemon reaches, the link of each neighbour was made with a response that is a signature, by the identity it is
    listed under, of that link's own key.
  \<^item> \<open>N2r_Socket\<close>, \<open>Haven_Session\<close>, \<open>Haven_Socket\<close> (\<open>src/socket/\<close>): sockets with their batcher, the encrypted
    sessions of havens as a state machine, haven sockets and the rendezvous node of \<open>src/daemon.rs\<close>.
    Shown: batches are split within the limit and lose nothing; a message above 8182 bytes
    stops the batcher for ever; what arrives is received in order; a session delivers what is
    sent and drops repetitions; what the client does not verify; what exactly a rendezvous node forwards,
    with the idle expiry and the evictions of its cache; invariants of a socket's sessions.
  \<^item> \<open>Dht\<close>, \<open>Global_Rpc\<close> (\<open>src/daemon/dht.rs\<close>, \<open>src/global_rpc/\<close>, \<open>src/haven_util.rs\<close>): locators, registrations, replicas,
    lookup, the server's handlers, remote calls with retries.  Shown: servers store and serve
    only authentic locators; a published locator is found; repeated pings, insertions and registrations are
    harmless.
  \<^item> \<open>Stream_Layer\<close>, \<open>Forwarding\<close> (\<open>src/stream.rs\<close>, \<open>src/stream/listener.rs\<close>, \<open>src/daemon/socks5.rs\<close>, \<open>udp_forward.rs\<close>,
    \<open>tcp_forward.rs\<close>, the loops of \<open>src/haven_util.rs\<close>): streams and what runs on them.  Shown: the listener, with
    the tickers and holders of its streams acting in any order, refines one independent machine per client; a
    connection carries what its client sends until its stream dies; a
    repeated connection request costs the stream; what a proxied request comes to, also when a write is short;
    datagrams return to their sender, however late.
  \<^item> \<open>Control\<close>, \<open>Graph_Dump\<close> (\<open>src/daemon/control_protocol_impl.rs\<close>, \<open>src/config.rs\<close>): identities from seeds and files, the
    handlers of the control protocol, and its reports.
  \<^item> \<open>Startup\<close> (\<open>src/config.rs\<close>, \<open>src/daemon.rs\<close>, \<open>src/daemon/context.rs\<close>): the configuration, the initial context, the tasks
    and their supervision.  Shown: a daemon starts consistent; when exactly the process ends, panics of tasks
    included.
    \<open>Command_Line\<close> (\<open>src/commands.rs\<close>, \<open>src/control_protocol.rs\<close>, \<open>src/main.rs\<close>): the commands, against an arbitrary client and
    against one that runs the handlers.  Shown: bad input is refused before anything is asked
    of the daemon; the socket commands work together; the self-test of the hash table passes.
    \<open>Config_Value\<close> (\<open>src/config.rs\<close>): how the types of the configuration are read from a JSON value.  Shown: an
    identity that cannot be read is ignored.
  \<^item> \<open>Testbed\<close> (\<open>shadow-tests/\<close>): the generators of test networks.  Shown: the configurations they write meet,
    each out-route has the fingerprint, cookie and port with which its neighbour will listen;
    a network has at most 26767 nodes, where the 16-bit port overflows; random graphs have the
    degree asked for, or the generator panics.  \<open>Unit_Tests\<close>: the unit tests of the packet library
    and of the reply block store as programs.  Shown: what they give on every draw of their random
    values, which for one of them is a failure when the identifier zero is drawn.
  \<^item> \<open>Frame\<close>, \<open>Node_Run\<close>, \<open>Network\<close>, \<open>Reply_Network\<close>, \<open>First_Contact\<close> put the parts together.  \<open>Frame\<close> has the locales of properties
    that sending and peeling keep and of views that they leave alone, extended in \<open>Routes\<close> to everything a node does.  \<open>Node_Run\<close>: in every state that a
    daemon reaches, whatever happens to it, it is consistent and no operation panics or hangs; and a
    reply block answers once, whatever happens after.
    \<open>Network\<close>: daemons joined by links, whose packet-moving tasks take turns in any order.  Shown: what is
    sent on a socket of one node is received on a socket of another; this theory adds the
    commands at both ends.  \<open>Reply_Network\<close>: what a node does when it answers with a reply block, when such an answer
    arrives, and when it makes reply blocks.  \<open>First_Contact\<close>: a message under an anonymous identity
    from a network at rest in which no reply blocks are out; the sender's twenty batches of ten
    blocks, which raise the balance to the threshold, cross one after the other, then the
    message, the answer and the blocks that replace the one used; and an answer to whoever a reply block is held
    of, which arrives in every order of the turns.

  \<^bold>\<open>How the parts meet.\<close>  Sending takes a route from the graph, wraps a packet and injects it into the
  node's own incoming queue; the peeling loop takes packets from that queue, which the neighbour
  table also fills from the links, and forwards, delivers to a socket's queue, or degarbles.  Sockets
  add batching above and queues below; haven sockets add sessions, whose messages go through the
  rendezvous node; streams and forwards use sockets only.  The theories import each other along
  these calls, and states are passed explicitly, so that a property of two parts is stated over
  the definitions of both.

  \<^bold>\<open>Modelling.\<close>  Stateful code passes its record; a task or loop is modelled by its turns, so that any
  interleaving is a sequence of turns, and the invariants are proved over all sequences.  Errors
  are values, panics (slices, unwraps) are the fault \<open>Panic\<close>.  Loops that might not end are
  \<open>partial_function (option)\<close> with \<open>None\<close> for not returning, and that they return is proved where it holds; the
  only fuel-like argument is the list of rounds of a remote call.  For a call that waits, \<open>None\<close>
  means that it waits.  Integers of machine width are words.  Channels have the capacities of the
  code (100 packets, 1000 messages, 10000 outgoing).  Caches with a time to live lose entries in
  separate steps; the cache of the rendezvous node, on whose expiry an exact statement depends, keeps the times
  of its entries.  Random values, iteration orders of hash tables, the clock and what peers answer
  are arguments, so that statements hold for all of them.

  \<^bold>\<open>Not modelled\<close>: third-party code (the sosistab2 multiplex, stream state and pipes, JSON-RPC, the
  SOCKS protocol, the lru and moka caches, serde's machinery, YAML, stdcode and bincode) and system
  calls appear as parameters, as does the parsing of arguments.  Of socket addresses in a
  configuration the IPv4 form is modelled.  \<open>src/daemon/global_rpc.rs\<close> is not part of the build; the benchmark and
  the utilities print throughput and are not part of the daemon.  Copying bytes between a stream
  and a TCP connection, the waiting times of timers, and locks are not modelled either: a turn is
  atomic.  The sessions of havens and the streams are verified over their sockets, not over the
  packets of the network.  The wires of \<open>Network\<close> lose nothing, while the onion packets of a link are sent unreliably: what
  is shown to arrive arrives in runs without loss.  In \<open>First_Contact\<close> the order of the turns of a first
  message is chosen, one packet after the other.
\<close>

section \<open>From command to command\<close>

text \<open>
  (C7) What one user sends, another receives.  Two daemons of a network at rest are controlled from the command
  line, and each has a bound N2R socket under its own identity.  After \<open>send-msg\<close> on the first, a turn of the
  socket's batcher succeeds, and there is a route such that, in whatever order the packet-moving
  tasks of all nodes then take their turns, once those of the route have had theirs, \<open>recv-msg\<close> on the
  second prints the message and the endpoint of the first.  The wires lose nothing.
\<close>

theorem command_to_command:
  assumes laws: "daemon_laws E ok" and inv: "daemon_inv E ok (N src)" and quiet: "\<And>x. quiet (N x)"
    and names: "my_fp E (N src) = src" "my_fp E (N dst) = dst"
    and honest: "\<And>fp d. identity (graph (N src)) fp = Some d \<Longrightarrow> onion_pk d = onion_public_of E (global_onion_sk (N fp))"
    and up: "\<And>a b. linked (graph (N src)) a b \<Longrightarrow> joined wires N a b"
    and no_rb: "rb_stack (lru E) (anon_dests (N src)) dst = []"
    and route: "is_route (graph (N src)) src dst q" "length q \<le> 10"
    and sender: "ctl_sockets (w_control w) i = Some (N2r k)" "outgoing_queue k = []" "sock_isk k = global_identity (N src)"
      "bound_dock k = endpoint_new src sd"
    and message: "length (bytes_of_string txt) \<le> 8182" "iter [endpoint_new dst dd \<mapsto> [bytes_of_string txt]] = [endpoint_new dst dd]"
      "length (bincode_serialize E (Message (message_new sd dd [bytes_of_string txt]))) \<le> 8172"
    and receiver: "ctl_sockets (w_control w') j = Some (N2r r)" "incoming_queue r = []" "bound_dock r = endpoint_new dst dd"
      "socket_recv_queues (N dst) (endpoint_new dst dd) = Some []"
  shows "\<exists>w1 k1 s' k2 p.
     main_control H V (local_client E H I) rnd (SendMsg i (endpoint_new dst dd) txt) w = Some (Inr [], w1) \<and>
     ctl_sockets (w_control w1) i = Some (N2r k1) \<and> send_batcher_turn E iter k1 (N src) = Some (Some (Inr (), s'), k2) \<and>
     is_route (graph (N src)) src dst p \<and>
     (\<forall>us. subseq (path_turns wires N p) us \<longrightarrow>
        (\<exists>w2. main_control H V (local_client E H I) rnd (RecvMsg j) (w'\<lparr>w_daemon := fold (net_step E wires) us (N(src := s')) dst\<rparr>) =
           Some (Inr [show_bytes V (bytes_of_string txt) @ '' from '' @ endpoint_to_string H (endpoint_new src sd)], w2)))"
proof -
  let ?b = "bytes_of_string txt" and ?k = "k\<lparr>outgoing_queue := [(bytes_of_string txt, endpoint_new dst dd)]\<rparr>"
  have k: "sock_isk ?k = global_identity (N src)" "bound_dock ?k = endpoint_new src sd"
      "outgoing_queue ?k = map (\<lambda>m. (m, endpoint_new dst dd)) [?b]"
    using sender by simp_all
  have small: "[?b] \<noteq> []" "batch_size [?b] \<le> LIMIT" using message(1) by (simp_all add: OVERHEAD_def LIMIT_def)
  obtain s' p where sent: "send_batcher_turn E iter ?k (N src) = Some (Some (Inr (), s'), ?k\<lparr>outgoing_queue := []\<rparr>)"
      "is_route (graph (N src)) src dst p"
      "\<And>us. subseq (path_turns wires N p) us \<Longrightarrow> socket_recv_queues (fold (net_step E wires) us (N(src := s')) dst)
         (endpoint_new dst dd) = Some [(message_new sd dd [?b], src)]"
    using batch_crosses[where iter = iter, OF laws inv quiet names honest up no_rb route k small message(2,3) receiver(4)] by auto
  have received: "\<exists>w2. main_control H V (local_client E H I) rnd (RecvMsg j) (w'\<lparr>w_daemon := fold (net_step E wires) us (N(src := s')) dst\<rparr>) =
      Some (Inr [show_bytes V ?b @ '' from '' @ endpoint_to_string H (endpoint_new src sd)], w2)"
    if "subseq (path_turns wires N p) us" for us
    using recv_command[of "w'\<lparr>w_daemon := fold (net_step E wires) us (N(src := s')) dst\<rparr>" j r "message_new sd dd [?b]" src ?b]
      sent(3)[OF that] receiver by (simp add: message_new_def)
  let ?w1 = "w\<lparr>w_control := (w_control w)\<lparr>ctl_sockets := (ctl_sockets (w_control w))(i \<mapsto> N2r ?k)\<rparr>\<rparr>"
  have "ctl_sockets (w_control ?w1) i = Some (N2r ?k)" by simp
  then show ?thesis using send_command[OF sender(1,2)] sent(1,2) received by blast
qed

definition demo_control :: "n2r_socket \<Rightarrow> (demo_cache, u64 set) control_world" where
  "demo_control k = demo_world\<lparr>w_control := control_new\<lparr>ctl_sockets := [''chat'' \<mapsto> N2r k]\<rparr>\<rparr>"

theorem command_to_command_witness:
  "\<exists>w1 k1 s' k2 p.
     main_control demo_henv demo_cli (local_client demo_denv demo_henv demo_inputs) ([], demo_isk 9, OnionSecret [])
       (SendMsg ''chat'' (endpoint_new (demo_fp 2) 6) ''hi'') (demo_control (demo_socket\<lparr>outgoing_queue := []\<rparr>)) = Some (Inr [], w1) \<and>
     ctl_sockets (w_control w1) ''chat'' = Some (N2r k1) \<and>
     send_batcher_turn demo_denv (\<lambda>_. [endpoint_new (demo_fp 2) 6]) k1 (demo_net (demo_fp 1)) = Some (Some (Inr (), s'), k2) \<and>
     (\<exists>w2. main_control demo_henv demo_cli (local_client demo_denv demo_henv demo_inputs) ([], demo_isk 9, OnionSecret []) (RecvMsg ''chat'')
        (demo_control (demo_socket\<lparr>bound_dock := endpoint_new (demo_fp 2) 6\<rparr>)\<lparr>w_daemon :=
           fold (net_step demo_denv demo_wires) (PumpTurn (demo_fp 1) 4 # path_turns demo_wires demo_net p) (demo_net(demo_fp 1 := s')) (demo_fp 2)\<rparr>) =
        Some (Inr [''hi'' @ '' from '' @ endpoint_to_string demo_henv (endpoint_new (demo_fp 1) 5)], w2))"
proof -
  let ?k = "demo_socket\<lparr>outgoing_queue := []\<rparr>" and ?r = "demo_socket\<lparr>bound_dock := endpoint_new (demo_fp 2) 6\<rparr>"
  note net = demo_net_facts
  have fits: "length (bincode_serialize demo_denv (Message (message_new 5 6 [bytes_of_string ''hi'']))) \<le> 8172"
    by (simp add: demo_denv_same demo_serialize_def put_message_def put_nat_def put_bytes_def message_new_def bytes_of_string_def)
  have sender: "ctl_sockets (w_control (demo_control ?k)) ''chat'' = Some (N2r ?k)" "outgoing_queue ?k = []"
      "sock_isk ?k = global_identity (demo_net (demo_fp 1))" "bound_dock ?k = endpoint_new (demo_fp 1) 5"
    unfolding net by (simp_all add: demo_control_def demo_socket_def)
  have receiver: "ctl_sockets (w_control (demo_control ?r)) ''chat'' = Some (N2r ?r)" "incoming_queue ?r = []"
      "bound_dock ?r = endpoint_new (demo_fp 2) 6"
    by (simp_all add: demo_control_def demo_socket_def)
  have small: "length (bytes_of_string ''hi'') \<le> 8182" "length [demo_fp 1, demo_fp 2] \<le> 10" by (simp_all add: bytes_of_string_def)
  have hi: "show_bytes demo_cli (bytes_of_string ''hi'') = ''hi''"
    by (simp add: demo_cli_def string_of_bytes_def bytes_of_string_def char_of_def bit_0)
  have any: "subseq (path_turns demo_wires demo_net p) (u # path_turns demo_wires demo_net p)" for u p by (rule list_emb_Cons) simp
  from command_to_command[of demo_denv demo_lru_ok demo_net "demo_fp 1" "demo_fp 2" demo_wires "[demo_fp 1, demo_fp 2]"
      "demo_control ?k" "''chat''" ?k 5 "''hi''" "\<lambda>_. [endpoint_new (demo_fp 2) 6]" 6 "demo_control ?r" "''chat''" ?r
      demo_henv demo_cli demo_inputs "([], demo_isk 9, OnionSecret [])", unfolded net(3),
      OF demo_daemon_laws net(5) demo_net_quiet net(1,2) demo_net_honest demo_net_joined net(6) demo_route_exists small(2)
        sender small(1) refl fits receiver net(7), unfolded hi]
  show ?thesis using any by blast
qed

end
